(* ===== verification/Prelude.thy ===== *)
theory Prelude
  imports Main "HOL-Library.Word"
begin

unbundle bit_operations_syntax

text \<open>
  Shared vocabulary of the development: the machine types of the Go code, slices
  of byte strings, two's complement wrap-around of Go's \<open>int64\<close>, and the bit-level
  view of a byte buffer on which the proofs about bit packing rest.
\<close>

named_theorems bitat_simps \<open>bit-level view of byte buffers\<close>
named_theorems codec_len \<open>lengths of encoded byte strings\<close>

type_synonym byte = "8 word"
type_synonym bytes = "byte list"
type_synonym uint16 = "16 word"
type_synonym uint32 = "32 word"
type_synonym uint64 = "64 word"

section \<open>Go integers and slices\<close>

text \<open>The wrap-around of a 64-bit signed addition or subtraction.\<close>

definition int64 :: "int \<Rightarrow> int" where
  "int64 x = (x + 2 ^ 63) mod 2 ^ 64 - 2 ^ 63"

lemma int64_id: "- (2 ^ 63) \<le> x \<Longrightarrow> x < 2 ^ 63 \<Longrightarrow> int64 x = x"
  by (simp add: int64_def)

lemma int64_nonneg: "0 \<le> x \<Longrightarrow> x < 2 ^ 63 \<Longrightarrow> int64 x = x"
  by (simp add: int64_id)

lemma int64_range: "- (2 ^ 63) \<le> int64 x \<and> int64 x < 2 ^ 63"
proof -
  have "0 \<le> (x + 2 ^ 63) mod 2 ^ 64" and "(x + 2 ^ 63) mod 2 ^ 64 < 2 ^ 64"
    by simp_all
  then show ?thesis
    by (simp add: int64_def)
qed

text \<open>Wrapping the operands first makes no difference to the wrapped sum.\<close>

lemma int64_add_left: "int64 (int64 x + y) = int64 (x + y)"
proof -
  have "((x + 2 ^ 63) mod 2 ^ 64 - 2 ^ 63 + y + 2 ^ 63) mod 2 ^ 64
      = ((x + 2 ^ 63) mod 2 ^ 64 + y) mod 2 ^ 64"
    by simp
  also have "\<dots> = (x + 2 ^ 63 + y) mod 2 ^ 64"
    by (rule mod_add_left_eq)
  finally show ?thesis
    by (simp add: int64_def add.assoc add.commute add.left_commute)
qed

text \<open>The elements of a slice that may be nil.\<close>

definition nilable :: "'a list option \<Rightarrow> 'a list" where
  "nilable s = (case s of None \<Rightarrow> [] | Some xs \<Rightarrow> xs)"

lemma nilable_simps [simp]: "nilable None = []" "nilable (Some xs) = xs"
  by (simp_all add: nilable_def)

text \<open>\<open>xs[lo:hi]\<close> of a slice that is long enough.\<close>

definition slice :: "'a list \<Rightarrow> nat \<Rightarrow> nat \<Rightarrow> 'a list" where
  "slice xs lo hi = take (hi - lo) (drop lo xs)"

lemma length_slice: "hi \<le> length xs \<Longrightarrow> length (slice xs lo hi) = hi - lo"
  by (simp add: slice_def)

lemma slice_append_right:
  "length xs = n \<Longrightarrow> slice (xs @ ys) n (n + m) = take m ys"
  by (simp add: slice_def)

lemma slice_append_left:
  "hi \<le> length xs \<Longrightarrow> slice (xs @ ys) lo hi = slice xs lo hi"
  by (simp add: slice_def)

lemma slice_drop_append:
  "length xs \<le> lo \<Longrightarrow> slice (xs @ ys) lo hi = slice ys (lo - length xs) (hi - length xs)"
  by (simp add: slice_def)

lemma slice_all: "slice xs 0 (length xs) = xs"
  by (simp add: slice_def)

lemma slice_join: "a \<le> b \<Longrightarrow> b \<le> c \<Longrightarrow> slice xs a c = slice xs a b @ slice xs b c"
  using take_add [of "b - a" "c - b" "drop a xs"] by (simp add: slice_def)

lemma slice_empty [simp]: "slice xs a a = []"
  by (simp add: slice_def)

text \<open>Writing \<open>ys\<close> over the elements of \<open>xs\<close> from index \<open>off\<close> on (\<open>copy(xs[off:], ys)\<close>).\<close>

definition put_at :: "'a list \<Rightarrow> nat \<Rightarrow> 'a list \<Rightarrow> 'a list" where
  "put_at xs off ys = take off xs @ ys @ drop (off + length ys) xs"

lemma length_put_at [simp]:
  "off + length ys \<le> length xs \<Longrightarrow> length (put_at xs off ys) = length xs"
  by (simp add: put_at_def)

lemma nth_put_at:
  assumes "off + length ys \<le> length xs" "i < length xs"
  shows "put_at xs off ys ! i =
    (if off \<le> i \<and> i < off + length ys then ys ! (i - off) else xs ! i)"
  using assms by (auto simp: put_at_def nth_append min_def)

lemma put_at_append:
  "length xs = off \<Longrightarrow> length ys = length zs \<Longrightarrow>
    put_at (xs @ zs @ ws) off ys = xs @ ys @ ws"
  by (simp add: put_at_def)

section \<open>Bits of a byte buffer\<close>

text \<open>Bit \<open>i\<close> of a buffer, least significant bit of each byte first.\<close>

definition bitat :: "bytes \<Rightarrow> nat \<Rightarrow> bool" where
  "bitat bs i \<longleftrightarrow> i div 8 < length bs \<and> bit (bs ! (i div 8)) (i mod 8)"

lemma bitat_Nil [bitat_simps]: "\<not> bitat [] i"
  by (simp add: bitat_def)

lemma bitat_beyond:
  assumes "8 * length bs \<le> i"
  shows "\<not> bitat bs i"
proof -
  have "\<not> i div 8 < length bs" using assms by arith
  then show ?thesis by (simp add: bitat_def)
qed

lemma bitat_zeros [bitat_simps]: "\<not> bitat (replicate n 0) i"
  by (simp add: bitat_def)

lemma bitat_take [bitat_simps]: "bitat (take n bs) i \<longleftrightarrow> i < 8 * n \<and> bitat bs i"
  by (auto simp: bitat_def)

lemma bitat_drop [bitat_simps]: "bitat (drop n bs) i \<longleftrightarrow> bitat bs (8 * n + i)"
  by (auto simp: bitat_def)

lemma bitat_put_at:
  assumes "off + length ys \<le> length xs"
  shows "bitat (put_at xs off ys) i \<longleftrightarrow>
    (if 8 * off \<le> i \<and> i < 8 * (off + length ys) then bitat ys (i - 8 * off) else bitat xs i)"
proof -
  have a: "8 * off \<le> i \<longleftrightarrow> off \<le> i div 8" and b: "i < 8 * off + 8 * length ys \<longleftrightarrow> i div 8 < off + length ys"
    by arith+
  have c: "(i - 8 * off) div 8 = i div 8 - off" if "8 * off \<le> i"
    using that by (metis add_diff_cancel_left' div_mult_self2 le_add_diff_inverse2 add.commute
        zero_neq_numeral)
  have d: "(i - 8 * off) mod 8 = i mod 8" if "8 * off \<le> i"
    using that by (metis le_add_diff_inverse2 mod_mult_self2)
  show ?thesis
    using assms by (cases "8 * off \<le> i \<and> i < 8 * (off + length ys)")
      (simp_all add: bitat_def nth_put_at b c d, auto simp: a b nth_put_at)
qed

section \<open>Chunks of a list\<close>

text \<open>
  The records of a packfile and the chunks of its content hash: pieces of \<open>k\<close>
  elements, the last one possibly shorter.
\<close>

function chunks :: "nat \<Rightarrow> 'a list \<Rightarrow> 'a list list" where
  "chunks k xs = (if k = 0 \<or> xs = [] then [] else take k xs # chunks k (drop k xs))"
  by pat_completeness auto
termination
  by (relation "measure (\<lambda>(k, xs). length xs)") auto

declare chunks.simps [simp del]

lemma chunks_Nil [simp]: "chunks k [] = []"
  by (simp add: chunks.simps)

lemma concat_chunks: "0 < k \<Longrightarrow> concat (chunks k xs) = xs"
  by (induction k xs rule: chunks.induct) (subst chunks.simps, auto)

lemma length_chunks: "0 < k \<Longrightarrow> length (chunks k xs) = (length xs + k - 1) div k"
proof (induction k xs rule: chunks.induct)
  case (1 k xs)
  show ?case
  proof (cases "xs = []")
    case True
    with "1.prems" show ?thesis by simp
  next
    case False
    then have "length (chunks k (drop k xs)) = (length xs - k + k - 1) div k"
      using "1.IH" "1.prems" by simp
    moreover have "Suc ((length xs - k + k - 1) div k) = (length xs + k - 1) div k"
    proof -
      have "(length xs + k - 1) div k = (length xs - 1 + k) div k"
        using False by (cases xs) simp_all
      also have "\<dots> = Suc ((length xs - 1) div k)"
        using "1.prems" by (subst div_add_self2) simp_all
      finally have "(length xs + k - 1) div k = Suc ((length xs - 1) div k)" .
      moreover have "(length xs - k + k - 1) div k = (length xs - 1) div k"
        using "1.prems" False by (cases "k \<le> length xs") (auto simp: not_le)
      ultimately show ?thesis by simp
    qed
    ultimately show ?thesis using False "1.prems" by (subst chunks.simps) simp
  qed
qed

lemma nth_chunks:
  "0 < k \<Longrightarrow> i * k < length xs \<Longrightarrow> chunks k xs ! i = take k (drop (i * k) xs)"
proof (induction i arbitrary: xs)
  case 0
  then show ?case by (subst chunks.simps) auto
next
  case (Suc i)
  then have "chunks k (drop k xs) ! i = take k (drop (i * k) (drop k xs))"
    by (intro Suc.IH) auto
  with Suc.prems show ?case by (subst chunks.simps) (auto simp: add.commute)
qed

text \<open>
  The streaming view: after the elements \<open>xs\<close>, the complete chunks \<open>cs\<close> have been
  handed over and \<open>rest\<close> is still buffered.
\<close>

definition chunked :: "nat \<Rightarrow> 'a list \<Rightarrow> 'a list list \<Rightarrow> 'a list \<Rightarrow> bool" where
  "chunked k xs cs rest \<longleftrightarrow> xs = concat cs @ rest \<and> (\<forall>c \<in> set cs. length c = k) \<and> length rest < k"

lemma chunked_Nil: "0 < k \<Longrightarrow> chunked k [] [] []"
  by (simp add: chunked_def)

lemma chunked_full:
  "chunked k xs cs rest \<Longrightarrow> Suc (length rest) = k \<Longrightarrow> chunked k (xs @ [x]) (cs @ [rest @ [x]]) []"
  by (auto simp: chunked_def)

lemma chunked_part:
  "chunked k xs cs rest \<Longrightarrow> Suc (length rest) \<noteq> k \<Longrightarrow> chunked k (xs @ [x]) cs (rest @ [x])"
  by (auto simp: chunked_def)

lemma chunks_chunked:
  "chunked k xs cs rest \<Longrightarrow> chunks k xs = cs @ (if rest = [] then [] else [rest])"
proof (induction cs arbitrary: xs)
  case Nil
  then show ?case
    by (cases "rest = []") (auto simp: chunked_def chunks.simps [of k rest])
next
  case (Cons c cs)
  then have c: "length c = k" "xs = c @ (concat cs @ rest)" and "0 < k"
    by (auto simp: chunked_def)
  have "chunks k (concat cs @ rest) = cs @ (if rest = [] then [] else [rest])"
    using Cons.prems by (intro Cons.IH) (auto simp: chunked_def)
  moreover have "chunks k xs = c # chunks k (concat cs @ rest)"
    using c \<open>0 < k\<close> by (subst chunks.simps) auto
  ultimately show ?case by simp
qed

lemma chunked_length:
  assumes "chunked k xs cs rest"
  shows "length xs = length cs * k + length rest"
proof -
  have "sum_list (map length cs) = length cs * k"
    using assms by (induction cs arbitrary: xs) (auto simp: chunked_def)
  then show ?thesis using assms by (simp add: chunked_def length_concat)
qed

text \<open>A word below 2^63 is the same number as a signed one.\<close>

lemma sint_unat: "unat w < 2 ^ 63 \<Longrightarrow> sint (w :: uint64) = int (unat w)"
proof -
  assume "unat w < 2 ^ 63"
  then have "uint w < 2 ^ 63" by (metis int_ops(3) nat_int_comparison(2) of_nat_numeral of_nat_power uint_nat)
  moreover have "- (2 ^ 63) \<le> uint w" by (rule order.trans [OF _ uint_ge_0]) simp
  ultimately have "signed_take_bit 63 (uint w) = uint w" by (rule signed_take_bit_int_eq_self [rotated])
  then have "sint w = uint w" by (simp only: sint_uint len_num1 len_bit0) simp
  then show ?thesis by (simp only: uint_nat)
qed

end
