(* ===== verification/Binary.thy ===== *)
theory Binary
  imports Prelude
begin

text \<open>
  Go's \<open>encoding/binary\<close>, as far as the code uses it: little- and big-endian
  encodings of unsigned words, and the round trips between them.
\<close>

section \<open>Little-endian words of any width\<close>

fun le_put :: "nat \<Rightarrow> 'a::len word \<Rightarrow> bytes" where
  "le_put 0 w = []"
| "le_put (Suc n) w = ucast w # le_put n (drop_bit 8 w)"

fun le_get :: "bytes \<Rightarrow> 'a::len word" where
  "le_get [] = 0"
| "le_get (b # bs) = ucast b OR push_bit 8 (le_get bs)"

lemma length_le_put [simp, codec_len]: "length (le_put n w) = n"
  by (induction n arbitrary: w) auto

lemma bit_le_put:
  "k < n \<Longrightarrow> i < 8 \<Longrightarrow> bit (le_put n w ! k) i \<longleftrightarrow> bit w (8 * k + i)"
proof (induction n arbitrary: k w)
  case 0
  then show ?case by simp
next
  case (Suc n)
  then show ?case
    by (cases k) (simp_all add: bit_ucast_iff bit_drop_bit_eq add.assoc)
qed

lemma bitat_le_put [bitat_simps]: "bitat (le_put n w) i \<longleftrightarrow> i < 8 * n \<and> bit w i"
proof (cases "i div 8 < n")
  case True
  have "bit (le_put n w ! (i div 8)) (i mod 8) \<longleftrightarrow> bit w (8 * (i div 8) + i mod 8)"
    using True by (intro bit_le_put) auto
  then show ?thesis using True by (auto simp: bitat_def)
qed (auto simp: bitat_def)

lemma bitat_Cons: "bitat (b # bs) i \<longleftrightarrow> (if i < 8 then bit b i else bitat bs (i - 8))"
  by (simp add: bitat_def le_div_geq le_mod_geq)

lemma bitat_differ: "bitat (a # as) i \<noteq> bitat (b # bs) i \<longleftrightarrow>
    (if i < 8 then bit a i \<noteq> bit b i else bitat as (i - 8) \<noteq> bitat bs (i - 8))"
  by (simp add: bitat_Cons)

lemma bit_le_get:
  "bit (le_get bs :: 'a::len word) i \<longleftrightarrow> i < LENGTH('a) \<and> bitat bs i"
proof (induction bs arbitrary: i)
  case Nil
  then show ?case by (simp add: bitat_simps)
next
  case (Cons b bs)
  note bitat_Cons [of b bs i]
  moreover have "bit (le_get (b # bs) :: 'a word) i \<longleftrightarrow>
      i < LENGTH('a) \<and> (bit b i \<or> 8 \<le> i \<and> bit (le_get bs :: 'a word) (i - 8))"
    by (auto simp only: le_get.simps bit_or_iff bit_ucast_iff bit_push_bit_iff possible_bit_word)
  moreover have "8 \<le> i \<Longrightarrow> \<not> bit b i"
    by (auto dest: bit_imp_le_length)
  ultimately show ?case
    by (simp add: Cons.IH) linarith
qed

lemma le_get_put: "LENGTH('a) \<le> 8 * n \<Longrightarrow> le_get (le_put n w) = (w :: 'a::len word)"
  by (rule bit_word_eqI) (simp add: bit_le_get bitat_simps)

lemma le_get_append:
  "LENGTH('a) \<le> 8 * length bs \<Longrightarrow> (le_get (bs @ cs) :: 'a::len word) = le_get bs"
  by (rule bit_word_eqI) (auto simp: bit_le_get bitat_def nth_append)

lemma bytes_eqI:
  assumes "length xs = length ys" "\<And>i. i < 8 * length xs \<Longrightarrow> bitat xs i = bitat ys i"
  shows "xs = ys"
proof (rule nth_equalityI)
  show "length xs = length ys" by fact
next
  fix k assume k: "k < length xs"
  show "xs ! k = ys ! k"
  proof (rule bit_word_eqI)
    fix i assume "i < LENGTH(8)"
    then have i: "i < 8" by simp
    with k have "8 * k + i < 8 * length xs" by linarith
    from assms(2) [OF this] k i show "bit (xs ! k) i = bit (ys ! k) i"
      by (simp add: bitat_def assms(1) [symmetric])
  qed
qed

lemma le_put_get:
  "8 * length bs \<le> LENGTH('a) \<Longrightarrow> le_put (length bs) (le_get bs :: 'a::len word) = bs"
  by (rule bytes_eqI) (auto simp: bitat_simps bit_le_get)

section \<open>The operations of the package\<close>

definition PutUint16 :: "uint16 \<Rightarrow> bytes" where "PutUint16 v = le_put 2 v"
definition PutUint32 :: "uint32 \<Rightarrow> bytes" where "PutUint32 v = le_put 4 v"
definition PutUint64 :: "uint64 \<Rightarrow> bytes" where "PutUint64 v = le_put 8 v"

definition Uint16 :: "bytes \<Rightarrow> uint16" where "Uint16 bs = le_get (take 2 bs)"
definition Uint32 :: "bytes \<Rightarrow> uint32" where "Uint32 bs = le_get (take 4 bs)"
definition Uint64 :: "bytes \<Rightarrow> uint64" where "Uint64 bs = le_get (take 8 bs)"

definition PutUint16BE :: "uint16 \<Rightarrow> bytes" where "PutUint16BE v = rev (PutUint16 v)"
definition PutUint32BE :: "uint32 \<Rightarrow> bytes" where "PutUint32BE v = rev (PutUint32 v)"
definition PutUint64BE :: "uint64 \<Rightarrow> bytes" where "PutUint64BE v = rev (PutUint64 v)"

definition Uint16BE :: "bytes \<Rightarrow> uint16" where "Uint16BE bs = Uint16 (rev (take 2 bs))"
definition Uint32BE :: "bytes \<Rightarrow> uint32" where "Uint32BE bs = Uint32 (rev (take 4 bs))"
definition Uint64BE :: "bytes \<Rightarrow> uint64" where "Uint64BE bs = Uint64 (rev (take 8 bs))"

lemma length_PutUint [simp, codec_len]:
  "length (PutUint16 u) = 2" "length (PutUint32 v) = 4" "length (PutUint64 w) = 8"
  "length (PutUint16BE u) = 2" "length (PutUint32BE v) = 4" "length (PutUint64BE w) = 8"
  by (simp_all add: PutUint16_def PutUint32_def PutUint64_def
      PutUint16BE_def PutUint32BE_def PutUint64BE_def)

lemma Uint_PutUint [simp]:
  "Uint16 (PutUint16 u @ bs) = u" "Uint32 (PutUint32 v @ bs) = v" "Uint64 (PutUint64 w @ bs) = w"
  "Uint16 (PutUint16 u) = u" "Uint32 (PutUint32 v) = v" "Uint64 (PutUint64 w) = w"
  by (simp_all add: Uint16_def Uint32_def Uint64_def PutUint16_def PutUint32_def PutUint64_def
      le_get_put)

lemma UintBE_PutUintBE [simp]:
  "Uint16BE (PutUint16BE u @ bs) = u" "Uint32BE (PutUint32BE v @ bs) = v"
  "Uint64BE (PutUint64BE w @ bs) = w"
  "Uint16BE (PutUint16BE u) = u" "Uint32BE (PutUint32BE v) = v" "Uint64BE (PutUint64BE w) = w"
  by (simp_all add: Uint16BE_def Uint32BE_def Uint64BE_def PutUint16BE_def PutUint32BE_def
      PutUint64BE_def)

lemma PutUint32_Uint32: "length bs = 4 \<Longrightarrow> PutUint32 (Uint32 bs) = bs"
  using le_put_get [of bs, where 'a = 32] by (simp add: PutUint32_def Uint32_def)

lemma PutUint16BE_Uint16BE:
  assumes "2 \<le> length bs"
  shows "PutUint16BE (Uint16BE bs) = take 2 bs"
  using le_put_get [of "rev (take 2 bs)", where 'a = 16] assms
  by (simp add: PutUint16BE_def PutUint16_def Uint16BE_def Uint16_def)

lemma PutUint32_inject [simp]: "PutUint32 a = PutUint32 b \<longleftrightarrow> a = b"
  by (metis Uint_PutUint(5))

lemma PutUint32BE_inject [simp]: "PutUint32BE a = PutUint32BE b \<longleftrightarrow> a = b"
  by (metis UintBE_PutUintBE(5))

lemma Uint32_take [simp]: "Uint32 (take 4 bs) = Uint32 bs"
  by (simp add: Uint32_def)

section \<open>Accesses that panic\<close>

text \<open>
  An index or slice expression outside its slice is a run-time panic in Go: its value is
  \<open>None\<close>. Go bounds \<open>xs[i:j]\<close> by the capacity of \<open>xs\<close> when \<open>j\<close> is given; here the
  bound is the length, so an expression that reached into the spare capacity is a panic
  too. The integers of \<open>encoding/binary\<close> are loaded from the start of \<open>xs[i:]\<close>.
\<close>

definition go_index :: "'a list \<Rightarrow> int \<Rightarrow> 'a option" where
  "go_index xs i = (if 0 \<le> i \<and> i < int (length xs) then Some (xs ! nat i) else None)"

definition go_slice :: "'a list \<Rightarrow> int \<Rightarrow> int \<Rightarrow> 'a list option" where
  "go_slice xs i j =
    (if 0 \<le> i \<and> i \<le> j \<and> j \<le> int (length xs) then Some (slice xs (nat i) (nat j)) else None)"

definition go_update :: "'a list \<Rightarrow> int \<Rightarrow> 'a \<Rightarrow> 'a list option" where
  "go_update xs i x = (if 0 \<le> i \<and> i < int (length xs) then Some (xs[nat i := x]) else None)"

definition go_Uint32 :: "bytes \<Rightarrow> int \<Rightarrow> uint32 option" where
  "go_Uint32 bs i = (if 0 \<le> i \<and> i + 4 \<le> int (length bs) then Some (Uint32 (drop (nat i) bs)) else None)"

definition go_Uint64 :: "bytes \<Rightarrow> int \<Rightarrow> uint64 option" where
  "go_Uint64 bs i = (if 0 \<le> i \<and> i + 8 \<le> int (length bs) then Some (Uint64 (drop (nat i) bs)) else None)"

definition go_PutUint32 :: "bytes \<Rightarrow> int \<Rightarrow> uint32 \<Rightarrow> bytes option" where
  "go_PutUint32 bs i v = (if 0 \<le> i \<and> i + 4 \<le> int (length bs) then Some (put_at bs (nat i) (PutUint32 v)) else None)"

definition go_PutUint64 :: "bytes \<Rightarrow> int \<Rightarrow> uint64 \<Rightarrow> bytes option" where
  "go_PutUint64 bs i v = (if 0 \<le> i \<and> i + 8 \<le> int (length bs) then Some (put_at bs (nat i) (PutUint64 v)) else None)"

text \<open>Inside the bounds, with the offsets as natural numbers or counted from the end.\<close>

lemma go_access [simp]:
  "i < length xs \<Longrightarrow> go_index xs (int i) = Some (xs ! i)"
  "i \<le> j \<Longrightarrow> j \<le> length xs \<Longrightarrow> go_slice xs (int i) (int j) = Some (slice xs i j)"
  "i < length xs \<Longrightarrow> go_update xs (int i) x = Some (xs[i := x])"
  by (simp_all add: go_index_def go_slice_def go_update_def)

lemma go_words [simp]:
  "i + 4 \<le> length bs \<Longrightarrow> go_Uint32 bs (int i) = Some (Uint32 (drop i bs))"
  "i + 8 \<le> length bs \<Longrightarrow> go_Uint64 bs (int i) = Some (Uint64 (drop i bs))"
  "i + 4 \<le> length bs \<Longrightarrow> go_PutUint32 bs (int i) v = Some (put_at bs i (PutUint32 v))"
  "i + 8 \<le> length bs \<Longrightarrow> go_PutUint64 bs (int i) w = Some (put_at bs i (PutUint64 w))"
  by (simp_all add: go_Uint32_def go_Uint64_def go_PutUint32_def go_PutUint64_def)

lemma go_from_end:
  "0 < k \<Longrightarrow> k \<le> length xs \<Longrightarrow> go_index xs (int (length xs) - int k) = Some (xs ! (length xs - k))"
  "4 \<le> k \<Longrightarrow> k \<le> length bs \<Longrightarrow> go_Uint32 bs (int (length bs) - int k) = Some (Uint32 (drop (length bs - k) bs))"
  "i \<le> length xs - k \<Longrightarrow> k \<le> length xs \<Longrightarrow> go_slice xs (int i) (int (length xs) - int k) = Some (slice xs i (length xs - k))"
  using go_access(1) [of "length xs - k" xs] go_words(1) [of "length bs - k" bs]
    go_access(2) [of i "length xs - k" xs]
  by (simp_all add: of_nat_diff)

end
