(* ===== verification/Crc32c.thy ===== *)
theory Crc32c
  imports Binary
begin

text \<open>
  \<open>CRC32C\<close> of packfile/packfile.go: \<open>crc32.Checksum\<close> with the Castagnoli table
  (reflected polynomial 0x82F63B78). The table look-up of the Go library is the
  eight-fold bit step written out below. The lemmas show what the format relies
  on: any change confined to 32 consecutive bits, wherever they start, changes the
  checksum, and so does any change of at most four consecutive bytes.
\<close>

definition crc_bit :: "uint32 \<Rightarrow> uint32" where
  "crc_bit c = (if bit c 0 then drop_bit 1 c XOR 0x82F63B78 else drop_bit 1 c)"

definition crc_byte :: "uint32 \<Rightarrow> byte \<Rightarrow> uint32" where
  "crc_byte c b = (crc_bit ^^ 8) (c XOR ucast b)"

definition crc_update :: "uint32 \<Rightarrow> bytes \<Rightarrow> uint32" where
  "crc_update c bs = NOT (foldl crc_byte (NOT c) bs)"

definition CRC32C :: "bytes \<Rightarrow> uint32" where
  "CRC32C bs = crc_update 0 bs"

section \<open>The bit step is a bijection\<close>

lemma xor_right_inject: "a XOR x = b XOR x \<longleftrightarrow> a = (b :: 'a::len word)"
  by (metis xor.assoc xor.right_neutral xor_self_eq)

lemma xor_left_inject: "x XOR a = x XOR b \<longleftrightarrow> a = (b :: 'a::len word)"
  by (metis xor.commute xor_right_inject)

lemma bit_31_poly: "bit (0x82F63B78 :: uint32) 31"
  by simp

lemma bit_31_crc_bit: "bit (crc_bit c) 31 \<longleftrightarrow> bit c 0"
  by (auto simp: crc_bit_def bit_xor_iff bit_drop_bit_eq dest: bit_imp_le_length)

lemma drop_bit_1_inject:
  fixes a b :: uint32
  assumes "drop_bit 1 a = drop_bit 1 b" "bit a 0 = bit b 0"
  shows "a = b"
proof (rule bit_word_eqI)
  fix i assume "i < LENGTH(32)"
  show "bit a i = bit b i"
  proof (cases i)
    case 0
    with assms(2) show ?thesis by simp
  next
    case (Suc j)
    have "bit (drop_bit 1 a) j = bit (drop_bit 1 b) j" using assms(1) by simp
    with Suc show ?thesis by (simp add: bit_drop_bit_eq)
  qed
qed

lemma crc_bit_inject: "crc_bit a = crc_bit b \<longleftrightarrow> a = b"
proof
  assume eq: "crc_bit a = crc_bit b"
  then have "bit a 0 = bit b 0" by (metis bit_31_crc_bit)
  moreover from this eq have "drop_bit 1 a = drop_bit 1 b"
    by (auto simp: crc_bit_def xor_right_inject split: if_splits)
  ultimately show "a = b" by (rule drop_bit_1_inject [rotated])
qed simp

lemma inj_crc_bit: "inj crc_bit"
  by (rule injI) (simp add: crc_bit_inject)

lemma inj_crc_bits: "inj (crc_bit ^^ n)"
  by (induction n) (simp_all add: inj_crc_bit inj_compose del: o_apply)

lemma crc_byte_state_inject: "crc_byte c b = crc_byte d b \<longleftrightarrow> c = d"
proof -
  have "crc_byte c b = crc_byte d b \<longleftrightarrow> c XOR ucast b = d XOR ucast b"
    by (simp only: crc_byte_def inj_eq [OF inj_crc_bits])
  also have "\<dots> \<longleftrightarrow> c = d"
    by (rule xor_right_inject)
  finally show ?thesis .
qed

lemma foldl_crc_byte_inject: "foldl crc_byte c bs = foldl crc_byte d bs \<longleftrightarrow> c = d"
  by (induction bs arbitrary: c d) (auto simp: crc_byte_state_inject)

section \<open>Linearity and bursts\<close>

lemma crc_bit_xor: "crc_bit (a XOR b) = crc_bit a XOR crc_bit b"
  by (rule bit_word_eqI) (auto simp: crc_bit_def bit_xor_iff bit_drop_bit_eq)

lemma crc_bits_xor: "(crc_bit ^^ n) (a XOR b) = (crc_bit ^^ n) a XOR (crc_bit ^^ n) b"
  by (induction n) (auto simp: crc_bit_xor)

text \<open>As long as the low bits are clear, the step only shifts.\<close>

lemma crc_bits_shift:
  "(\<And>i. i < n \<Longrightarrow> \<not> bit c i) \<Longrightarrow> (crc_bit ^^ n) c = drop_bit n c"
proof (induction n)
  case 0
  then show ?case by simp
next
  case (Suc n)
  then have "(crc_bit ^^ n) c = drop_bit n c" by simp
  moreover have "\<not> bit (drop_bit n c) 0" using Suc.prems [of n] by (simp add: bit_drop_bit_eq)
  then have "crc_bit (drop_bit n c) = drop_bit (Suc n) c"
    by (simp add: crc_bit_def)
  ultimately show ?case by simp
qed

text \<open>Up to four bytes fed in sequence act on the state as one word xored into it.\<close>

lemma crc_bytes_word:
  "length bs \<le> 4 \<Longrightarrow> foldl crc_byte c bs = (crc_bit ^^ (8 * length bs)) (c XOR le_get bs)"
proof (induction bs arbitrary: c)
  case Nil
  then show ?case by simp
next
  case (Cons b bs)
  have hi: "(crc_bit ^^ 8) (push_bit 8 (le_get bs)) = (le_get bs :: uint32)"
  proof -
    have "(crc_bit ^^ 8) (push_bit 8 (le_get bs)) = drop_bit 8 (push_bit 8 (le_get bs) :: uint32)"
      by (rule crc_bits_shift) (simp add: bit_push_bit_iff)
    also have "\<dots> = le_get bs"
    proof (rule bit_word_eqI)
      fix i assume "i < LENGTH(32)"
      moreover have "bitat bs i \<Longrightarrow> i < 24"
        using Cons.prems bitat_beyond [of bs i] by fastforce
      ultimately show "bit (drop_bit 8 (push_bit 8 (le_get bs) :: uint32)) i = bit (le_get bs :: uint32) i"
        by (auto simp: bit_drop_bit_eq bit_push_bit_iff bit_le_get)
    qed
    finally show ?thesis .
  qed
  have or_xor: "(ucast b OR push_bit 8 (le_get bs) :: uint32) = ucast b XOR push_bit 8 (le_get bs)"
    by (rule bit_word_eqI)
      (auto simp: bit_or_iff bit_xor_iff bit_ucast_iff bit_push_bit_iff dest: bit_imp_le_length)
  have "foldl crc_byte c (b # bs) = (crc_bit ^^ (8 * length bs)) (crc_byte c b XOR le_get bs)"
    using Cons by simp
  also have "crc_byte c b XOR le_get bs
      = (crc_bit ^^ 8) (c XOR ucast b) XOR (crc_bit ^^ 8) (push_bit 8 (le_get bs))"
    by (simp only: crc_byte_def hi)
  also have "\<dots> = (crc_bit ^^ 8) (c XOR le_get (b # bs))"
    by (simp only: crc_bits_xor [symmetric] le_get.simps or_xor xor.assoc)
  finally have "foldl crc_byte c (b # bs)
      = ((crc_bit ^^ (8 * length bs)) \<circ> (crc_bit ^^ 8)) (c XOR le_get (b # bs))"
    by simp
  also have "(crc_bit ^^ (8 * length bs)) \<circ> (crc_bit ^^ 8) = crc_bit ^^ (8 * length (b # bs))"
    by (simp add: funpow_add [symmetric] add.commute)
  finally show ?case .
qed

lemma crc_burst_inject:
  assumes "length as = length bs" "length bs \<le> 4"
  shows "foldl crc_byte c as = foldl crc_byte c bs \<longleftrightarrow> as = bs"
proof
  assume "foldl crc_byte c as = foldl crc_byte c bs"
  then have "(crc_bit ^^ (8 * length bs)) (c XOR le_get as) = (crc_bit ^^ (8 * length bs)) (c XOR le_get bs)"
    using assms by (simp only: crc_bytes_word)
  then have eq: "le_get as = (le_get bs :: uint32)"
    by (simp only: inj_eq [OF inj_crc_bits] xor_left_inject)
  have "as = le_put (length as) (le_get as :: uint32)"
    using assms by (intro le_put_get [symmetric]) simp
  also have "\<dots> = bs"
    using assms by (simp only: eq) (intro le_put_get, simp)
  finally show "as = bs" .
qed simp

lemma CRC32C_burst:
  assumes "length as = length bs" "length bs \<le> 4"
  shows "CRC32C (xs @ as @ ys) = CRC32C (xs @ bs @ ys) \<longleftrightarrow> as = bs"
proof -
  have "CRC32C (xs @ as @ ys) = CRC32C (xs @ bs @ ys) \<longleftrightarrow>
      foldl crc_byte (foldl crc_byte (NOT 0) xs) as = foldl crc_byte (foldl crc_byte (NOT 0) xs) bs"
    by (simp add: CRC32C_def crc_update_def foldl_crc_byte_inject)
  then show ?thesis
    using crc_burst_inject [OF assms] by simp
qed

lemma CRC32C_single_byte:
  assumes "i < length bs" "b \<noteq> bs ! i"
  shows "CRC32C (bs[i := b]) \<noteq> CRC32C bs"
proof -
  have "bs[i := b] = take i bs @ [b] @ drop (Suc i) bs"
    using assms(1) by (simp add: upd_conv_take_nth_drop)
  moreover have "bs = take i bs @ [bs ! i] @ drop (Suc i) bs"
    using assms(1) by (simp add: id_take_nth_drop)
  ultimately show ?thesis
    using CRC32C_burst [of "[b]" "[bs ! i]" "take i bs" "drop (Suc i) bs"] assms(2) by simp
qed

section \<open>Bursts of 32 bits\<close>

text \<open>
  A burst that does not start at a byte boundary reaches into a fifth byte. The state
  cannot absorb it: shifting out the first four bytes leaves a word that differs from
  every possible fifth byte, because their bits are disjoint.
\<close>

lemma crc_straddle:
  fixes x b :: uint32
  assumes eq: "(crc_bit ^^ 32) x = b" and x: "\<And>i. bit x i \<Longrightarrow> s \<le> i" and b: "\<And>i. bit b i \<Longrightarrow> i < s"
    and s: "s \<le> 8"
  shows "x = 0 \<and> b = 0"
proof -
  let ?y = "drop_bit s x" and ?w = "push_bit (32 - s) b"
  have "(crc_bit ^^ 32) x = (crc_bit ^^ (32 - s)) ((crc_bit ^^ s) x)"
    using s funpow_add [of "32 - s" s crc_bit] by simp
  also have "(crc_bit ^^ s) x = ?y" by (rule crc_bits_shift) (use x leD in blast)
  finally have y: "(crc_bit ^^ 32) x = (crc_bit ^^ (32 - s)) ?y" .
  have "(crc_bit ^^ (32 - s)) ?w = drop_bit (32 - s) ?w"
    by (rule crc_bits_shift) (simp add: bit_push_bit_iff)
  also have "\<dots> = b"
  proof (rule bit_word_eqI)
    fix i assume "i < LENGTH(32)"
    then show "bit (drop_bit (32 - s) ?w) i = bit b i"
      using b [of i] s by (auto simp: bit_drop_bit_eq bit_push_bit_iff)
  qed
  finally have "(crc_bit ^^ (32 - s)) ?y = (crc_bit ^^ (32 - s)) ?w" using y eq by simp
  then have yw: "?y = ?w" by (simp only: inj_eq [OF inj_crc_bits])
  have y0: "\<not> bit ?y i" for i
  proof
    assume i: "bit ?y i"
    then have "s + i < 32" using bit_imp_le_length [of x "s + i"] by (simp add: bit_drop_bit_eq)
    moreover have "32 - s \<le> i" using i unfolding yw by (simp add: bit_push_bit_iff)
    ultimately show False by linarith
  qed
  have "x = 0"
  proof (rule bit_word_eqI)
    fix i
    show "bit x i = bit (0 :: uint32) i"
      using x [of i] y0 [of "i - s"] by (auto simp: bit_drop_bit_eq)
  qed
  moreover from this have "b = (crc_bit ^^ 32) 0" using eq by simp
  then have "b = 0" using crc_bits_shift [of 32 0] by simp
  ultimately show ?thesis ..
qed

lemma xor_swap: "A XOR a = B XOR b \<longleftrightarrow> A XOR B = a XOR (b :: 'a::len word)"
  by (auto simp: bit_eq_iff bit_xor_iff)

lemma xor_cancel: "(c XOR a) XOR (c XOR b) = a XOR (b :: 'a::len word)"
  by (rule bit_word_eqI) (auto simp: bit_xor_iff)

lemma crc_byte_lists_xor:
  assumes "length as = 4" "length bs = 4"
  shows "foldl crc_byte c (as @ [a]) = foldl crc_byte c (bs @ [b]) \<longleftrightarrow>
    (crc_bit ^^ 32) (le_get as XOR le_get bs) = ucast a XOR ucast b"
proof -
  let ?f = "(crc_bit ^^ 32) :: uint32 \<Rightarrow> uint32"
  have "foldl crc_byte c (as @ [a]) = foldl crc_byte c (bs @ [b]) \<longleftrightarrow>
      ?f (c XOR le_get as) XOR ucast a = ?f (c XOR le_get bs) XOR ucast b"
    using assms crc_bytes_word [of as c] crc_bytes_word [of bs c]
    by (simp add: crc_byte_def inj_eq [OF inj_crc_bits])
  also have "\<dots> \<longleftrightarrow> ?f (c XOR le_get as) XOR ?f (c XOR le_get bs) = ucast a XOR ucast b"
    by (rule xor_swap)
  also have "?f (c XOR le_get as) XOR ?f (c XOR le_get bs) = ?f (le_get as XOR le_get bs)"
    by (simp only: crc_bits_xor [symmetric] xor_cancel)
  finally show ?thesis .
qed

text \<open>The bytes in which two messages differ, when they differ in few bits.\<close>

lemma nth_eq_outside:
  assumes "length as = length bs" "\<And>i. bitat as i \<noteq> bitat bs i \<Longrightarrow> p \<le> i \<and> i < p + 32"
    and "j < length as" "j < p div 8 \<or> p div 8 + 5 \<le> j"
  shows "as ! j = bs ! j"
proof (rule bit_word_eqI)
  fix i assume "i < LENGTH(8)"
  then have i: "(8 * j + i) div 8 = j" "(8 * j + i) mod 8 = i" by simp_all
  have "p = 8 * (p div 8) + p mod 8" by simp
  then have "\<not> (p \<le> 8 * j + i \<and> 8 * j + i < p + 32)"
    using assms(4) \<open>i < LENGTH(8)\<close> by (simp, linarith)
  with assms(2) have "bitat as (8 * j + i) = bitat bs (8 * j + i)" by blast
  then show "bit (as ! j) i = bit (bs ! j) i"
    using assms(1,3) i by (simp add: bitat_def)
qed

lemma crc_middle:
  fixes as bs :: bytes
  assumes len: "length as = 5" "length bs = 5" and s: "s < 8"
    and diff: "\<And>i. bitat as i \<noteq> bitat bs i \<Longrightarrow> s \<le> i \<and> i < s + 32"
    and eq: "foldl crc_byte c as = foldl crc_byte c bs"
  shows "as = bs"
proof -
  let ?a = "take 4 as" and ?b = "take 4 bs"
  have split: "as = ?a @ [as ! 4]" "bs = ?b @ [bs ! 4]"
    using len take_Suc_conv_app_nth [of 4 as] take_Suc_conv_app_nth [of 4 bs] by simp_all
  let ?x = "le_get ?a XOR le_get ?b :: uint32" and ?d = "ucast (as ! 4) XOR ucast (bs ! 4) :: uint32"
  have "(crc_bit ^^ 32) ?x = ?d"
    using crc_byte_lists_xor [of ?a ?b c "as ! 4" "bs ! 4"] len eq split by simp
  moreover have "s \<le> i" if "bit ?x i" for i
  proof -
    have "i < 32" "bitat ?a i \<noteq> bitat ?b i"
      using that by (auto simp: bit_xor_iff bit_le_get)
    then have "bitat as i \<noteq> bitat bs i" by (simp add: bitat_simps)
    from diff [OF this] show ?thesis by simp
  qed
  moreover have "i < s" if "bit ?d i" for i
  proof -
    have i: "i < 8" "bit (as ! 4) i \<noteq> bit (bs ! 4) i"
      using that by (auto simp: bit_xor_iff bit_ucast_iff dest: bit_imp_le_length)
    then have "(32 + i) div 8 = 4" "(32 + i) mod 8 = i"
      using mod_mult_self3 [of 4 8 i] by (simp_all add: div_add1_eq)
    with i len have "bitat as (32 + i) \<noteq> bitat bs (32 + i)" by (simp add: bitat_def)
    from diff [OF this] show ?thesis by simp
  qed
  ultimately have zero: "?x = 0 \<and> ?d = 0" by (intro crc_straddle [of ?x ?d s]) (use s in auto)
  then have "le_get ?a = (le_get ?b :: uint32)" by (metis xor_right_inject xor_self_eq)
  moreover have "le_put 4 (le_get ?a :: uint32) = ?a" "le_put 4 (le_get ?b :: uint32) = ?b"
    using len le_put_get [of ?a, where 'a = 32] le_put_get [of ?b, where 'a = 32] by simp_all
  ultimately have "?a = ?b" by metis
  moreover have "as ! 4 = bs ! 4"
  proof (rule bit_word_eqI)
    fix i assume "i < LENGTH(8)"
    moreover have "\<not> bit ?d i" using zero by simp
    ultimately show "bit (as ! 4) i = bit (bs ! 4) i" by (simp add: bit_xor_iff bit_ucast_iff)
  qed
  ultimately show ?thesis using split by metis
qed

lemma CRC32C_burst32:
  assumes len: "length as = length bs" and diff: "\<And>i. bitat as i \<noteq> bitat bs i \<Longrightarrow> p \<le> i \<and> i < p + 32"
    and eq: "CRC32C as = CRC32C bs"
  shows "as = bs"
proof -
  let ?k = "p div 8"
  note out = nth_eq_outside [OF len diff]
  have pre: "take ?k as = take ?k bs" and post: "drop (?k + 5) as = drop (?k + 5) bs"
    using out len by (auto intro!: nth_equalityI)
  define m n where "m = take 5 (drop ?k as)" and "n = take 5 (drop ?k bs)"
  have split: "as = take ?k as @ m @ drop (?k + 5) as" "bs = take ?k bs @ n @ drop (?k + 5) bs"
    by (simp_all add: m_def n_def append_assoc [symmetric] take_add [symmetric])
  have mn: "length m = length n" using len by (simp add: m_def n_def)
  have "CRC32C (take ?k as @ m @ drop (?k + 5) as) = CRC32C (take ?k as @ n @ drop (?k + 5) as)"
    using eq split pre post by metis
  then have crc: "foldl crc_byte (foldl crc_byte (NOT 0) (take ?k as)) m =
      foldl crc_byte (foldl crc_byte (NOT 0) (take ?k as)) n"
    by (simp add: CRC32C_def crc_update_def foldl_crc_byte_inject)
  have "m = n"
  proof (cases "length m = 5")
    case False
    then have "length n \<le> 4" using mn by (simp add: m_def)
    with crc_burst_inject [OF mn this] crc show ?thesis by blast
  next
    case True
    have "p mod 8 \<le> i \<and> i < p mod 8 + 32" if "bitat m i \<noteq> bitat n i" for i
    proof -
      have j: "i div 8 < 5" using that True mn by (auto simp: bitat_def)
      have "(8 * ?k + i) div 8 = ?k + i div 8" "(8 * ?k + i) mod 8 = i mod 8" by simp_all
      moreover have "?k + i div 8 < length as" "i div 8 < length bs - ?k" using True j len by (simp_all add: m_def)
      ultimately have "bitat as (8 * ?k + i) \<noteq> bitat bs (8 * ?k + i)"
        using that j True mn len by (simp add: bitat_def m_def n_def split: if_splits)
      from diff [OF this] have "p \<le> 8 * ?k + i" "8 * ?k + i < p + 32" by simp_all
      moreover have "p = 8 * ?k + p mod 8" by simp
      ultimately show ?thesis by linarith
    qed
    from crc_middle [OF True _ _ this crc] mn True show ?thesis by simp
  qed
  then show ?thesis using split pre post by metis
qed

end
