(* ===== verification/Intpack.thy ===== *)
theory Intpack
  imports Binary
begin

text \<open>
  Frame-of-reference groups of intpack/intpack.go: \<open>EncodeGroup\<close> packs the
  residuals of a group above its minimum with 8-byte read-modify-writes into an
  over-allocated buffer, \<open>DecodeGroup\<close> reads them back from the tail of a buffer,
  with 8-byte reads inside the payload and byte-by-byte reads near its end. Go
  \<open>int\<close>s that count bits and bytes of a slice are \<open>nat\<close> (they are bounded by the
  length of a slice); a read or write outside a slice is the \<open>IndexPanic\<close> value.
  The groups of lemmas: bounds of the writes, the bit-level meaning of the packed
  buffer, the agreement of both read paths, and the round trip.
\<close>

datatype intpack_error =
    ErrCount int
  | ErrBufShort nat
  | ErrWidth nat
  | ErrPayloadShort nat nat
  | EmptyGroup
  | IndexPanic

section \<open>Operations\<close>

text \<open>\<open>bits.Len32\<close>: the number of bits of the binary representation.\<close>

fun bit_len :: "nat \<Rightarrow> nat" where
  "bit_len n = (if n = 0 then 0 else Suc (bit_len (n div 2)))"

declare bit_len.simps [simp del]

definition Len32 :: "uint32 \<Rightarrow> nat" where
  "Len32 x = bit_len (unat x)"

text \<open>\<open>slices.Min\<close> and \<open>slices.Max\<close> of a non-empty slice.\<close>

definition slice_min :: "uint32 \<Rightarrow> uint32 list \<Rightarrow> uint32" where
  "slice_min v vs = foldl min v vs"

definition slice_max :: "uint32 \<Rightarrow> uint32 list \<Rightarrow> uint32" where
  "slice_max v vs = foldl max v vs"

definition rangeWidth :: "uint32 list \<Rightarrow> intpack_error + uint32 \<times> byte" where
  "rangeWidth values = (case values of
      [] \<Rightarrow> Inl EmptyGroup
    | v # vs \<Rightarrow>
        let minVal = slice_min v vs;
            maxVal = slice_max v vs;
            width = of_nat (Len32 (maxVal - minVal))
        in Inr (minVal, if width = 0 then 1 else width))"

fun packResiduals :: "bytes \<Rightarrow> nat \<Rightarrow> uint32 list \<Rightarrow> uint32 \<Rightarrow> byte \<Rightarrow> bytes option" where
  "packResiduals buf j [] minVal width = Some buf"
| "packResiduals buf j (v # vs) minVal width =
    (let residual = ucast (v - minVal) :: uint64;
         bitPos = j * unat width;
         bytePos = bitPos div 8;
         shift = bitPos mod 8
     in case go_Uint64 buf (int bytePos) of
          None \<Rightarrow> None
        | Some existing \<Rightarrow>
            (case go_PutUint64 buf (int bytePos) (existing OR push_bit shift residual) of
               None \<Rightarrow> None
             | Some buf \<Rightarrow> packResiduals buf (Suc j) vs minVal width))"

definition EncodeGroup :: "uint32 list \<Rightarrow> intpack_error + bytes" where
  "EncodeGroup values = (case rangeWidth values of
      Inl e \<Rightarrow> Inl e
    | Inr (minVal, width) \<Rightarrow>
        let packSize = (unat width * length values + 7) div 8;
            buf = replicate (packSize + 5 + 7) 0
        in case packResiduals buf 0 values minVal width of
             None \<Rightarrow> Inl IndexPanic
           | Some buf \<Rightarrow>
               (case go_update buf (int packSize) width of
                  None \<Rightarrow> Inl IndexPanic
                | Some buf \<Rightarrow>
                    (case go_PutUint32 buf (int (packSize + 1)) minVal of
                       None \<Rightarrow> Inl IndexPanic
                     | Some buf \<Rightarrow>
                         (case go_slice buf 0 (int (packSize + 5)) of
                            None \<Rightarrow> Inl IndexPanic
                          | Some encoded \<Rightarrow> Inr encoded))))"

text \<open>A destination slice is given by its backing array from its first element to its capacity.\<close>

definition ensureCapU32 :: "uint32 list \<Rightarrow> nat \<Rightarrow> uint32 list" where
  "ensureCapU32 s n = (if length s < n then replicate n 0 else take n s)"

function slow_read :: "bytes \<Rightarrow> nat \<Rightarrow> nat \<Rightarrow> uint64 \<Rightarrow> uint64" where
  "slow_read packed bytePos k raw =
    (if k < 8 \<and> bytePos + k < length packed
     then slow_read packed bytePos (Suc k) (raw OR push_bit (k * 8) (ucast (packed ! (bytePos + k))))
     else raw)"
  by pat_completeness auto
termination
  by (relation "measure (\<lambda>(packed, bytePos, k, raw). 8 - k)") auto

declare slow_read.simps [simp del]

text \<open>The 8-byte read panics on fewer than eight bytes; \<open>safeLimit\<close> keeps it away from them.\<close>

definition read_raw :: "bytes \<Rightarrow> nat \<Rightarrow> uint64 option" where
  "read_raw packed bytePos =
    (let safeLimit = int (length packed) - 7
     in if int bytePos < safeLimit then go_Uint64 packed (int bytePos)
        else Some (slow_read packed bytePos 0 0))"

definition unpack_at :: "bytes \<Rightarrow> nat \<Rightarrow> uint32 \<Rightarrow> nat \<Rightarrow> uint32 option" where
  "unpack_at packed w groupMin j =
    (let mask = push_bit w 1 - 1 :: uint64;
         bitPos = j * w;
         bytePos = bitPos div 8;
         shift = bitPos mod 8
     in case read_raw packed bytePos of
          None \<Rightarrow> None
        | Some raw \<Rightarrow> Some (groupMin + ucast (drop_bit shift raw AND mask)))"

fun unpack_loop :: "bytes \<Rightarrow> nat \<Rightarrow> uint32 \<Rightarrow> nat list \<Rightarrow> uint32 list \<Rightarrow> uint32 list option" where
  "unpack_loop packed w groupMin [] values = Some values"
| "unpack_loop packed w groupMin (j # js) values =
    (case unpack_at packed w groupMin j of
       None \<Rightarrow> None
     | Some v \<Rightarrow>
         (case go_update values (int j) v of
            None \<Rightarrow> None
          | Some values \<Rightarrow> unpack_loop packed w groupMin js values))"

definition unpackResiduals :: "bytes \<Rightarrow> nat \<Rightarrow> nat \<Rightarrow> uint32 \<Rightarrow> uint32 list \<Rightarrow> uint32 list option" where
  "unpackResiduals packed n w groupMin values =
    (if w = 0 then Some (map (\<lambda>_. groupMin) values)
     else unpack_loop packed w groupMin [0..<n] values)"

definition DecodeGroup :: "bytes \<Rightarrow> int \<Rightarrow> uint32 list \<Rightarrow> intpack_error + uint32 list \<times> nat" where
  "DecodeGroup buf n dst =
    (if n \<le> 0 then Inl (ErrCount n)
     else if length buf < 5 then Inl (ErrBufShort (length buf))
     else case go_index buf (int (length buf) - 5) of
       None \<Rightarrow> Inl IndexPanic
     | Some width \<Rightarrow>
         if unat width > 32 then Inl (ErrWidth (unat width))
         else case go_Uint32 buf (int (length buf) - 4) of
           None \<Rightarrow> Inl IndexPanic
         | Some groupMin \<Rightarrow>
             let packSize = (unat width * nat n + 7) div 8;
                 consumed = packSize + 5
             in if length buf < consumed then Inl (ErrPayloadShort (length buf) consumed)
                else
                  let dst = ensureCapU32 dst (nat n)
                  in case go_slice buf (int (length buf) - 5 - int packSize) (int (length buf) - 5) of
                       None \<Rightarrow> Inl IndexPanic
                     | Some packed \<Rightarrow>
                         (case unpackResiduals packed (nat n) (unat width) groupMin dst of
                            None \<Rightarrow> Inl IndexPanic
                          | Some dst \<Rightarrow> Inr (dst, consumed)))"

section \<open>Minimum, maximum and width\<close>

lemma le_slice_min: "y \<le> slice_min v vs \<longleftrightarrow> y \<le> v \<and> (\<forall>x \<in> set vs. y \<le> x)"
  unfolding slice_min_def by (induction vs arbitrary: v) (simp_all add: conj_assoc)

lemma slice_max_le: "slice_max v vs \<le> y \<longleftrightarrow> v \<le> y \<and> (\<forall>x \<in> set vs. x \<le> y)"
  unfolding slice_max_def by (induction vs arbitrary: v) (simp_all add: conj_assoc)

lemma slice_min_le: "x = v \<or> x \<in> set vs \<Longrightarrow> slice_min v vs \<le> x"
  using le_slice_min [of "slice_min v vs" v vs] by auto

lemma slice_max_ge: "x = v \<or> x \<in> set vs \<Longrightarrow> x \<le> slice_max v vs"
  using slice_max_le [of v vs "slice_max v vs"] by auto

lemma slice_min_in: "slice_min v vs \<in> set (v # vs)"
proof -
  have "foldl min v vs \<in> insert v (set vs)" for v
    by (induction vs arbitrary: v) (auto simp: min_def split: if_splits)
  then show ?thesis by (simp add: slice_min_def)
qed

lemma slice_max_in: "slice_max v vs \<in> set (v # vs)"
proof -
  have "foldl max v vs \<in> insert v (set vs)" for v
    by (induction vs arbitrary: v) (auto simp: max_def split: if_splits)
  then show ?thesis by (simp add: slice_max_def)
qed

lemma bit_len_bound: "n < 2 ^ bit_len n"
proof (induction n rule: bit_len.induct)
  case (1 n)
  show ?case
  proof (cases "n = 0")
    case False
    with 1 have "n div 2 < 2 ^ bit_len (n div 2)" by simp
    then have "n < 2 * 2 ^ bit_len (n div 2)" by linarith
    with False show ?thesis by (simp add: bit_len.simps [of n])
  qed (simp add: bit_len.simps)
qed

lemma bit_len_le: "n < 2 ^ k \<Longrightarrow> bit_len n \<le> k"
proof (induction n arbitrary: k rule: bit_len.induct)
  case (1 n)
  show ?case
  proof (cases "n = 0")
    case False
    with "1.prems" obtain k' where k: "k = Suc k'" by (cases k) auto
    with "1.prems" have "n div 2 < 2 ^ k'" by simp
    with "1.IH" False have "bit_len (n div 2) \<le> k'" by blast
    with False k show ?thesis by (simp add: bit_len.simps [of n])
  qed (simp add: bit_len.simps)
qed

lemma Len32_le: "Len32 x \<le> 32"
  unfolding Len32_def using unsigned_less [of x] by (intro bit_len_le) simp

lemma Len32_bound: "unat x < 2 ^ Len32 x"
  unfolding Len32_def by (rule bit_len_bound)

text \<open>The facts about a group that packing and unpacking use.\<close>

definition fits :: "uint32 list \<Rightarrow> uint32 \<Rightarrow> nat \<Rightarrow> bool" where
  "fits values m w \<longleftrightarrow> (\<forall>v \<in> set values. unat (v - m) < 2 ^ w)"

lemma rangeWidth_Inr:
  assumes "values \<noteq> []"
  obtains m w where "rangeWidth values = Inr (m, w)" "1 \<le> unat w" "unat w \<le> 32"
    "fits values m (unat w)" "m \<in> set values" "\<forall>v \<in> set values. m \<le> v"
    "\<And>k. fits values m k \<Longrightarrow> 1 \<le> k \<Longrightarrow> unat w \<le> k"
proof -
  obtain v vs where vs: "values = v # vs" using assms by (cases "values") auto
  define m where "m = slice_min v vs"
  define M where "M = slice_max v vs"
  define l where "l = Len32 (M - m)"
  define w :: byte where "w = (if (of_nat l :: byte) = 0 then 1 else of_nat l)"
  have l: "l \<le> 32" unfolding l_def by (rule Len32_le)
  then have ol: "unat (of_nat l :: byte) = l"
    by (simp add: unat_of_nat take_bit_nat_eq_self)
  then have w: "unat w = max 1 l"
    by (auto simp: w_def max_def unat_eq_zero [symmetric])
  have "rangeWidth values = Inr (m, w)"
    by (simp add: rangeWidth_def vs m_def M_def w_def l_def Let_def)
  moreover have "1 \<le> unat w" "unat w \<le> 32" using w l by auto
  moreover have le: "m \<le> x" "x \<le> M" if "x \<in> set values" for x
    using that slice_min_le slice_max_ge by (auto simp: vs m_def M_def)
  moreover have dist: "unat (x - m) \<le> unat (M - m)" if "x \<in> set values" for x
  proof -
    from le [OF that] have "m \<le> x" "x \<le> M" "m \<le> M" by auto
    then show ?thesis by (simp add: unat_sub word_le_nat_alt diff_le_mono)
  qed
  moreover have "fits values m (unat w)"
  proof -
    have "(2 :: nat) ^ l \<le> 2 ^ unat w" using w by (simp add: power_increasing)
    then have "unat (M - m) < 2 ^ unat w"
      using Len32_bound [of "M - m"] unfolding l_def by linarith
    then show ?thesis unfolding fits_def using dist by (meson le_less_trans)
  qed
  moreover have "m \<in> set values" using slice_min_in by (simp add: vs m_def)
  moreover have "unat w \<le> k" if "fits values m k" "1 \<le> k" for k
  proof -
    have "M \<in> set values" using slice_max_in by (simp add: vs M_def)
    then have "unat (M - m) < 2 ^ k" using that(1) by (auto simp: fits_def)
    then have "l \<le> k" unfolding l_def Len32_def by (rule bit_len_le)
    with that(2) w show ?thesis by simp
  qed
  ultimately show thesis using that by blast
qed

section \<open>The packed buffer, bit by bit\<close>

lemma bit_less_exp:
  fixes x :: "'a::len word"
  assumes "unat x < 2 ^ w" "bit x i"
  shows "i < w"
proof (rule ccontr)
  assume "\<not> i < w"
  then have "(2 :: nat) ^ w \<le> 2 ^ i" by (simp add: power_increasing)
  with assms(1) have "unat x < 2 ^ i" by linarith
  then have "unat x div 2 ^ i = 0" by simp
  then have "\<not> bit (unat x) i" by (simp add: bit_iff_odd)
  with assms(2) show False by (simp add: bit_unsigned_iff)
qed

text \<open>One read-modify-write ors the residual in at its bit position and keeps the rest.\<close>

lemma rmw_bits:
  fixes r :: uint64
  assumes len: "bp + 8 \<le> length buf" and r: "\<And>i. bit r i \<Longrightarrow> i < w"
    and w: "sh + w \<le> 64"
  shows "bitat (put_at buf bp (PutUint64 (Uint64 (drop bp buf) OR push_bit sh r))) i \<longleftrightarrow>
    bitat buf i \<or> (8 * bp + sh \<le> i \<and> bit r (i - (8 * bp + sh)))"
proof (cases "8 * bp \<le> i \<and> i < 8 * bp + 64")
  case True
  then have "bitat (put_at buf bp (PutUint64 (Uint64 (drop bp buf) OR push_bit sh r))) i \<longleftrightarrow>
      bit (Uint64 (drop bp buf) OR push_bit sh r) (i - 8 * bp)"
    using len by (simp add: bitat_put_at PutUint64_def bitat_simps) linarith
  also have "\<dots> \<longleftrightarrow> bitat buf i \<or> (8 * bp + sh \<le> i \<and> bit r (i - (8 * bp + sh)))"
  proof -
    have "bit (Uint64 (drop bp buf)) (i - 8 * bp) \<longleftrightarrow> bitat buf i"
      using True by (simp add: Uint64_def bit_le_get bitat_simps) linarith
    moreover have "bit (push_bit sh r) (i - 8 * bp) \<longleftrightarrow> 8 * bp + sh \<le> i \<and> bit r (i - (8 * bp + sh))"
      using True by (auto simp: bit_push_bit_iff diff_diff_left)
    ultimately show ?thesis by (simp add: bit_or_iff)
  qed
  finally show ?thesis .
next
  case False
  then have "\<not> (8 * bp + sh \<le> i \<and> bit r (i - (8 * bp + sh)))"
    using r [of "i - (8 * bp + sh)"] w by fastforce
  moreover have "bitat (put_at buf bp (PutUint64 (Uint64 (drop bp buf) OR push_bit sh r))) i = bitat buf i"
    using len False by (auto simp: bitat_put_at)
  ultimately show ?thesis by blast
qed

lemma bit_ucast_uint64: "bit (ucast (x :: uint32) :: uint64) i \<longleftrightarrow> bit x i"
  by (auto simp: bit_ucast_iff dest: bit_imp_le_length)

lemma packResiduals_bits:
  assumes "fits vs m (unat w)" "unat w \<le> 32" "unat w * (j + length vs) div 8 + 8 \<le> length buf"
  shows "\<exists>buf'. packResiduals buf j vs m w = Some buf' \<and> length buf' = length buf \<and>
    (\<forall>i. bitat buf' i \<longleftrightarrow> bitat buf i \<or>
      (\<exists>k < length vs. unat w * (j + k) \<le> i \<and> bit (vs ! k - m) (i - unat w * (j + k))))"
  using assms
proof (induction vs arbitrary: buf j)
  case Nil
  then show ?case by simp
next
  case (Cons v vs)
  define bp where "bp = unat w * j div 8"
  define sh where "sh = unat w * j mod 8"
  define buf1 where
    "buf1 = put_at buf bp (PutUint64 (Uint64 (drop bp buf) OR push_bit sh (ucast (v - m))))"
  have pos: "8 * bp + sh = unat w * j" by (simp add: bp_def sh_def)
  have "bp \<le> unat w * (j + length (v # vs)) div 8"
    unfolding bp_def by (intro div_le_mono mult_le_mono) simp_all
  with Cons.prems(3) have room: "bp + 8 \<le> length buf" by linarith
  have bits1: "bitat buf1 i \<longleftrightarrow> bitat buf i \<or> (unat w * j \<le> i \<and> bit (v - m) (i - unat w * j))" for i
  proof -
    have "bit (ucast (v - m) :: uint64) k \<Longrightarrow> k < unat w" for k
      using Cons.prems(1) bit_less_exp [of "v - m"] by (auto simp: fits_def bit_ucast_uint64)
    moreover have "sh + unat w \<le> 64" using Cons.prems(2) by (simp add: sh_def)
    ultimately show ?thesis
      unfolding buf1_def using rmw_bits [OF room, of "ucast (v - m)" "unat w" sh i]
      by (simp add: pos bit_ucast_uint64)
  qed
  have len1: "length buf1 = length buf" using room by (simp add: buf1_def)
  have step: "packResiduals buf j (v # vs) m w = packResiduals buf1 (Suc j) vs m w"
    using room by (simp add: Let_def buf1_def bp_def sh_def mult.commute del: of_nat_div of_nat_mult)
  have "fits vs m (unat w)" using Cons.prems(1) by (simp add: fits_def)
  moreover have "unat w * (Suc j + length vs) div 8 + 8 \<le> length buf1"
    using Cons.prems(3) len1 by simp
  ultimately obtain buf' where buf': "packResiduals buf1 (Suc j) vs m w = Some buf'"
    "length buf' = length buf1"
    "\<And>i. bitat buf' i \<longleftrightarrow> bitat buf1 i \<or>
      (\<exists>k < length vs. unat w * (Suc j + k) \<le> i \<and> bit (vs ! k - m) (i - unat w * (Suc j + k)))"
    using Cons.IH [of "Suc j" buf1] Cons.prems(2) by blast
  show ?case
    unfolding step using buf' len1 by (simp add: bits1 Ex_less_Suc2)
qed

text \<open>What a packed payload is: residual \<open>k\<close> occupies the \<open>w\<close> bits from bit \<open>w * k\<close> on.\<close>

definition packed_as :: "bytes \<Rightarrow> uint32 list \<Rightarrow> uint32 \<Rightarrow> nat \<Rightarrow> bool" where
  "packed_as p vs m w \<longleftrightarrow> length p = (w * length vs + 7) div 8 \<and> fits vs m w \<and>
    (\<forall>k < length vs. \<forall>i < w. bitat p (w * k + i) \<longleftrightarrow> bit (vs ! k - m) i)"

lemma packResiduals_packed_as:
  assumes fits: "fits vs m (unat w)" and w: "unat w \<le> 32"
    and buf: "packResiduals (replicate l 0) 0 vs m w = Some buf" "length buf = l"
    and bits: "\<forall>i. bitat buf i \<longleftrightarrow> bitat (replicate l 0) i \<or>
      (\<exists>k < length vs. unat w * k \<le> i \<and> bit (vs ! k - m) (i - unat w * k))"
    and s: "s = (unat w * length vs + 7) div 8" "s \<le> l"
  shows "packed_as (take s buf) vs m (unat w)"
proof -
  let ?w = "unat w"
  have "bitat (take s buf) (?w * k + i) \<longleftrightarrow> bit (vs ! k - m) i" if k: "k < length vs" and i: "i < ?w" for k i
  proof -
    have lim: "?w * k + i < 8 * s"
    proof -
      have "?w * Suc k \<le> ?w * length vs" using k by (intro mult_le_mono) simp_all
      with i s(1) show ?thesis by simp
    qed
    have only: "k' = k" if k': "k' < length vs" "?w * k' \<le> ?w * k + i" "bit (vs ! k' - m) (?w * k + i - ?w * k')" for k'
    proof (rule linorder_cases [of k' k])
      assume "k' < k"
      then have "?w * Suc k' \<le> ?w * k" by (intro mult_le_mono) simp_all
      moreover have "?w * k + i - ?w * k' < ?w"
        using fits k' bit_less_exp [of "vs ! k' - m"] by (auto simp: fits_def)
      ultimately show ?thesis by simp
    next
      assume "k < k'"
      then have "?w * Suc k \<le> ?w * k'" by (intro mult_le_mono) simp_all
      with k'(2) i show ?thesis by simp
    qed
    have "bitat (take s buf) (?w * k + i) \<longleftrightarrow>
        (\<exists>k' < length vs. ?w * k' \<le> ?w * k + i \<and> bit (vs ! k' - m) (?w * k + i - ?w * k'))"
      using lim bits by (simp add: bitat_simps)
    also have "\<dots> \<longleftrightarrow> bit (vs ! k - m) i"
      using only k by (metis add_diff_cancel_left' le_add1)
    finally show ?thesis .
  qed
  then show ?thesis using fits s buf(2) by (simp add: packed_as_def)
qed

section \<open>The encoded group\<close>

lemma EncodeGroup_shape:
  assumes "vs \<noteq> []"
  obtains p m w where "EncodeGroup vs = Inr (p @ [w] @ PutUint32 m)" "packed_as p vs m (unat w)"
    "1 \<le> unat w" "unat w \<le> 32" "m \<in> set vs" "\<forall>v \<in> set vs. m \<le> v"
    "\<And>k. fits vs m k \<Longrightarrow> 1 \<le> k \<Longrightarrow> unat w \<le> k"
proof -
  obtain m w where rw: "rangeWidth vs = Inr (m, w)" "1 \<le> unat w" "unat w \<le> 32"
    "fits vs m (unat w)" "m \<in> set vs" "\<forall>v \<in> set vs. m \<le> v"
    "\<And>k. fits vs m k \<Longrightarrow> 1 \<le> k \<Longrightarrow> unat w \<le> k"
    using rangeWidth_Inr [OF assms] by blast
  define s where "s = (unat w * length vs + 7) div 8"
  have "unat w * (0 + length vs) div 8 + 8 \<le> length (replicate (s + 5 + 7) (0 :: byte))"
    by (simp add: s_def)
  from packResiduals_bits [OF rw(4,3) this]
  obtain buf where buf: "packResiduals (replicate (s + 5 + 7) 0) 0 vs m w = Some buf"
    "length buf = s + 5 + 7"
    "\<forall>i. bitat buf i \<longleftrightarrow> bitat (replicate (s + 5 + 7) 0) i \<or>
      (\<exists>k < length vs. unat w * k \<le> i \<and> bit (vs ! k - m) (i - unat w * k))"
    by auto
  have packed: "packed_as (take s buf) vs m (unat w)"
    using packResiduals_packed_as [OF rw(4,3) buf(1,2,3) s_def] by simp
  have tail: "slice (put_at (buf[s := w]) (s + 1) (PutUint32 m)) 0 (s + 5) = take s buf @ [w] @ PutUint32 m"
    using buf(2) by (simp add: slice_def put_at_def upd_conv_take_nth_drop)
  have "go_update buf (int s) w = Some (buf[s := w])"
    "go_PutUint32 (buf[s := w]) (int (s + 1)) m = Some (put_at (buf[s := w]) (s + 1) (PutUint32 m))"
    using buf(2) by (simp_all only: go_access go_words length_list_update)
  moreover have "go_slice b 0 (int (s + 5)) = Some (slice b 0 (s + 5))" if "length b = length buf" for b :: bytes
    using that buf(2) go_access(2) [of 0 "s + 5" b] by simp
  ultimately have "EncodeGroup vs = Inr (take s buf @ [w] @ PutUint32 m)"
    using rw(1) buf tail unfolding EncodeGroup_def s_def [symmetric] Let_def
    by (simp add: s_def [symmetric] del: of_nat_add)
  with packed rw that show thesis by blast
qed

lemma EncodeGroup_Inr: "vs \<noteq> [] \<Longrightarrow> \<exists>g. EncodeGroup vs = Inr g"
  by (rule EncodeGroup_shape) auto

lemma EncodeGroup_Nil: "EncodeGroup [] = Inl EmptyGroup"
  by (simp add: EncodeGroup_def rangeWidth_def)

section \<open>Both read paths read the same bits\<close>

lemma bit_slow_read:
  "bit (slow_read packed bp k raw) i \<longleftrightarrow>
    bit raw i \<or> 8 * k \<le> i \<and> i < 64 \<and> bitat packed (8 * bp + i)"
proof (induction packed bp k raw rule: slow_read.induct)
  case (1 packed bp k raw)
  show ?case
  proof (cases "k < 8 \<and> bp + k < length packed")
    case True
    define b where "b = packed ! (bp + k)"
    have "bit (push_bit (k * 8) (ucast b :: uint64)) i \<longleftrightarrow>
        8 * k \<le> i \<and> i < 8 * Suc k \<and> bitat packed (8 * bp + i)"
    proof (cases "8 * k \<le> i \<and> i < 8 * Suc k")
      case in_byte: True
      then have "i div 8 = k" by auto
      then have "i mod 8 = i - k * 8" by (simp add: modulo_nat_def mult.commute)
      then show ?thesis
        using in_byte True \<open>i div 8 = k\<close>
        by (auto simp: bitat_def b_def bit_push_bit_iff bit_ucast_iff dest: bit_imp_le_length)
    qed (auto simp: bit_push_bit_iff bit_ucast_iff dest: bit_imp_le_length)
    moreover have "slow_read packed bp k raw = slow_read packed bp (Suc k) (raw OR push_bit (k * 8) (ucast b))"
      using True by (subst slow_read.simps) (simp add: b_def)
    ultimately show ?thesis
      using "1.IH" [OF True] True by (auto simp: bit_or_iff b_def)
  next
    case False
    then have "slow_read packed bp k raw = raw" by (subst slow_read.simps) auto
    moreover have "\<not> bitat packed (8 * bp + i)" if "8 * k \<le> i" "i < 64"
    proof -
      have "k < 8" using that by simp
      with False have "length packed \<le> bp + k" by simp
      with that(1) show ?thesis by (intro bitat_beyond) simp
    qed
    ultimately show ?thesis by auto
  qed
qed

lemma fast_read: "bp + 8 \<le> length packed \<Longrightarrow> go_Uint64 packed (int bp) = Some (slow_read packed bp 0 0)"
  by (simp, rule bit_word_eqI) (auto simp: bit_slow_read Uint64_def bit_le_get bitat_simps)

text \<open>Whatever the position, the read does not panic and is that of the byte-by-byte loop.\<close>

lemma read_raw_slow: "read_raw packed bp = Some (slow_read packed bp 0 0)"
  using fast_read [of bp packed] by (simp add: read_raw_def Let_def)

definition residual_at :: "bytes \<Rightarrow> nat \<Rightarrow> uint32 \<Rightarrow> nat \<Rightarrow> uint32" where
  "residual_at packed w groupMin j =
    groupMin + ucast (drop_bit (j * w mod 8) (slow_read packed (j * w div 8) 0 0) AND (push_bit w 1 - 1))"

lemma unpack_at_slow: "unpack_at packed w groupMin j = Some (residual_at packed w groupMin j)"
  by (simp add: unpack_at_def residual_at_def Let_def read_raw_slow)

lemma bit_residual_read: "bit (slow_read packed bp 0 0) i \<longleftrightarrow> i < 64 \<and> bitat packed (8 * bp + i)"
  by (simp add: bit_slow_read)

lemma residual_at_packed:
  assumes "packed_as p vs m w" "w \<le> 32" "k < length vs"
  shows "residual_at p w m k = vs ! k"
proof -
  have pos: "8 * (k * w div 8) + (k * w mod 8 + i) = w * k + i" for i
    by (simp add: mult.commute)
  let ?raw = "slow_read p (k * w div 8) 0 0"
  have "ucast (drop_bit (k * w mod 8) ?raw AND mask w) = vs ! k - m"
  proof (rule bit_word_eqI)
    fix i assume i: "i < LENGTH(32)"
    have "k * w mod 8 < 8" by simp
    with assms(2) have lim: "i < w \<Longrightarrow> k * w mod 8 + i < 64" by linarith
    have "bit (ucast (drop_bit (k * w mod 8) ?raw AND mask w) :: uint32) i \<longleftrightarrow> i < w \<and> bitat p (w * k + i)"
      using i lim by (auto simp: bit_ucast_iff bit_and_iff bit_mask_iff bit_drop_bit_eq bit_residual_read pos)
    also have "\<dots> \<longleftrightarrow> bit (vs ! k - m) i"
      using assms bit_less_exp [of "vs ! k - m" w i] by (auto simp: packed_as_def fits_def)
    finally show "bit (ucast (drop_bit (k * w mod 8) ?raw AND mask w) :: uint32) i = bit (vs ! k - m) i" .
  qed
  then show ?thesis
    by (simp add: residual_at_def mask_eq_exp_minus_1 push_bit_of_1)
qed

lemma unpack_loop_range:
  "n \<le> length xs \<Longrightarrow> unpack_loop p w m [k..<n] (map (residual_at p w m) [0..<k] @ drop k xs) =
    Some (map (residual_at p w m) [0..<max k n] @ drop (max k n) xs)"
proof (induction "n - k" arbitrary: k)
  case 0
  then show ?case by (simp add: max_def)
next
  case (Suc d)
  then have k: "k < n" "[k..<n] = k # [Suc k..<n]" by (simp_all add: upt_conv_Cons)
  then have "(map (residual_at p w m) [0..<k] @ drop k xs)[k := residual_at p w m k] =
      map (residual_at p w m) [0..<Suc k] @ drop (Suc k) xs"
    using Suc.prems by (simp add: list_update_append Cons_nth_drop_Suc [symmetric])
  with k Suc.hyps(1) [of "Suc k"] Suc.hyps(2) Suc.prems show ?case
    by (simp add: unpack_at_slow max_def del: upt_Suc)
qed

lemma length_ensureCapU32 [simp]: "length (ensureCapU32 s n) = n"
  by (simp add: ensureCapU32_def)

text \<open>
  The decoded values are determined by the payload alone, not by the destination. For
  the width 0, which the code treats apart, the formula gives the minimum as well.
\<close>

lemma unpackResiduals_map:
  assumes "length dst = n"
  shows "unpackResiduals p n w m dst = Some (map (residual_at p w m) [0..<n])"
proof (cases "w = 0")
  case True
  then have "residual_at p w m = (\<lambda>_. m)" by (simp add: residual_at_def fun_eq_iff)
  then show ?thesis using True assms by (simp add: unpackResiduals_def map_replicate_const)
next
  case False
  then show ?thesis using unpack_loop_range [of n dst p w m 0] assms by (simp add: unpackResiduals_def)
qed

section \<open>Round trip\<close>

text \<open>Once its checks are passed, DecodeGroup reads inside its buffer.\<close>

lemma DecodeGroup_checked:
  assumes "0 < n" "5 \<le> length buf" "unat (buf ! (length buf - 5)) \<le> 32"
    and "consumed = (unat (buf ! (length buf - 5)) * nat n + 7) div 8 + 5" "consumed \<le> length buf"
  shows "DecodeGroup buf n dst = Inr (map (residual_at (slice buf (length buf - consumed) (length buf - 5))
    (unat (buf ! (length buf - 5))) (Uint32 (drop (length buf - 4) buf))) [0..<nat n], consumed)"
proof -
  let ?w = "unat (buf ! (length buf - 5))"
  have idx: "go_index buf (int (length buf) - 5) = Some (buf ! (length buf - 5))"
    "go_Uint32 buf (int (length buf) - 4) = Some (Uint32 (drop (length buf - 4) buf))"
    using assms(2) go_from_end(1) [of 5 buf] go_from_end(2) [of 4 buf] by simp_all
  have start: "int (length buf) - 5 - int ((?w * nat n + 7) div 8) = int (length buf - consumed)"
    using assms(4,5) by linarith
  have "length buf - consumed \<le> length buf - 5" using assms(4) by simp
  then have "go_slice buf (int (length buf - consumed)) (int (length buf) - int 5)
      = Some (slice buf (length buf - consumed) (length buf - 5))"
    using assms(2) by (rule go_from_end(3))
  then have sl: "go_slice buf (int (length buf) - 5 - int ((?w * nat n + 7) div 8)) (int (length buf) - 5)
      = Some (slice buf (length buf - consumed) (length buf - 5))"
    unfolding start by simp
  show ?thesis
    using assms unfolding DecodeGroup_def Let_def
    by (simp only: idx sl option.case unpackResiduals_map length_ensureCapU32 if_False)
      (simp add: not_less not_le)
qed

text \<open>Whatever the buffer, DecodeGroup does not panic.\<close>

lemma DecodeGroup_cases:
  obtains (error) e where "DecodeGroup buf n dst = Inl e" "e \<noteq> IndexPanic"
  | (decoded) "0 < n" "5 \<le> length buf" "unat (buf ! (length buf - 5)) \<le> 32"
    "(unat (buf ! (length buf - 5)) * nat n + 7) div 8 + 5 \<le> length buf"
proof -
  have idx: "go_index buf (int (length buf) - 5) = Some (buf ! (length buf - 5))"
    "go_Uint32 buf (int (length buf) - 4) = Some (Uint32 (drop (length buf - 4) buf))" if "5 \<le> length buf"
    using that go_from_end(1) [of 5 buf] go_from_end(2) [of 4 buf] by simp_all
  let ?w = "unat (buf ! (length buf - 5))"
  consider "n \<le> 0" | "0 < n" "length buf < 5" | "0 < n" "5 \<le> length buf" "32 < ?w"
    | "0 < n" "5 \<le> length buf" "?w \<le> 32" "length buf < (?w * nat n + 7) div 8 + 5"
    | "0 < n" "5 \<le> length buf" "?w \<le> 32" "(?w * nat n + 7) div 8 + 5 \<le> length buf"
    by linarith
  then show thesis
  proof cases
    case 1 then show thesis by (intro error [of "ErrCount n"]) (simp_all add: DecodeGroup_def)
  next
    case 2 then show thesis by (intro error [of "ErrBufShort (length buf)"]) (simp_all add: DecodeGroup_def)
  next
    case 3 then show thesis by (intro error [of "ErrWidth ?w"]) (simp_all add: DecodeGroup_def idx)
  next
    case 4 then show thesis
      by (intro error [of "ErrPayloadShort (length buf) ((?w * nat n + 7) div 8 + 5)"])
        (simp_all add: DecodeGroup_def idx Let_def)
  next
    case 5 then show thesis by (intro decoded)
  qed
qed

lemma DecodeGroup_no_panic: "DecodeGroup buf n dst \<noteq> Inl IndexPanic"
  by (cases rule: DecodeGroup_cases [of buf n dst]) (simp_all add: DecodeGroup_checked)

lemma DecodeGroup_EncodeGroup:
  assumes "EncodeGroup vs = Inr g"
  shows "DecodeGroup (pre @ g) (int (length vs)) dst = Inr (vs, length g)"
proof -
  have "vs \<noteq> []" using assms EncodeGroup_Nil by auto
  then obtain p m w where g: "g = p @ [w] @ PutUint32 m" and p: "packed_as p vs m (unat w)"
    and w: "1 \<le> unat w" "unat w \<le> 32"
    using EncodeGroup_shape [of vs] assms by (metis Inr_inject)
  have len: "length p = (unat w * length vs + 7) div 8" using p by (simp add: packed_as_def)
  have width: "(pre @ g) ! (length (pre @ g) - 5) = w"
    by (simp add: g nth_append)
  have packed: "slice (pre @ g) (length (pre @ g) - length g) (length (pre @ g) - 5) = p"
    by (simp add: g slice_def)
  have minimum: "Uint32 (drop (length (pre @ g) - 4) (pre @ g)) = m"
    by (simp add: g)
  have "map (residual_at p (unat w) m) [0..<length vs] = vs"
    using residual_at_packed [OF p w(2)] by (auto intro: nth_equalityI)
  then show ?thesis
    using DecodeGroup_checked [of "int (length vs)" "pre @ g" "length g" dst] w \<open>vs \<noteq> []\<close> len
    unfolding width packed minimum by (simp add: g)
qed

text \<open>What a successful decode says about its result and the bytes it used.\<close>

lemma DecodeGroup_InrD:
  assumes "DecodeGroup buf n dst = Inr (vs, c)"
  shows "0 < n" "length vs = nat n" "c \<le> length buf"
    "c = (unat (buf ! (length buf - 5)) * nat n + 7) div 8 + 5"
    "unat (buf ! (length buf - 5)) \<le> 32"
  using assms by (cases rule: DecodeGroup_cases [of buf n dst]; auto simp: DecodeGroup_checked)+

lemma length_EncodeGroup:
  assumes "EncodeGroup vs = Inr g"
  shows "length g = (unat (g ! (length g - 5)) * length vs + 7) div 8 + 5" "6 \<le> length g"
    "length g \<le> 4 * length vs + 5" "unat (g ! (length g - 5)) \<le> 32"
proof -
  have "vs \<noteq> []" using assms EncodeGroup_Nil by auto
  then obtain p m w where g: "g = p @ [w] @ PutUint32 m" and p: "packed_as p vs m (unat w)"
    and w: "1 \<le> unat w" "unat w \<le> 32"
    using EncodeGroup_shape [of vs] assms by (metis Inr_inject)
  define x where "x = unat w * length vs"
  have width: "g ! (length g - 5) = w" by (simp add: g)
  have len: "length g = (x + 7) div 8 + 5"
    using p by (simp add: g packed_as_def x_def)
  have "1 * 1 \<le> x"
    unfolding x_def using w \<open>vs \<noteq> []\<close> by (intro mult_le_mono) (simp_all add: Suc_leI)
  moreover have "x \<le> 32 * length vs"
    unfolding x_def using w by (intro mult_le_mono) simp_all
  ultimately have "6 \<le> (x + 7) div 8 + 5" "(x + 7) div 8 + 5 \<le> 4 * length vs + 5"
    by linarith+
  then show "length g = (unat (g ! (length g - 5)) * length vs + 7) div 8 + 5"
    "6 \<le> length g" "length g \<le> 4 * length vs + 5" "unat (g ! (length g - 5)) \<le> 32"
    unfolding width unfolding len by (simp_all add: x_def w)
qed

end
