(* ===== verification/Packfile.thy ===== *)
theory Packfile
  imports Crc32c Intpack
begin

text \<open>
  packfile/packfile.go: the constants of the format, \<open>RecordFormat\<close>, the parsed
  \<open>Trailer\<close> and the errors of the package. An error that wraps \<open>ErrCorrupt\<close> in the
  code satisfies \<open>is_corrupt\<close>; a Go panic is the value \<open>Panic\<close>.
\<close>

definition magic :: uint32 where "magic = 0x534C4348"
definition version :: byte where "version = 1"
definition groupSize :: nat where "groupSize = 128"
definition trailerSize :: nat where "trailerSize = 64"

datatype RecordFormat = Compressed | Uncompressed | Raw | OtherFormat int

text \<open>The decimal digits of a number, for \<open>%d\<close>.\<close>

fun decimal :: "nat \<Rightarrow> string" where
  "decimal n = (if n < 10 then [char_of (48 + n)] else decimal (n div 10) @ [char_of (48 + n mod 10)])"

declare decimal.simps [simp del]

definition decimal_int :: "int \<Rightarrow> string" where
  "decimal_int i = (if i < 0 then ''-'' @ decimal (nat (- i)) else decimal (nat i))"

fun RecordFormat_String :: "RecordFormat \<Rightarrow> string" where
  "RecordFormat_String Compressed = ''Compressed''"
| "RecordFormat_String Uncompressed = ''Uncompressed''"
| "RecordFormat_String Raw = ''Raw''"
| "RecordFormat_String (OtherFormat f) = ''RecordFormat('' @ decimal_int f @ '')''"

definition flagNoCompression :: byte where "flagNoCompression = 1"
definition flagContentHash :: byte where "flagContentHash = 2"
definition flagNoCRC :: byte where "flagNoCRC = 4"

definition knownFlags :: byte where
  "knownFlags = flagNoCompression OR flagContentHash OR flagNoCRC"

record Trailer =
  Version :: byte
  RecordCount :: uint32
  TotalItems :: uint32
  ItemsPerRecord :: uint32
  IndexSize :: uint32
  AppDataSize :: uint32
  ContentHash :: bytes
  IndexForGroupSize :: uint16
  Format :: RecordFormat
  HasContentHash :: bool
  Checksum :: uint32

datatype pf_error =
    ErrCorrupt string
  | ErrMagic
  | ErrVersion
  | ErrChecksum
  | ErrSize
  | ErrIndexGroup nat intpack_error
  | ErrPositionOutOfRange
  | ErrContentHashMismatch
  | ErrIntpack intpack_error
  | ErrZstd string
  | ErrIO string
  | ErrPlain string
  | Panic string

text \<open>\<open>errors.Is(err, ErrCorrupt)\<close>.\<close>

fun is_corrupt :: "pf_error \<Rightarrow> bool" where
  "is_corrupt (ErrCorrupt _) = True"
| "is_corrupt ErrMagic = True"
| "is_corrupt ErrVersion = True"
| "is_corrupt ErrChecksum = True"
| "is_corrupt ErrSize = True"
| "is_corrupt (ErrIndexGroup _ _) = True"
| "is_corrupt _ = False"

fun is_panic :: "pf_error \<Rightarrow> bool" where
  "is_panic (Panic _) = True"
| "is_panic _ = False"

text \<open>A panic inside \<open>DecodeGroup\<close> is a panic of its caller, not an error it wraps.\<close>

fun intpack_to_pf :: "(intpack_error \<Rightarrow> pf_error) \<Rightarrow> intpack_error \<Rightarrow> pf_error" where
  "intpack_to_pf wrap IndexPanic = Panic ''index out of range''"
| "intpack_to_pf wrap e = wrap e"

lemma intpack_to_pf_wrap: "e \<noteq> IndexPanic \<Longrightarrow> intpack_to_pf wrap e = wrap e"
  by (cases e) auto

definition MaxUint32 :: int where "MaxUint32 = 2 ^ 32 - 1"

end
