(* ===== verification/Index.thy ===== *)
theory Index
  imports Packfile
begin

text \<open>
  packfile/index.go: the offset index of a packfile. \<open>encodeIndex\<close> stores the sizes
  of the records in frame-of-reference groups of 128, followed by a CRC32C;
  \<open>decodeIndex\<close> reads the groups from the last to the first and rebuilds the
  offsets by a prefix sum in wrapping 64-bit arithmetic. Both loops take the
  group codec as an argument; the interface it has to satisfy is the locale
  \<open>tail_codec\<close>, which \<open>EncodeGroup\<close> and \<open>DecodeGroup\<close> of intpack provide.
\<close>

type_synonym group_enc = "uint32 list \<Rightarrow> intpack_error + bytes"
type_synonym group_dec = "bytes \<Rightarrow> int \<Rightarrow> uint32 list \<Rightarrow> intpack_error + uint32 list \<times> nat"

section \<open>Encoding\<close>

fun encode_deltas :: "int list \<Rightarrow> nat list \<Rightarrow> pf_error + uint32 list" where
  "encode_deltas offsets [] = Inr []"
| "encode_deltas offsets (j # js) =
    (let d = int64 (offsets ! (j + 1) - offsets ! j)
     in if d > MaxUint32 then Inl (ErrPlain ''record size delta exceeds 4GB'')
        else case encode_deltas offsets js of
            Inl e \<Rightarrow> Inl e
          | Inr ds \<Rightarrow> Inr (word_of_int d # ds))"

function encode_groups :: "group_enc \<Rightarrow> int list \<Rightarrow> nat \<Rightarrow> nat \<Rightarrow> pf_error + bytes" where
  "encode_groups enc offsets recordCount g =
    (if g * groupSize < recordCount
     then
       let base = g * groupSize;
           end' = min (base + groupSize) recordCount
       in case encode_deltas offsets [base..<end'] of
            Inl e \<Rightarrow> Inl e
          | Inr deltas \<Rightarrow>
              (case enc deltas of
                 Inl e \<Rightarrow> Inl (Panic ''EncodeGroup'')
               | Inr grp \<Rightarrow>
                   (case encode_groups enc offsets recordCount (Suc g) of
                      Inl e \<Rightarrow> Inl e
                    | Inr rest \<Rightarrow> Inr (grp @ rest)))
     else Inr [])"
  by pat_completeness auto
termination
  by (relation "measure (\<lambda>(enc, offsets, n, g). n - g)") (auto simp: groupSize_def)

declare encode_groups.simps [simp del]

definition encodeIndex :: "int list \<Rightarrow> pf_error + bytes" where
  "encodeIndex offsets =
    (let recordCount = length offsets - 1
     in if int recordCount > MaxUint32 then Inl (ErrPlain ''record count exceeds uint32 max'')
        else case encode_groups EncodeGroup offsets recordCount 0 of
            Inl e \<Rightarrow> Inl e
          | Inr buf \<Rightarrow> Inr (buf @ PutUint32 (CRC32C buf)))"

section \<open>Decoding\<close>

definition group_count :: "nat \<Rightarrow> nat" where
  "group_count recordCount = (recordCount + groupSize - 1) div groupSize"

definition group_limit :: "nat \<Rightarrow> nat \<Rightarrow> nat" where
  "group_limit recordCount g =
    (if g = group_count recordCount - 1 \<and> recordCount mod groupSize \<noteq> 0
     then recordCount mod groupSize else groupSize)"

fun decode_groups ::
  "group_dec \<Rightarrow> bytes \<Rightarrow> nat \<Rightarrow> nat \<Rightarrow> nat \<Rightarrow> uint32 list \<Rightarrow> pf_error + uint32 list \<times> nat" where
  "decode_groups dec buf recordCount 0 pos deltas = Inr (deltas, pos)"
| "decode_groups dec buf recordCount (Suc g) pos deltas =
    (let base = g * groupSize;
         limit = group_limit recordCount g
     in case dec (take pos buf) (int limit) (drop base deltas) of
          Inl e \<Rightarrow> Inl (intpack_to_pf (ErrIndexGroup g) e)
        | Inr (vals, consumed) \<Rightarrow>
            decode_groups dec buf recordCount g (pos - consumed) (put_at deltas base vals))"

fun prefix_sums :: "int \<Rightarrow> uint32 list \<Rightarrow> int list \<times> int" where
  "prefix_sums offset [] = ([], offset)"
| "prefix_sums offset (d # ds) =
    (case prefix_sums (int64 (offset + uint d)) ds of (os, e) \<Rightarrow> (offset # os, e))"

definition decodeIndex :: "bytes \<Rightarrow> nat \<Rightarrow> nat \<Rightarrow> int \<Rightarrow> pf_error + int list" where
  "decodeIndex buf recordCount indexSize indexBase =
    (if indexSize < 4 then Inl (ErrCorrupt ''index too small'')
     else
       let maxGroups = (indexSize - 4) div 6;
           maxRecords = maxGroups * groupSize
       in if recordCount > maxRecords then Inl (ErrCorrupt ''recordCount implausible for indexSize'')
          else if length buf < indexSize then Inl (Panic ''slice bounds out of range'')
          else
            let payloadLen = indexSize - 4;
                storedCRC = Uint32 (drop payloadLen buf)
            in if storedCRC \<noteq> CRC32C (take payloadLen buf) then Inl ErrChecksum
               else
                 case decode_groups DecodeGroup buf recordCount (group_count recordCount) payloadLen
                        (replicate recordCount 0) of
                   Inl e \<Rightarrow> Inl e
                 | Inr (deltas, pos) \<Rightarrow>
                     if pos \<noteq> 0 then Inl (ErrCorrupt ''index has unconsumed bytes'')
                     else case prefix_sums 0 deltas of
                       (os, offset) \<Rightarrow>
                         if offset \<noteq> indexBase then Inl (ErrCorrupt ''final offset != indexBase'')
                         else Inr (os @ [indexBase]))"

section \<open>The interface of a group codec\<close>

text \<open>
  What the index needs of a group codec: every non-empty group encodes, the
  decoder finds the group at the end of any buffer and reports its length, and
  a decoder that succeeds returns as many values as asked for and consumes no
  more than the buffer holds.
\<close>

locale tail_codec =
  fixes enc :: group_enc
    and dec :: group_dec
  assumes enc_total: "vs \<noteq> [] \<Longrightarrow> \<exists>g. enc vs = Inr g"
    and enc_size: "enc vs = Inr g \<Longrightarrow> 6 \<le> length g"
    and dec_enc: "enc vs = Inr g \<Longrightarrow> dec (pre @ g) (int (length vs)) dst = Inr (vs, length g)"
    and dec_count: "dec buf n dst = Inr (vs, c) \<Longrightarrow> 0 < n \<and> length vs = nat n"
    and dec_consumed: "dec buf n dst = Inr (vs, c) \<Longrightarrow> c \<le> length buf"

text \<open>Group \<open>g\<close> of the values \<open>D\<close>, and the number of values it has.\<close>

definition group_of :: "uint32 list \<Rightarrow> nat \<Rightarrow> uint32 list" where
  "group_of D g = slice D (g * groupSize) (min (g * groupSize + groupSize) (length D))"

lemma group_count_less: "g < group_count n \<longleftrightarrow> g * groupSize < n"
proof -
  have "Suc g \<le> (n + 127) div 128 \<longleftrightarrow> Suc g * 128 \<le> n + 127"
    by (rule less_eq_div_iff_mult_less_eq) simp
  then show ?thesis by (auto simp: group_count_def groupSize_def Suc_le_eq)
qed

lemma length_group_of: "length (group_of D g) = min groupSize (length D - g * groupSize)"
  by (simp add: group_of_def slice_def)

lemma group_limit_length:
  assumes "g < group_count n"
  shows "group_limit n g = min groupSize (n - g * groupSize)"
proof -
  have last: "g = group_count n - 1 \<longleftrightarrow> n \<le> Suc g * groupSize"
    using assms group_count_less [of "Suc g" n] by linarith
  have less: "g * groupSize < n" using assms by (simp add: group_count_less)
  show ?thesis
  proof (cases "n < Suc g * groupSize")
    case True
    with less have "n div groupSize = g" by (intro div_nat_eqI) (simp_all add: mult.commute)
    then have "n mod groupSize = n - g * groupSize" by (simp add: modulo_nat_def)
    with True last less show ?thesis by (simp add: group_limit_def)
  next
    case False
    have "n mod groupSize = 0" if "g = group_count n - 1"
    proof -
      from that last False have "n = Suc g * groupSize" by simp
      then show ?thesis by (metis mod_mult_self2_is_0)
    qed
    with False show ?thesis by (auto simp: group_limit_def)
  qed
qed

lemma group_of_nonempty: "g < group_count (length D) \<Longrightarrow> group_of D g \<noteq> []"
  using length_group_of [of D g] by (auto simp: group_count_less groupSize_def)

lemma put_group_of:
  assumes "length deltas = length D" "g * groupSize < length D"
  shows "take (g * groupSize) D @ drop (g * groupSize) (put_at deltas (g * groupSize) (group_of D g))
    = take (min (Suc g * groupSize) (length D)) D @ drop (min (Suc g * groupSize) (length D)) deltas"
proof -
  let ?b = "g * groupSize" let ?e = "min (Suc g * groupSize) (length D)"
  have e: "?b + length (group_of D g) = ?e"
    using assms(2) by (auto simp: length_group_of min_def)
  have g: "group_of D g = slice D ?b ?e"
    by (simp add: group_of_def add.commute)
  have "drop ?b (put_at deltas ?b (group_of D g)) = group_of D g @ drop ?e deltas"
    using assms e by (simp add: put_at_def)
  moreover have "take ?b D @ group_of D g = take ?e D"
    unfolding g slice_def using assms(2)
    by (metis add_diff_inverse_nat e le_add1 not_less take_add)
  ultimately show ?thesis by (metis append_assoc)
qed

context tail_codec
begin

text \<open>The encoder's loop produces the concatenation of the encoded groups.\<close>

lemma encode_groups_concat:
  assumes "\<And>js. set js \<subseteq> {..<length D} \<Longrightarrow> encode_deltas offs js = Inr (map (\<lambda>j. D ! j) js)"
  shows "\<exists>es. encode_groups enc offs (length D) g = Inr (concat es) \<and>
    length es = group_count (length D) - g \<and>
    (\<forall>k < length es. enc (group_of D (g + k)) = Inr (es ! k))"
proof (induction "group_count (length D) - g" arbitrary: g)
  case 0
  then have "\<not> g * groupSize < length D" by (simp add: group_count_less [symmetric])
  then show ?case by (intro exI [of _ "[]"]) (simp add: encode_groups.simps 0 [symmetric])
next
  case (Suc x)
  then have less: "g < group_count (length D)" by simp
  then have base: "g * groupSize < length D" by (simp add: group_count_less)
  let ?js = "[g * groupSize..<min (g * groupSize + groupSize) (length D)]"
  have "encode_deltas offs ?js = Inr (map (\<lambda>j. D ! j) ?js)"
    by (rule assms) auto
  also have "map (\<lambda>j. D ! j) ?js = group_of D g"
    unfolding group_of_def slice_def
    by (rule nth_equalityI) (simp_all add: less_diff_conv nth_upt add.commute)
  finally have deltas: "encode_deltas offs ?js = Inr (group_of D g)" .
  obtain e where e: "enc (group_of D g) = Inr e"
    using enc_total group_of_nonempty [OF less] by blast
  from Suc.hyps(2) have "x = group_count (length D) - Suc g" by simp
  from Suc.hyps(1) [OF this] obtain es where es:
    "encode_groups enc offs (length D) (Suc g) = Inr (concat es)"
    "length es = group_count (length D) - Suc g"
    "\<And>k. k < length es \<Longrightarrow> enc (group_of D (Suc g + k)) = Inr (es ! k)"
    by blast
  have "encode_groups enc offs (length D) g = Inr (concat (e # es))"
    using base deltas e es(1) by (subst encode_groups.simps) (simp add: Let_def)
  moreover have "enc (group_of D (g + k)) = Inr ((e # es) ! k)" if "k < length (e # es)" for k
    using that e es(3) by (cases k) auto
  moreover have "length (e # es) = group_count (length D) - g"
    using es(2) less by simp
  ultimately show ?case by blast
qed

text \<open>The decoder's loop runs backwards over the same groups and writes each where it belongs.\<close>

lemma decode_groups_concat:
  assumes "length es = group_count (length D)"
    and "\<And>k. k < length es \<Longrightarrow> enc (group_of D k) = Inr (es ! k)"
    and "take (length (concat es)) buf = concat es"
    and "g \<le> length es" "length deltas = length D"
  shows "decode_groups dec buf (length D) g (length (concat (take g es))) deltas
    = Inr (take (min (g * groupSize) (length D)) D @ drop (min (g * groupSize) (length D)) deltas, 0)"
  using assms(4,5)
proof (induction g arbitrary: deltas)
  case 0
  then show ?case by simp
next
  case (Suc g)
  then have less: "g < length es" by simp
  then have less': "g < group_count (length D)" using assms(1) by simp
  then have base: "g * groupSize < length D" by (simp add: group_count_less)
  have split: "concat es = concat (take g es) @ es ! g @ concat (drop (Suc g) es)"
    by (metis append_assoc concat.simps(2) concat_append id_take_nth_drop less)
  have pos: "concat (take (Suc g) es) = concat (take g es) @ es ! g"
    using less by (simp add: take_Suc_conv_app_nth)
  have window: "take (length (concat (take (Suc g) es))) buf = concat (take g es) @ es ! g"
  proof -
    have "take (length (concat (take (Suc g) es))) buf
        = take (length (concat (take (Suc g) es))) (take (length (concat es)) buf)"
      by (simp add: split pos)
    then show ?thesis by (simp only: assms(3)) (simp add: split pos)
  qed
  have limit: "group_limit (length D) g = length (group_of D g)"
    using group_limit_length [OF less'] by (simp add: length_group_of)
  have put: "length (put_at deltas (g * groupSize) (group_of D g)) = length D"
    using base Suc.prems(2) by (subst length_put_at) (auto simp: length_group_of)
  have "decode_groups dec buf (length D) (Suc g) (length (concat (take (Suc g) es))) deltas
      = decode_groups dec buf (length D) g (length (concat (take g es)))
          (put_at deltas (g * groupSize) (group_of D g))"
    using dec_enc [OF assms(2) [OF less]] by (simp add: window limit Let_def) (simp add: pos)
  also have "\<dots> = Inr (take (g * groupSize) D @
      drop (g * groupSize) (put_at deltas (g * groupSize) (group_of D g)), 0)"
    using Suc.IH [OF _ put] less base by simp
  finally show ?case
    using put_group_of [OF Suc.prems(2) base] by simp
qed

lemma length_concat_groups:
  assumes "\<And>k. k < length es \<Longrightarrow> enc (group_of D k) = Inr (es ! k)"
  shows "6 * length es \<le> length (concat es)"
  using assms
proof (induction es rule: rev_induct)
  case (snoc e es)
  then have "enc (group_of D k) = Inr (es ! k)" if "k < length es" for k
    using that by (metis length_append_singleton less_Suc_eq nth_append)
  with snoc.IH have "6 * length es \<le> length (concat es)" by blast
  moreover have "6 \<le> length e"
    using snoc.prems [of "length es"] enc_size by (auto simp: nth_append)
  ultimately show ?case by simp
qed simp

text \<open>A successful run of the decoder's loop keeps the number of values.\<close>

lemma decode_groups_length:
  "decode_groups dec buf n g pos deltas = Inr (deltas', pos') \<Longrightarrow> g \<le> group_count n \<Longrightarrow>
    length deltas = n \<Longrightarrow> length deltas' = n"
proof (induction g arbitrary: pos deltas)
  case (Suc g)
  then have less: "g < group_count n" by simp
  from Suc.prems(1) obtain vals c where step:
    "dec (take pos buf) (int (group_limit n g)) (drop (g * groupSize) deltas) = Inr (vals, c)"
    "decode_groups dec buf n g (pos - c) (put_at deltas (g * groupSize) vals) = Inr (deltas', pos')"
    by (auto simp: Let_def split: sum.splits)
  have "length vals = min groupSize (n - g * groupSize)"
    using dec_count [OF step(1)] group_limit_length [OF less] by simp
  then have "length (put_at deltas (g * groupSize) vals) = n"
    using less Suc.prems(3) by (subst length_put_at) (auto simp: group_count_less)
  with Suc.IH [OF step(2)] Suc.prems(2) show ?case by simp
qed simp

end

section \<open>intpack provides the interface\<close>

interpretation intpack: tail_codec EncodeGroup DecodeGroup
proof unfold_locales
  fix vs :: "uint32 list"
  assume "vs \<noteq> []"
  then show "\<exists>g. EncodeGroup vs = Inr g" by (rule EncodeGroup_Inr)
qed (auto intro: DecodeGroup_EncodeGroup dest: DecodeGroup_InrD length_EncodeGroup(2))

section \<open>Offsets and their deltas\<close>

text \<open>
  The offset tables the writer builds: they start at 0, never decrease, and no
  record is longer than a \<open>uint32\<close> can say.
\<close>

definition offset_table :: "int list \<Rightarrow> bool" where
  "offset_table offs \<longleftrightarrow> offs \<noteq> [] \<and> hd offs = 0 \<and> last offs < 2 ^ 63 \<and>
    length offs - 1 < 2 ^ 32 \<and>
    (\<forall>j < length offs - 1. offs ! j \<le> offs ! Suc j \<and> offs ! Suc j - offs ! j < 2 ^ 32)"

definition deltas_of :: "int list \<Rightarrow> uint32 list" where
  "deltas_of offs = map (\<lambda>j. word_of_int (offs ! Suc j - offs ! j)) [0..<length offs - 1]"

lemma length_deltas_of [simp]: "length (deltas_of offs) = length offs - 1"
  by (simp add: deltas_of_def)

lemma uint_deltas_of:
  "offset_table offs \<Longrightarrow> j < length offs - 1 \<Longrightarrow> uint (deltas_of offs ! j) = offs ! Suc j - offs ! j"
  by (simp add: deltas_of_def offset_table_def uint_word_of_int take_bit_int_eq_self
      del: of_int_diff)

lemma encode_deltas_of:
  assumes "offset_table offs" "set js \<subseteq> {..<length offs - 1}"
  shows "encode_deltas offs js = Inr (map (\<lambda>j. deltas_of offs ! j) js)"
  using assms(2)
proof (induction js)
  case (Cons j js)
  define d where "d = offs ! Suc j - offs ! j"
  from Cons.prems assms(1) have d: "0 \<le> d" "d < 2 ^ 32"
    by (auto simp: offset_table_def d_def)
  then have "int64 d = d" by (intro int64_id) auto
  moreover have "deltas_of offs ! j = word_of_int d"
    using Cons.prems by (simp add: deltas_of_def d_def)
  ultimately show ?case
    using Cons d by (simp add: Let_def MaxUint32_def flip: d_def)
qed simp

text \<open>The prefix sums, with every wrapped addition accounted for.\<close>

abbreviation sum_uint :: "uint32 list \<Rightarrow> int" where
  "sum_uint ds \<equiv> sum_list (map uint ds)"

lemma prefix_sums_int64:
  "prefix_sums (int64 a) ds =
    (map (\<lambda>i. int64 (a + sum_uint (take i ds))) [0..<length ds], int64 (a + sum_uint ds))"
proof (induction ds arbitrary: a)
  case (Cons d ds)
  have "map (\<lambda>i. int64 (a + sum_uint (take i (d # ds)))) [0..<length (d # ds)]
      = int64 a # map (\<lambda>i. int64 (a + uint d + sum_uint (take i ds))) [0..<length ds]"
    by (simp add: upt_conv_Cons map_Suc_upt [symmetric] add.assoc del: upt_Suc)
  then show ?case
    using Cons.IH [of "a + uint d"] by (simp add: int64_add_left add.assoc del: upt_Suc)
qed simp

lemma prefix_sums_0:
  "prefix_sums 0 ds =
    (map (\<lambda>i. int64 (sum_uint (take i ds))) [0..<length ds], int64 (sum_uint ds))"
  using prefix_sums_int64 [of 0 ds] by (simp add: int64_id)

lemma sum_uint_nonneg: "0 \<le> sum_uint ds"
  by (rule sum_list_nonneg) auto

lemma sum_uint_take_le: "sum_uint (take i ds) \<le> sum_uint ds"
proof -
  have "sum_uint ds = sum_uint (take i ds) + sum_uint (drop i ds)"
    by (metis append_take_drop_id map_append sum_list_append)
  then show ?thesis using sum_uint_nonneg [of "drop i ds"] by linarith
qed

lemma sum_uint_bound: "sum_uint ds \<le> int (length ds) * (2 ^ 32 - 1)"
proof (induction ds)
  case (Cons d ds)
  have "uint d \<le> 2 ^ 32 - 1" using unsigned_less [of d, where ?'a = int] by simp
  with Cons.IH show ?case by (simp add: algebra_simps)
qed simp

lemma sum_uint_deltas_of:
  assumes "offset_table offs" "i \<le> length offs - 1"
  shows "sum_uint (take i (deltas_of offs)) = offs ! i"
  using assms(2)
proof (induction i)
  case 0
  then show ?case using assms(1) by (auto simp: offset_table_def hd_conv_nth)
next
  case (Suc i)
  then show ?case
    using uint_deltas_of [OF assms(1), of i] by (simp add: take_Suc_conv_app_nth)
qed

section \<open>The index round trip\<close>

lemma encodeIndex_groups:
  assumes "offset_table offs"
  obtains es where "encodeIndex offs = Inr (concat es @ PutUint32 (CRC32C (concat es)))"
    "length es = group_count (length offs - 1)"
    "\<And>k. k < length es \<Longrightarrow> EncodeGroup (group_of (deltas_of offs) k) = Inr (es ! k)"
proof -
  have "int (length offs - 1) \<le> MaxUint32"
    using assms by (auto simp: offset_table_def MaxUint32_def)
  moreover obtain es where "encode_groups EncodeGroup offs (length (deltas_of offs)) 0 = Inr (concat es)"
    "length es = group_count (length (deltas_of offs)) - 0"
    "\<forall>k < length es. EncodeGroup (group_of (deltas_of offs) (0 + k)) = Inr (es ! k)"
    using intpack.encode_groups_concat [of "deltas_of offs" offs 0] encode_deltas_of [OF assms] by auto
  ultimately show thesis
    using that [of es] by (simp add: encodeIndex_def Let_def)
qed

lemma decodeIndex_encodeIndex:
  assumes "offset_table offs" "encodeIndex offs = Inr buf"
  shows "decodeIndex (buf @ rest) (length offs - 1) (length buf) (last offs) = Inr offs"
proof -
  let ?D = "deltas_of offs" let ?n = "length offs - 1"
  obtain es where buf: "buf = concat es @ PutUint32 (CRC32C (concat es))"
    and es: "length es = group_count (length ?D)"
      "\<And>k. k < length es \<Longrightarrow> EncodeGroup (group_of ?D k) = Inr (es ! k)"
    using encodeIndex_groups [OF assms(1)] assms(2) by (metis Inr_inject length_deltas_of)
  have "6 * length es \<le> length (concat es)"
    using intpack.length_concat_groups es(2) by blast
  then have "length es \<le> length (concat es) div 6" by linarith
  moreover have "?n \<le> length es * groupSize"
    using es(1) by (simp add: group_count_def groupSize_def)
  ultimately have plausible: "?n \<le> length (concat es) div 6 * groupSize"
    by (metis le_trans mult_le_mono1)
  have window: "take (length (concat es)) (buf @ rest) = concat es" by (simp add: buf)
  have decoded: "decode_groups DecodeGroup (buf @ rest) ?n (length es) (length (concat es)) (replicate ?n 0)
      = Inr (?D, 0)"
    using intpack.decode_groups_concat [OF es window, of "length es" "replicate ?n 0"]
      \<open>?n \<le> length es * groupSize\<close> by (simp add: min_absorb2)
  have sums: "sum_uint (take i ?D) = offs ! i" if "i \<le> ?n" for i
    using sum_uint_deltas_of assms(1) that by blast
  have ne: "offs \<noteq> []" using assms(1) by (simp add: offset_table_def)
  have bound: "0 \<le> offs ! i \<and> offs ! i < 2 ^ 63" if "i \<le> ?n" for i
  proof -
    have "offs ! i \<le> sum_uint ?D" using sums [OF that] sum_uint_take_le by metis
    moreover have "sum_uint ?D = last offs" using sums [of ?n] ne by (simp add: last_conv_nth)
    moreover have "0 \<le> offs ! i" using sums [OF that] sum_uint_nonneg by metis
    ultimately show ?thesis using assms(1) by (simp add: offset_table_def)
  qed
  have "prefix_sums 0 ?D = (butlast offs, last offs)"
  proof -
    have "map (\<lambda>i. int64 (sum_uint (take i ?D))) [0..<?n] = butlast offs"
      by (rule nth_equalityI) (use sums bound in \<open>auto simp: int64_nonneg nth_butlast\<close>)
    moreover have "int64 (sum_uint ?D) = last offs"
      using sums [of ?n] bound [of ?n] ne by (simp add: last_conv_nth int64_nonneg)
    ultimately show ?thesis by (simp add: prefix_sums_0)
  qed
  then show ?thesis
    using plausible decoded window ne es(1)
    by (simp add: decodeIndex_def Let_def buf)
qed

section \<open>What an accepted index guarantees\<close>

text \<open>
  The additions of the prefix sum wrap at 64 bits, and the count and the sizes
  come from a file: still, a table that passes the final comparison with the
  (non-negative) start of the index never wrapped on the way.
\<close>

lemma decodeIndex_table:
  assumes "decodeIndex buf n sz base = Inr offs" "n < 2 ^ 32" "0 \<le> base"
  shows "offset_table offs" "length offs = n + 1" "last offs = base"
    "n \<le> (sz - 4) div 6 * groupSize"
proof -
  from assms(1) obtain ds where ds:
    "decode_groups DecodeGroup buf n (group_count n) (sz - 4) (replicate n 0) = Inr (ds, 0)"
    "offs = fst (prefix_sums 0 ds) @ [base]" "snd (prefix_sums 0 ds) = base"
    "n \<le> (sz - 4) div 6 * groupSize"
    by (auto simp: decodeIndex_def Let_def split: if_splits sum.splits prod.splits)
  then have len: "length ds = n" using intpack.decode_groups_length by fastforce
  have base: "int64 (sum_uint ds) = base" using ds(3) by (simp add: prefix_sums_0)
  have total: "sum_uint ds < 2 ^ 63"
  proof -
    have "sum_uint ds \<le> int n * (2 ^ 32 - 1)" using sum_uint_bound [of ds] len by simp
    also have "\<dots> \<le> (2 ^ 32 - 1) * (2 ^ 32 - 1)" using assms(2) by (intro mult_right_mono) auto
    finally have "sum_uint ds < 2 ^ 64" by simp
    moreover have "int64 (sum_uint ds) = sum_uint ds - 2 ^ 64" if "2 ^ 63 \<le> sum_uint ds"
      using that \<open>sum_uint ds < 2 ^ 64\<close> by (simp add: int64_def mod_pos_geq)
    ultimately show ?thesis using base assms(3) by fastforce
  qed
  have nth: "offs ! i = sum_uint (take i ds)" if "i \<le> n" for i
  proof -
    have "- (2 ^ 63) \<le> sum_uint (take i ds)" "sum_uint (take i ds) < 2 ^ 63"
      using sum_uint_nonneg [of "take i ds"] sum_uint_take_le [of i ds] total by linarith+
    then have wrap: "int64 (sum_uint (take i ds)) = sum_uint (take i ds)" by (rule int64_id)
    show ?thesis
    proof (cases "i = n")
      case True
      with wrap len base show ?thesis by (simp add: ds(2) prefix_sums_0 nth_append)
    next
      case False
      with that wrap len show ?thesis by (simp add: ds(2) prefix_sums_0 nth_append)
    qed
  qed
  have last: "last offs = base" and length: "length offs = n + 1"
    using len by (simp_all add: ds(2) prefix_sums_0)
  have diff: "offs ! Suc j = offs ! j + uint (ds ! j)" if "j < n" for j
    using that len by (simp add: nth take_Suc_conv_app_nth)
  have "base < 2 ^ 63" using base int64_range by metis
  moreover have "uint (ds ! j) < 2 ^ 32" for j
    using unsigned_less [of "ds ! j", where ?'a = int] by simp
  moreover have "hd offs = 0" using nth [of 0] length by (cases offs) auto
  ultimately show "offset_table offs"
    using length last diff assms(2) by (auto simp: offset_table_def)
  show "length offs = n + 1" "last offs = base" "n \<le> (sz - 4) div 6 * groupSize"
    by (fact length last ds(4))+
qed

lemma offset_table_mono:
  assumes "offset_table offs" "i \<le> j" "j < length offs"
  shows "offs ! i \<le> offs ! j"
proof -
  have "offs ! i = sum_uint (take i (deltas_of offs))" "offs ! j = sum_uint (take j (deltas_of offs))"
    using sum_uint_deltas_of [OF assms(1)] assms(2,3) by auto
  moreover have "take i (deltas_of offs) = take i (take j (deltas_of offs))"
    using assms(2) by (simp add: min_absorb1)
  ultimately show ?thesis using sum_uint_take_le by metis
qed

lemma offset_table_nonneg: "offset_table offs \<Longrightarrow> i < length offs \<Longrightarrow> 0 \<le> offs ! i"
  using offset_table_mono [of offs 0 i] by (auto simp: offset_table_def hd_conv_nth)

lemma offset_table_le_last: "offset_table offs \<Longrightarrow> i < length offs \<Longrightarrow> offs ! i \<le> last offs"
  using offset_table_mono [of offs i "length offs - 1"]
  by (auto simp: offset_table_def last_conv_nth)

text \<open>An index that encodes has only deltas that fit 32 bits.\<close>

lemma encode_deltas_Inr:
  "encode_deltas offs js = Inr ds \<Longrightarrow> j \<in> set js \<Longrightarrow> int64 (offs ! (j + 1) - offs ! j) \<le> MaxUint32"
  by (induction js arbitrary: ds) (fastforce simp: Let_def split: if_splits sum.splits)+

lemma encode_groups_Inr:
  "encode_groups enc offs n g = Inr buf \<Longrightarrow> g * groupSize \<le> j \<Longrightarrow> j < n \<Longrightarrow>
    int64 (offs ! (j + 1) - offs ! j) \<le> MaxUint32"
proof (induction enc offs n g arbitrary: buf rule: encode_groups.induct)
  case (1 enc offs n g)
  have lt: "g * groupSize < n" using "1.prems" by simp
  then obtain deltas grp rest where
    ds: "encode_deltas offs [g * groupSize..<min (g * groupSize + groupSize) n] = Inr deltas"
    "enc deltas = Inr grp" "encode_groups enc offs n (Suc g) = Inr rest"
    using "1.prems"(1) by (subst (asm) encode_groups.simps) (auto simp: Let_def split: sum.splits)
  show ?case
  proof (cases "j < g * groupSize + groupSize")
    case True
    then show ?thesis using encode_deltas_Inr [OF ds(1), of j] "1.prems"(2,3) by simp
  next
    case False
    then show ?thesis using "1.IH" [OF lt _ _ ds(1,2,3)] "1.prems"(3) by simp
  qed
qed

lemma encodeIndex_Inr_table:
  assumes "encodeIndex offs = Inr buf" "offs \<noteq> []" "hd offs = 0" "last offs < 2 ^ 63"
    and mono: "\<And>j. j < length offs - 1 \<Longrightarrow> offs ! j \<le> offs ! Suc j"
    and nonneg: "\<And>j. j < length offs \<Longrightarrow> 0 \<le> offs ! j \<and> offs ! j \<le> last offs"
  shows "offset_table offs"
proof -
  have n: "length offs - 1 < 2 ^ 32" "encode_groups EncodeGroup offs (length offs - 1) 0 \<noteq> Inl e" for e
    using assms(1) by (auto simp: encodeIndex_def MaxUint32_def Let_def split: if_splits sum.splits)
  then obtain b where b: "encode_groups EncodeGroup offs (length offs - 1) 0 = Inr b"
    by (cases "encode_groups EncodeGroup offs (length offs - 1) 0") auto
  have "offs ! Suc j - offs ! j < 2 ^ 32" if j: "j < length offs - 1" for j
  proof -
    have lt: "j < length offs" "Suc j < length offs" using j by simp_all
    have "int64 (offs ! Suc j - offs ! j) \<le> MaxUint32"
      using encode_groups_Inr [OF b, of j] j by simp
    moreover have "int64 (offs ! Suc j - offs ! j) = offs ! Suc j - offs ! j"
      using mono [OF j] nonneg [of j] nonneg [of "Suc j"] lt assms(4) by (intro int64_nonneg) auto
    ultimately show ?thesis by (simp add: MaxUint32_def)
  qed
  then show ?thesis using assms(2-4) mono n(1) by (simp add: offset_table_def)
qed

end
