(* ===== verification/Zstd.thy ===== *)
theory Zstd
  imports Prelude
begin

text \<open>
  zstd/zstd.go: the Go wrapper around the C library libzstd. The library itself is
  not part of the repository: its entry points are the fields of the record
  \<open>libzstd\<close>, an argument of every operation here, and \<open>zstd_contract\<close> states the
  documented behaviour the code relies on. A Go slice returned by the wrapper is
  its contents; the scratch buffers behind it only save allocations, which fail when
  they are too large.
\<close>

definition ZSTD_CONTENTSIZE_UNKNOWN :: uint64 where "ZSTD_CONTENTSIZE_UNKNOWN = 0xFFFFFFFFFFFFFFFF"
definition ZSTD_CONTENTSIZE_ERROR :: uint64 where "ZSTD_CONTENTSIZE_ERROR = 0xFFFFFFFFFFFFFFFE"

datatype zstd_param = CompressionLevel | ChecksumFlag

text \<open>The C entry points: a failing call returns the name of its error.\<close>

record libzstd =
  createCCtx :: bool
  createDCtx :: bool
  setParameter :: "zstd_param \<Rightarrow> int \<Rightarrow> string option"
  compressBound :: "nat \<Rightarrow> nat"
  compress2 :: "int \<Rightarrow> bool \<Rightarrow> bytes \<Rightarrow> nat \<Rightarrow> string + bytes"
  getFrameContentSize :: "bytes \<Rightarrow> uint64"
  decompressDCtx :: "bytes \<Rightarrow> nat \<Rightarrow> string + bytes"

datatype zstd_error = ZErr string | ZPanic string

text \<open>Go's \<open>make\<close> panics on a slice of more bytes than the address space has.\<close>

abbreviation maxAlloc :: nat where "maxAlloc \<equiv> 2 ^ 48"

abbreviation makeslice :: zstd_error where "makeslice \<equiv> ZPanic ''makeslice: len out of range''"

definition zstdLevel :: int where "zstdLevel = 3"

section \<open>Compressor\<close>

record Compressor =
  cctx :: bool
  clevel :: int
  cchecksum :: bool

datatype CompressorOption = WithoutChecksum

definition compressor_config :: "CompressorOption list \<Rightarrow> bool" where
  "compressor_config opts = fold (\<lambda>opt checksum. case opt of WithoutChecksum \<Rightarrow> False) opts True"

definition NewCompressor :: "libzstd \<Rightarrow> CompressorOption list \<Rightarrow> zstd_error + Compressor" where
  "NewCompressor z opts =
    (let checksum = compressor_config opts
     in if \<not> createCCtx z then Inl (ZPanic ''ZSTD_createCCtx returned NULL'')
        else case setParameter z CompressionLevel zstdLevel of
            Some e \<Rightarrow> Inl (ZPanic ''set compression level'')
          | None \<Rightarrow>
              (let flag = (if checksum then 1 else 0)
               in case setParameter z ChecksumFlag flag of
                    Some e \<Rightarrow> Inl (ZPanic ''set checksum flag'')
                  | None \<Rightarrow> Inr \<lparr>cctx = True, clevel = zstdLevel, cchecksum = checksum\<rparr>))"

definition Compressor_Encode :: "libzstd \<Rightarrow> Compressor \<Rightarrow> bytes \<Rightarrow> zstd_error + bytes" where
  "Compressor_Encode z c data =
    (if data = [] then Inr []
     else if \<not> cctx c then Inl (ZErr ''Encode called on closed Compressor'')
     else
       let bound = compressBound z (length data)
       in if bound > maxAlloc then Inl makeslice
          else if bound = 0 then Inl (ZPanic ''index out of range'')
          else case compress2 z (clevel c) (cchecksum c) data bound of
              Inl e \<Rightarrow> Inl (ZErr e)
            | Inr out \<Rightarrow> Inr out)"

definition Compressor_Close :: "Compressor \<Rightarrow> Compressor" where
  "Compressor_Close c = (if cctx c then c\<lparr>cctx := False\<rparr> else c)"

text \<open>The one-shot \<open>Encode\<close>.\<close>

definition Encode :: "libzstd \<Rightarrow> bytes \<Rightarrow> zstd_error + bytes" where
  "Encode z data =
    (if data = [] then Inr []
     else case NewCompressor z [] of
         Inl e \<Rightarrow> Inl e
       | Inr c \<Rightarrow> Compressor_Encode z c data)"

section \<open>Decompressor\<close>

record Decompressor =
  dctx :: bool

definition NewDecompressor :: "libzstd \<Rightarrow> zstd_error + Decompressor" where
  "NewDecompressor z =
    (if createDCtx z then Inr \<lparr>dctx = True\<rparr> else Inl (ZPanic ''ZSTD_createDCtx returned NULL''))"

definition MaxInt :: nat where "MaxInt = 2 ^ 63 - 1"

definition Decompressor_Decode :: "libzstd \<Rightarrow> Decompressor \<Rightarrow> bytes \<Rightarrow> zstd_error + bytes" where
  "Decompressor_Decode z d src =
    (if src = [] then Inr []
     else if \<not> dctx d then Inl (ZErr ''Decode called on closed Decompressor'')
     else
       let fcs = getFrameContentSize z src;
           run = (\<lambda>size. if size > maxAlloc then Inl makeslice
             else case decompressDCtx z src size of Inl e \<Rightarrow> Inl (ZErr e) | Inr out \<Rightarrow> Inr out)
       in if fcs = ZSTD_CONTENTSIZE_ERROR then Inl (ZErr ''zstd frame header invalid'')
          else if fcs = ZSTD_CONTENTSIZE_UNKNOWN then run (length src * 4)
          else if unat fcs > MaxInt then Inl (ZErr ''exceeds addressable memory'')
          else if unat fcs = 0 then Inr []
          else run (unat fcs))"

definition Decompressor_Close :: "Decompressor \<Rightarrow> Decompressor" where
  "Decompressor_Close d = (if dctx d then d\<lparr>dctx := False\<rparr> else d)"

definition Decode_once :: "libzstd \<Rightarrow> bytes \<Rightarrow> zstd_error + bytes" where
  "Decode_once z src =
    (case NewDecompressor z of Inl e \<Rightarrow> Inl e | Inr d \<Rightarrow> Decompressor_Decode z d src)"

section \<open>The documented behaviour of the library\<close>

text \<open>
  \<open>ZSTD_compressBound\<close> is at most the value zstd.h documents (the input, a 256th of it and
  64 bytes); \<open>ZSTD_compress2\<close> succeeds when the destination has that many bytes,
  writes a non-empty frame that carries the content size, and
  \<open>ZSTD_decompressDCtx\<close> restores the content given a destination of that size.
\<close>

definition zstd_contract :: "libzstd \<Rightarrow> bool" where
  "zstd_contract z \<longleftrightarrow> createCCtx z \<and> createDCtx z \<and>
    (\<forall>p v. setParameter z p v = None) \<and>
    (\<forall>n. compressBound z n \<le> n + n div 256 + 64) \<and>
    (\<forall>level checksum data. data \<noteq> [] \<longrightarrow> length data < 2 ^ 46 \<longrightarrow>
      0 < compressBound z (length data) \<and>
      (\<exists>frame. compress2 z level checksum data (compressBound z (length data)) = Inr frame \<and>
        frame \<noteq> [] \<and> getFrameContentSize z frame = of_nat (length data) \<and>
        decompressDCtx z frame (length data) = Inr data))"

text \<open>A library that satisfies it: frames that store the size and the content.\<close>

definition store_zstd :: libzstd where
  "store_zstd = \<lparr>createCCtx = True, createDCtx = True, setParameter = (\<lambda>p v. None),
    compressBound = (\<lambda>n. n + 9),
    compress2 = (\<lambda>level checksum data cap. Inr (0x28 # map (\<lambda>i. ucast (drop_bit (8 * i) (of_nat (length data) :: uint64))) [0..<8] @ data)),
    getFrameContentSize = (\<lambda>f. of_nat (length f - 9)),
    decompressDCtx = (\<lambda>f cap. Inr (drop 9 f))\<rparr>"

lemma store_zstd_contract: "zstd_contract store_zstd"
  by (simp add: zstd_contract_def store_zstd_def)

section \<open>Round trip\<close>

lemma NewCompressor_ok:
  "zstd_contract z \<Longrightarrow> \<exists>c. NewCompressor z opts = Inr c \<and> cctx c"
  by (simp add: NewCompressor_def zstd_contract_def Let_def)

lemma NewDecompressor_ok: "zstd_contract z \<Longrightarrow> NewDecompressor z = Inr \<lparr>dctx = True\<rparr>"
  by (simp add: NewDecompressor_def zstd_contract_def)

lemma zstd_round_trip:
  assumes z: "zstd_contract z" and c: "cctx c" and d: "dctx d" and len: "length data < 2 ^ 46"
  shows "\<exists>frame. Compressor_Encode z c data = Inr frame \<and> (frame = [] \<longleftrightarrow> data = []) \<and>
    Decompressor_Decode z d frame = Inr data"
proof (cases "data = []")
  case True
  then show ?thesis by (simp add: Compressor_Encode_def Decompressor_Decode_def)
next
  case False
  obtain frame where frame: "0 < compressBound z (length data)"
    "compress2 z (clevel c) (cchecksum c) data (compressBound z (length data)) = Inr frame"
    "frame \<noteq> []" "getFrameContentSize z frame = of_nat (length data)"
    "decompressDCtx z frame (length data) = Inr data"
    using z False len unfolding zstd_contract_def by blast
  have size: "unat (of_nat (length data) :: uint64) = length data"
    using len by (simp add: unat_of_nat take_bit_nat_eq_self)
  then have "of_nat (length data) \<noteq> ZSTD_CONTENTSIZE_ERROR"
    "of_nat (length data) \<noteq> ZSTD_CONTENTSIZE_UNKNOWN"
    using len by (auto simp: ZSTD_CONTENTSIZE_ERROR_def ZSTD_CONTENTSIZE_UNKNOWN_def)
  then have "Decompressor_Decode z d frame = Inr data"
    using frame d False size len by (simp add: Decompressor_Decode_def Let_def MaxInt_def)
  moreover have "compressBound z (length data) \<le> length data + length data div 256 + 64"
    using z unfolding zstd_contract_def by blast
  then have "compressBound z (length data) \<le> maxAlloc"
    using len div_le_dividend [of "length data" 256] by simp
  then have "Compressor_Encode z c data = Inr frame"
    using frame c False by (simp add: Compressor_Encode_def Let_def)
  ultimately show ?thesis using frame(3) False by blast
qed

text \<open>
  Decode panics when a frame header claims a content that cannot be allocated, up to the
  limit of an int that the code checks, and in no other case.
\<close>

lemma oversized_frame_panics:
  assumes "dctx d" "src \<noteq> []" "maxAlloc < unat (getFrameContentSize z src)" "unat (getFrameContentSize z src) \<le> MaxInt"
  shows "Decompressor_Decode z d src = Inl makeslice"
proof -
  have "getFrameContentSize z src \<noteq> ZSTD_CONTENTSIZE_ERROR" "getFrameContentSize z src \<noteq> ZSTD_CONTENTSIZE_UNKNOWN"
    using assms(4) by (auto simp: MaxInt_def ZSTD_CONTENTSIZE_ERROR_def ZSTD_CONTENTSIZE_UNKNOWN_def)
  then show ?thesis using assms by (simp add: Decompressor_Decode_def Let_def)
qed

lemma Decompressor_Decode_panic: "Decompressor_Decode z d src = Inl (ZPanic m) \<Longrightarrow> ZPanic m = makeslice"
  by (auto simp: Decompressor_Decode_def Let_def split: sum.splits if_splits)

end
