(* ===== verification/Decoder.thy ===== *)
theory Decoder
  imports Packfile Zstd
begin

text \<open>
  packfile/decoder.go: the decoder of one record. Its state is the record
  \<open>decoder\<close>, which survives between calls and is reset when it returns to the
  pool; \<open>Decode\<close> returns an optional error and the new state, \<open>Item\<close> reads the
  decoded items. The integer fields are \<open>nat\<close> because the reader fills them from
  \<open>uint32\<close> fields of the trailer. Buffers are their contents: their capacity only
  decides whether Go reallocates, and no result depends on it
  (\<open>unpackResiduals_map\<close>).
\<close>

record decoder =
  dformat :: RecordFormat
  dtotalItems :: nat
  ditemsPerRecord :: nat
  scratch :: bytes
  decompressed :: bytes
  sizes :: "uint32 list"
  item_offsets :: "nat list"
  decompressor :: "Decompressor option"

section \<open>Operations\<close>

fun zstd_to_pf :: "zstd_error \<Rightarrow> pf_error" where
  "zstd_to_pf (ZErr e) = ErrZstd e"
| "zstd_to_pf (ZPanic e) = Panic e"

definition newDecoder :: "libzstd \<Rightarrow> pf_error + decoder" where
  "newDecoder z =
    (case NewDecompressor z of
       Inl e \<Rightarrow> Inl (zstd_to_pf e)
     | Inr d \<Rightarrow> Inr \<lparr>dformat = Compressed, dtotalItems = 0, ditemsPerRecord = 0, scratch = [],
         decompressed = [], sizes = [], item_offsets = [], decompressor = Some d\<rparr>)"

definition putDecoder :: "decoder \<Rightarrow> decoder" where
  "putDecoder rd = rd\<lparr>dformat := Compressed, dtotalItems := 0, ditemsPerRecord := 0, scratch := [],
     decompressed := [], sizes := [], item_offsets := []\<rparr>"

definition decoder_Close :: "decoder \<Rightarrow> decoder" where
  "decoder_Close rd = (if decompressor rd \<noteq> None then rd\<lparr>decompressor := None\<rparr> else rd)"

definition itemsInRecord :: "nat \<Rightarrow> nat \<Rightarrow> nat \<Rightarrow> pf_error + nat" where
  "itemsInRecord totalItems itemsPerRecord recordIdx =
    (if totalItems = 0 then Inr 0
     else if itemsPerRecord = 0 then Inl (Panic ''itemsInRecord itemsPerRecord must be > 0'')
     else
       let recordCount = (totalItems + itemsPerRecord - 1) div itemsPerRecord
       in if recordIdx \<ge> recordCount then Inl (Panic ''itemsInRecord recordIdx out of range'')
          else
            let last = recordCount - 1
            in if recordIdx < last then Inr itemsPerRecord
               else
                 let rem = totalItems mod itemsPerRecord
                 in if rem = 0 then Inr itemsPerRecord else Inr rem)"

text \<open>The tail of a multi-item record: the item size group and its CRC32C.\<close>

definition index_panic :: pf_error where "index_panic = Panic ''index out of range''"
definition slice_panic :: pf_error where "slice_panic = Panic ''slice bounds out of range''"

definition strip_item_index :: "nat \<Rightarrow> bytes \<Rightarrow> pf_error + bytes \<times> bytes" where
  "strip_item_index n data =
    (let forFooterSize = 5; crcSize = 4; metaSize = forFooterSize + crcSize; len = int (length data)
     in if length data < metaSize then Inl (ErrPlain ''record too short for FOR index'')
        else case go_index data (len - int metaSize) of
          None \<Rightarrow> Inl index_panic
        | Some width \<Rightarrow>
            if unat width > 32 then Inl (ErrCorrupt ''invalid FOR width'')
            else
              let packSize = (unat width * n + 7) div 8;
                  forStart = len - int metaSize - int packSize
              in if forStart < 0 then Inl (ErrCorrupt ''FOR index size exceeds record size'')
                 else case go_slice data forStart (len - int crcSize) of
                   None \<Rightarrow> Inl slice_panic
                 | Some forIndexBytes \<Rightarrow>
                     (case go_Uint32 data (len - int crcSize) of
                        None \<Rightarrow> Inl slice_panic
                      | Some storedCRC \<Rightarrow>
                          if storedCRC \<noteq> CRC32C forIndexBytes then Inl ErrChecksum
                          else (case go_slice data 0 forStart of
                                  None \<Rightarrow> Inl slice_panic
                                | Some body \<Rightarrow> Inr (body, forIndexBytes))))"

definition decode_payload :: "libzstd \<Rightarrow> decoder \<Rightarrow> bytes \<Rightarrow> pf_error + bytes" where
  "decode_payload z rd data =
    (case dformat rd of
       Compressed \<Rightarrow>
         (case decompressor rd of
            None \<Rightarrow> if data = [] then Inr [] else Inl (Panic ''nil pointer dereference'')
          | Some d \<Rightarrow>
              (case Decompressor_Decode z d data of
                 Inl e \<Rightarrow> Inl (zstd_to_pf e)
               | Inr decoded \<Rightarrow> Inr decoded))
     | Raw \<Rightarrow> Inr data
     | _ \<Rightarrow>
         if length data < 5 then Inl (ErrPlain ''too short for CRC32C'')
         else
           let payloadEnd = int (length data) - 4
           in case go_Uint32 data payloadEnd of
                None \<Rightarrow> Inl slice_panic
              | Some stored \<Rightarrow>
                  (case go_slice data 0 payloadEnd of
                     None \<Rightarrow> Inl slice_panic
                   | Some payload \<Rightarrow>
                       if stored \<noteq> CRC32C payload then Inl ErrChecksum else Inr payload))"

fun size_sums :: "nat \<Rightarrow> uint32 list \<Rightarrow> nat list" where
  "size_sums offset [] = [offset]"
| "size_sums offset (s # ss) = offset # size_sums (offset + unat s) ss"

text \<open>The offsets slice has \<open>n + 1\<close> entries; writing past it panics.\<close>

definition build_offsets :: "nat \<Rightarrow> decoder \<Rightarrow> pf_error option \<times> decoder" where
  "build_offsets n rd =
    (if length (sizes rd) > n then (Some (Panic ''index out of range''), rd)
     else (None, rd\<lparr>item_offsets := size_sums 0 (sizes rd)\<rparr>))"

definition Decode :: "libzstd \<Rightarrow> decoder \<Rightarrow> bytes \<Rightarrow> nat \<Rightarrow> pf_error option \<times> decoder" where
  "Decode z rd data recordIdx =
    (case itemsInRecord (dtotalItems rd) (ditemsPerRecord rd) recordIdx of
       Inl e \<Rightarrow> (Some e, rd)
     | Inr n \<Rightarrow>
         (case (if ditemsPerRecord rd > 1 then strip_item_index n data else Inr (data, [])) of
            Inl e \<Rightarrow> (Some e, rd)
          | Inr (body, forIndexBytes) \<Rightarrow>
              (case decode_payload z rd body of
                 Inl e \<Rightarrow> (Some e, rd)
               | Inr payload \<Rightarrow>
                   let rd = rd\<lparr>decompressed := payload\<rparr>
                   in if ditemsPerRecord rd > 1
                      then case DecodeGroup forIndexBytes (int n) (sizes rd) of
                             Inl e \<Rightarrow> (Some (intpack_to_pf ErrIntpack e), rd)
                           | Inr (szs, _) \<Rightarrow>
                               let rd = rd\<lparr>sizes := szs\<rparr>;
                                   sum = sum_list (map unat szs)
                               in if sum \<noteq> length (decompressed rd)
                                  then (Some (ErrCorrupt ''item size sum != payload len''), rd)
                                  else build_offsets n rd
                      else build_offsets n (rd\<lparr>sizes := [of_nat (length payload)]\<rparr>))))"

definition Item :: "decoder \<Rightarrow> int \<Rightarrow> pf_error + bytes" where
  "Item rd i =
    (if i < 0 \<or> i \<ge> int (length (sizes rd)) then Inl (Panic ''Item out of range'')
     else case go_index (item_offsets rd) i of
       None \<Rightarrow> Inl index_panic
     | Some start \<Rightarrow>
         (case go_index (item_offsets rd) (i + 1) of
            None \<Rightarrow> Inl index_panic
          | Some end' \<Rightarrow>
              (case go_slice (decompressed rd) (int start) (int end') of
                 None \<Rightarrow> Inl slice_panic
               | Some item \<Rightarrow> Inr item)))"

definition ItemCopy :: "decoder \<Rightarrow> int \<Rightarrow> pf_error + bytes" where
  "ItemCopy rd i = (case Item rd i of Inl e \<Rightarrow> Inl e | Inr e \<Rightarrow> Inr (take (length e) e))"

section \<open>Inside the bounds\<close>

text \<open>Where the guards hold, the accesses of a record's tail do not panic.\<close>

lemma strip_item_index_eq:
  assumes "9 \<le> length data" and "w = unat (data ! (length data - 9))" "w \<le> 32"
    and "start + (w * n + 7) div 8 + 9 = length data"
  shows "strip_item_index n data =
    (if Uint32 (drop (length data - 4) data) \<noteq> CRC32C (slice data start (length data - 4)) then Inl ErrChecksum
     else Inr (take start data, slice data start (length data - 4)))"
proof -
  have "int (length data) - 9 - int ((w * n + 7) div 8) = int start" using assms(4) by linarith
  moreover have "go_slice data (int start) (int (length data) - int 4) = Some (slice data start (length data - 4))"
    using assms(1,4) by (intro go_from_end(3)) auto
  moreover have "go_index data (int (length data) - int 9) = Some (data ! (length data - 9))"
    "go_Uint32 data (int (length data) - int 4) = Some (Uint32 (drop (length data - 4) data))"
    using assms(1) by (simp_all only: go_from_end)
  moreover have "go_slice data 0 (int start) = Some (take start data)"
    using assms(4) go_access(2) [of 0 start data] by (simp add: slice_def)
  ultimately show ?thesis
    using assms(1-3) by (simp add: strip_item_index_def Let_def)
qed

lemma strip_item_index_cases:
  obtains (error) e where "strip_item_index n data = Inl e" "\<not> is_panic e"
  | (stripped) start where "9 \<le> length data" "unat (data ! (length data - 9)) \<le> 32"
    "start + (unat (data ! (length data - 9)) * n + 7) div 8 + 9 = length data"
proof (cases "length data < 9")
  case True
  then show thesis by (intro error) (auto simp: strip_item_index_def)
next
  case False
  let ?w = "unat (data ! (length data - 9))"
  have idx: "go_index data (int (length data) - 9) = Some (data ! (length data - 9))"
    using False go_from_end(1) [of 9 data] by simp
  consider "32 < ?w" | "?w \<le> 32" "length data < (?w * n + 7) div 8 + 9" | "?w \<le> 32" "(?w * n + 7) div 8 + 9 \<le> length data"
    by linarith
  then show thesis
  proof cases
    case 1
    then show thesis using False by (intro error) (auto simp: strip_item_index_def idx)
  next
    case 2
    then have "int (length data) - 9 - int ((?w * n + 7) div 8) < 0" by linarith
    then show thesis using 2(1) False by (intro error) (auto simp: strip_item_index_def idx Let_def)
  next
    case 3
    then show thesis using False by (intro stripped [of "length data - 9 - (?w * n + 7) div 8"]) auto
  qed
qed

lemma strip_item_index_no_panic: "strip_item_index n data = Inl e \<Longrightarrow> \<not> is_panic e"
  by (cases rule: strip_item_index_cases [of n data])
    (auto simp: strip_item_index_eq split: if_splits)

lemma decode_payload_crc:
  assumes "dformat rd \<noteq> Compressed" "dformat rd \<noteq> Raw"
  shows "decode_payload z rd data =
    (if length data < 5 then Inl (ErrPlain ''too short for CRC32C'')
     else if Uint32 (drop (length data - 4) data) \<noteq> CRC32C (take (length data - 4) data) then Inl ErrChecksum
     else Inr (take (length data - 4) data))"
proof (cases "length data < 5")
  case False
  then have go: "go_Uint32 data (int (length data) - 4) = Some (Uint32 (drop (length data - 4) data))"
    "go_slice data 0 (int (length data) - 4) = Some (take (length data - 4) data)"
    using go_from_end(2) [of 4 data] go_from_end(3) [of 0 data 4] by (simp_all add: slice_def)
  show ?thesis
    using assms False by (cases "dformat rd") (simp_all add: decode_payload_def go)
qed (use assms in \<open>cases "dformat rd"; simp add: decode_payload_def\<close>)

section \<open>The number of items of a record\<close>

lemma ceil_div_le: "0 < k \<Longrightarrow> i < (n + k - 1) div k \<longleftrightarrow> i * k < (n :: nat)"
proof -
  assume k: "0 < k"
  have "Suc i \<le> (n + k - 1) div k \<longleftrightarrow> Suc i * k \<le> n + k - 1"
    by (rule less_eq_div_iff_mult_less_eq [OF k])
  also have "\<dots> \<longleftrightarrow> i * k < n" using k by auto
  finally show ?thesis by (simp add: Suc_le_eq)
qed

lemma itemsInRecord_chunk:
  assumes "0 < k" "r * k < length items"
  shows "itemsInRecord (length items) k r = Inr (length (chunks k items ! r))"
proof -
  have len: "length (chunks k items ! r) = min k (length items - r * k)"
    using assms by (simp add: nth_chunks)
  define rc where "rc = (length items + k - 1) div k"
  have r: "r < rc" unfolding rc_def ceil_div_le [OF assms(1)] by (rule assms(2))
  have unfold: "itemsInRecord (length items) k r =
      (if r \<ge> rc then Inl (Panic ''itemsInRecord recordIdx out of range'')
       else if r < rc - 1 then Inr k
       else if length items mod k = 0 then Inr k else Inr (length items mod k))"
  proof -
    have "length items \<noteq> 0" "k \<noteq> 0" using assms by auto
    then show ?thesis
      unfolding itemsInRecord_def Let_def rc_def [symmetric] by simp
  qed
  have suc: "Suc r < rc \<longleftrightarrow> Suc r * k < length items"
    using assms(1) unfolding rc_def by (rule ceil_div_le)
  show ?thesis
  proof (cases "Suc r < rc")
    case True
    then have "k \<le> length items - r * k" using suc by simp
    with True r len show ?thesis by (simp add: unfold)
  next
    case False
    then have le: "length items - r * k \<le> k" using suc by simp
    have "length items mod k = (length items - r * k) mod k"
      using assms by (metis le_add_diff_inverse2 less_imp_le mod_mult_self2 mult.commute)
    then have rem: "length items mod k = (if length items - r * k = k then 0 else length items - r * k)"
      using le by (auto simp: le_less)
    have "\<not> r < rc - 1" using False by simp
    with r len le rem assms(2) show ?thesis by (simp add: unfold)
  qed
qed

section \<open>Items of a decoded record\<close>

lemma length_size_sums [simp]: "length (size_sums a ss) = Suc (length ss)"
  by (induction ss arbitrary: a) auto

lemma nth_size_sums: "i \<le> length ss \<Longrightarrow> size_sums a ss ! i = a + sum_list (map unat (take i ss))"
proof (induction ss arbitrary: a i)
  case (Cons s ss)
  then show ?case by (cases i) auto
qed simp

text \<open>An item is read where the prefix sums say, if they stay within the payload.\<close>

lemma Item_slice:
  assumes "item_offsets rd = size_sums 0 (sizes rd)" "i < length (sizes rd)"
    "sum_list (map unat (take (Suc i) (sizes rd))) \<le> length (decompressed rd)"
  shows "Item rd (int i) = Inr (slice (decompressed rd) (sum_list (map unat (take i (sizes rd))))
    (sum_list (map unat (take (Suc i) (sizes rd)))))"
proof -
  have "sum_list (map unat (take i (sizes rd))) \<le> sum_list (map unat (take (Suc i) (sizes rd)))"
    using assms(2) by (simp add: take_Suc_conv_app_nth)
  then show ?thesis
    using assms go_access(1) [of i "item_offsets rd"] go_access(1) [of "Suc i" "item_offsets rd"]
      go_access(2) [of _ _ "decompressed rd"]
    by (simp add: Item_def nth_size_sums add.commute)
qed

text \<open>A decoder that holds the items of a record: what \<open>Decode\<close> establishes and \<open>Item\<close> needs.\<close>

definition holds_items :: "decoder \<Rightarrow> bytes list \<Rightarrow> bool" where
  "holds_items rd items \<longleftrightarrow> decompressed rd = concat items \<and>
    map unat (sizes rd) = map length items \<and> item_offsets rd = size_sums 0 (sizes rd)"

lemma slice_concat:
  "i < length xss \<Longrightarrow>
    slice (concat xss) (sum_list (map length (take i xss))) (sum_list (map length (take (Suc i) xss))) = xss ! i"
proof (induction xss arbitrary: i)
  case (Cons xs xss)
  then show ?case
    by (cases i) (auto simp: slice_drop_append slice_append_left slice_all)
qed simp

lemma Item_holds:
  assumes "holds_items rd items" "i < length items"
  shows "Item rd (int i) = Inr (items ! i)"
proof -
  have eq: "map unat (sizes rd) = map length items" using assms(1) by (simp add: holds_items_def)
  have len: "length (sizes rd) = length items" using arg_cong [OF eq, of length] by simp
  have sums: "map unat (take j (sizes rd)) = map length (take j items)" for j by (metis eq take_map)
  have "sum_list (map length (take (Suc i) items)) \<le> length (concat items)"
    by (metis append_take_drop_id concat_append le_add1 length_append length_concat)
  then show ?thesis
    using assms len slice_concat [OF assms(2)] Item_slice [of rd i] by (simp add: holds_items_def sums)
qed

lemma Item_out_of_range:
  "holds_items rd items \<Longrightarrow> i < 0 \<or> int (length items) \<le> i \<Longrightarrow>
    Item rd i = Inl (Panic ''Item out of range'')"
  by (auto simp: Item_def holds_items_def dest: arg_cong [where f = length])

lemma length_sizes_holds: "holds_items rd items \<Longrightarrow> length (sizes rd) = length items"
  by (auto simp: holds_items_def dest: arg_cong [where f = length])

end
