(* ===== verification/Sha256.thy ===== *)
theory Sha256
  imports Binary
begin

text \<open>
  \<open>sha256.Sum256\<close> of Go's \<open>crypto/sha256\<close> (FIPS 180-4), which the content hash of
  packfile/contenthash.go calls. The proofs use that it is a function whose
  result has 32 bytes; no collision resistance is assumed anywhere.
\<close>

definition sha_k :: "uint32 list" where
  "sha_k =
   [0x428A2F98, 0x71374491, 0xB5C0FBCF, 0xE9B5DBA5, 0x3956C25B, 0x59F111F1, 0x923F82A4, 0xAB1C5ED5,
    0xD807AA98, 0x12835B01, 0x243185BE, 0x550C7DC3, 0x72BE5D74, 0x80DEB1FE, 0x9BDC06A7, 0xC19BF174,
    0xE49B69C1, 0xEFBE4786, 0x0FC19DC6, 0x240CA1CC, 0x2DE92C6F, 0x4A7484AA, 0x5CB0A9DC, 0x76F988DA,
    0x983E5152, 0xA831C66D, 0xB00327C8, 0xBF597FC7, 0xC6E00BF3, 0xD5A79147, 0x06CA6351, 0x14292967,
    0x27B70A85, 0x2E1B2138, 0x4D2C6DFC, 0x53380D13, 0x650A7354, 0x766A0ABB, 0x81C2C92E, 0x92722C85,
    0xA2BFE8A1, 0xA81A664B, 0xC24B8B70, 0xC76C51A3, 0xD192E819, 0xD6990624, 0xF40E3585, 0x106AA070,
    0x19A4C116, 0x1E376C08, 0x2748774C, 0x34B0BCB5, 0x391C0CB3, 0x4ED8AA4A, 0x5B9CCA4F, 0x682E6FF3,
    0x748F82EE, 0x78A5636F, 0x84C87814, 0x8CC70208, 0x90BEFFFA, 0xA4506CEB, 0xBEF9A3F7, 0xC67178F2]"

type_synonym sha_state =
  "uint32 \<times> uint32 \<times> uint32 \<times> uint32 \<times> uint32 \<times> uint32 \<times> uint32 \<times> uint32"

definition sha_init :: sha_state where
  "sha_init = (0x6A09E667, 0xBB67AE85, 0x3C6EF372, 0xA54FF53A,
               0x510E527F, 0x9B05688C, 0x1F83D9AB, 0x5BE0CD19)"

definition rotr :: "nat \<Rightarrow> uint32 \<Rightarrow> uint32" where
  "rotr n x = drop_bit n x OR push_bit (32 - n) x"

text \<open>The message schedule: 16 words of the chunk, extended to 64.\<close>

fun chunk_words :: "nat \<Rightarrow> bytes \<Rightarrow> uint32 list" where
  "chunk_words 0 bs = []"
| "chunk_words (Suc n) bs = Uint32BE bs # chunk_words n (drop 4 bs)"

fun extend_schedule :: "nat \<Rightarrow> uint32 list \<Rightarrow> uint32 list" where
  "extend_schedule 0 w = w"
| "extend_schedule (Suc n) w =
    (let t = length w;
         w15 = w ! (t - 15); w2 = w ! (t - 2);
         s0 = rotr 7 w15 XOR rotr 18 w15 XOR drop_bit 3 w15;
         s1 = rotr 17 w2 XOR rotr 19 w2 XOR drop_bit 10 w2
     in extend_schedule n (w @ [w ! (t - 16) + s0 + w ! (t - 7) + s1]))"

definition sha_round :: "sha_state \<Rightarrow> uint32 \<times> uint32 \<Rightarrow> sha_state" where
  "sha_round s kw = (case s of (a, b, c, d, e, f, g, h) \<Rightarrow>
    (let s1 = rotr 6 e XOR rotr 11 e XOR rotr 25 e;
         ch = (e AND f) XOR (NOT e AND g);
         t1 = h + s1 + ch + fst kw + snd kw;
         s0 = rotr 2 a XOR rotr 13 a XOR rotr 22 a;
         maj = (a AND b) XOR (a AND c) XOR (b AND c)
     in (t1 + (s0 + maj), a, b, c, d + t1, e, f, g)))"

definition sha_add :: "sha_state \<Rightarrow> sha_state \<Rightarrow> sha_state" where
  "sha_add s t = (case s of (a, b, c, d, e, f, g, h) \<Rightarrow>
    case t of (a', b', c', d', e', f', g', h') \<Rightarrow>
      (a + a', b + b', c + c', d + d', e + e', f + f', g + g', h + h'))"

definition sha_chunk :: "sha_state \<Rightarrow> bytes \<Rightarrow> sha_state" where
  "sha_chunk s chunk =
    sha_add s (foldl sha_round s (zip sha_k (extend_schedule 48 (chunk_words 16 chunk))))"

fun sha_chunks :: "nat \<Rightarrow> sha_state \<Rightarrow> bytes \<Rightarrow> sha_state" where
  "sha_chunks 0 s bs = s"
| "sha_chunks (Suc n) s bs = sha_chunks n (sha_chunk s (take 64 bs)) (drop 64 bs)"

definition sha_pad :: "bytes \<Rightarrow> bytes" where
  "sha_pad m = m @ [0x80] @ replicate (nat ((55 - int (length m)) mod 64)) 0
     @ PutUint64BE (of_nat (8 * length m))"

definition sha_output :: "sha_state \<Rightarrow> bytes" where
  "sha_output s = (case s of (a, b, c, d, e, f, g, h) \<Rightarrow>
    concat (map PutUint32BE [a, b, c, d, e, f, g, h]))"

definition Sum256 :: "bytes \<Rightarrow> bytes" where
  "Sum256 m = (let p = sha_pad m in sha_output (sha_chunks (length p div 64) sha_init p))"

lemma length_Sum256 [simp, codec_len]: "length (Sum256 m) = 32"
  by (simp add: Sum256_def sha_output_def Let_def split: prod.splits)

text \<open>Padding fills whole chunks, so no byte of the message is left out.\<close>

lemma sha_pad_whole_chunks: "length (sha_pad m) mod 64 = 0"
proof -
  have "int (length (sha_pad m)) = int (length m) + 9 + (55 - int (length m)) mod 64"
    by (simp add: sha_pad_def)
  also have "\<dots> mod 64 = (int (length m) + 9 + (55 - int (length m))) mod 64"
    by (rule mod_add_right_eq)
  finally have "int (length (sha_pad m)) mod 64 = 0" by simp
  then show ?thesis by presburger
qed

end
