(* ===== verification/Content_Hash.thy ===== *)
theory Content_Hash
  imports Packfile Sha256
begin

text \<open>
  packfile/contenthash.go: the chunked SHA-256 over the item stream. The streaming
  hasher refines \<open>content_hash\<close>, the definition in the documentation: the hash of
  the concatenated digests of the chunks, each chunk hashed with length-prefixed
  items. The framing of a chunk is injective, so item boundaries are part of the
  hash.
\<close>

record contentHasher =
  digests :: bytes
  hbuf :: bytes
  count :: nat
  chunkSize :: nat

definition newContentHasher :: "int \<Rightarrow> pf_error + contentHasher" where
  "newContentHasher k =
    (if k \<le> 0 then Inl (Panic ''newContentHasher chunkSize must be > 0'')
     else Inr \<lparr>digests = [], hbuf = [], count = 0, chunkSize = nat k\<rparr>)"

definition hasher_Add :: "contentHasher \<Rightarrow> bytes list \<Rightarrow> contentHasher" where
  "hasher_Add h parts =
    (let total = sum_list (map length parts);
         buf = hbuf h @ PutUint32 (of_nat total) @ concat parts;
         cnt = count h + 1
     in if cnt = chunkSize h
        then h\<lparr>digests := digests h @ Sum256 buf, hbuf := [], count := 0\<rparr>
        else h\<lparr>hbuf := buf, count := cnt\<rparr>)"

definition hasher_Sum :: "contentHasher \<Rightarrow> bytes \<times> contentHasher" where
  "hasher_Sum h =
    (let h' = (if count h > 0
               then h\<lparr>digests := digests h @ Sum256 (hbuf h), hbuf := [], count := 0\<rparr>
               else h)
     in (Sum256 (digests h'), h'))"

section \<open>Abstract specification\<close>

definition item_frame :: "bytes \<Rightarrow> bytes" where
  "item_frame item = PutUint32 (of_nat (length item)) @ item"

definition chunk_digest :: "bytes list \<Rightarrow> bytes" where
  "chunk_digest items = Sum256 (concat (map item_frame items))"

definition content_hash :: "nat \<Rightarrow> bytes list \<Rightarrow> bytes" where
  "content_hash k items = Sum256 (concat (map chunk_digest (chunks k items)))"

lemma length_content_hash [simp, codec_len]: "length (content_hash k items) = 32"
  by (simp add: content_hash_def)

section \<open>The streaming hasher computes it\<close>

definition hasher_inv :: "nat \<Rightarrow> bytes list \<Rightarrow> contentHasher \<Rightarrow> bool" where
  "hasher_inv k items h \<longleftrightarrow> chunkSize h = k \<and>
    (\<exists>cs rest. chunked k items cs rest \<and> digests h = concat (map chunk_digest cs) \<and>
      hbuf h = concat (map item_frame rest) \<and> count h = length rest)"

lemma hasher_inv_new:
  "0 < k \<Longrightarrow> \<exists>h. newContentHasher (int k) = Inr h \<and> hasher_inv k [] h"
  using chunked_Nil [of k, where 'a = bytes]
  by (fastforce simp: newContentHasher_def hasher_inv_def)

lemma hasher_inv_Add:
  assumes "hasher_inv k items h"
  shows "hasher_inv k (items @ [concat parts]) (hasher_Add h parts)"
proof -
  let ?item = "concat parts"
  obtain cs rest where h: "chunkSize h = k" "chunked k items cs rest"
    "digests h = concat (map chunk_digest cs)" "hbuf h = concat (map item_frame rest)"
    "count h = length rest"
    using assms by (auto simp: hasher_inv_def)
  have buf: "hbuf h @ PutUint32 (of_nat (sum_list (map length parts))) @ concat parts
      = concat (map item_frame (rest @ [?item]))"
    using h(4) by (simp add: item_frame_def length_concat)
  show ?thesis
  proof (cases "Suc (length rest) = k")
    case True
    then show ?thesis
      using h buf chunked_full [OF h(2) True, of ?item]
      unfolding hasher_inv_def hasher_Add_def Let_def
      by (intro conjI exI [of _ "cs @ [rest @ [?item]]"] exI [of _ "[]"]) (simp_all add: chunk_digest_def)
  next
    case False
    then show ?thesis
      using h buf chunked_part [OF h(2) False, of ?item]
      unfolding hasher_inv_def hasher_Add_def Let_def
      by (intro conjI exI [of _ cs] exI [of _ "rest @ [?item]"]) simp_all
  qed
qed

lemma hasher_inv_Sum:
  assumes "hasher_inv k items h"
  shows "fst (hasher_Sum h) = content_hash k items"
proof -
  obtain cs rest where h: "chunked k items cs rest" "digests h = concat (map chunk_digest cs)"
    "hbuf h = concat (map item_frame rest)" "count h = length rest"
    using assms by (auto simp: hasher_inv_def)
  then show ?thesis
    using chunks_chunked [OF h(1)]
    by (cases "rest = []") (simp_all add: hasher_Sum_def Let_def content_hash_def chunk_digest_def)
qed

fun hasher_Add_all :: "contentHasher \<Rightarrow> bytes list \<Rightarrow> contentHasher" where
  "hasher_Add_all h [] = h"
| "hasher_Add_all h (item # items) = hasher_Add_all (hasher_Add h [item]) items"

lemma hasher_inv_Add_all:
  "hasher_inv k xs h \<Longrightarrow> hasher_inv k (xs @ items) (hasher_Add_all h items)"
proof (induction items arbitrary: xs h)
  case (Cons item items)
  have "hasher_inv k (xs @ [item]) (hasher_Add h [item])"
    using hasher_inv_Add [OF Cons.prems, of "[item]"] by simp
  from Cons.IH [OF this] show ?case by simp
qed simp

section \<open>The framing is injective\<close>

lemma item_frame_append_inject:
  assumes "length x < 2 ^ 32" "length y < 2 ^ 32"
    and "item_frame x @ xs = item_frame y @ ys"
  shows "x = y \<and> xs = ys"
proof -
  have "PutUint32 (of_nat (length x)) = PutUint32 (of_nat (length y)) \<and> x @ xs = y @ ys"
    using assms(3) by (simp add: item_frame_def)
  then have "(of_nat (length x) :: uint32) = of_nat (length y)" and eq: "x @ xs = y @ ys"
    by auto
  then have "unat (of_nat (length x) :: uint32) = unat (of_nat (length y) :: uint32)" by simp
  then have "length x = length y"
    using assms(1,2) by (simp add: unat_of_nat take_bit_nat_eq_self)
  with eq show ?thesis by simp
qed

lemma chunk_frames_inject:
  assumes "\<forall>x \<in> set xs \<union> set ys. length x < 2 ^ 32"
    and "concat (map item_frame xs) = concat (map item_frame ys)"
  shows "xs = ys"
  using assms
proof (induction xs arbitrary: ys)
  case Nil
  then show ?case by (cases ys) (auto simp: item_frame_def dest: arg_cong [where f = length])
next
  case (Cons x xs)
  show ?case
  proof (cases ys)
    case Nil
    with Cons.prems(2) show ?thesis
      by (auto simp: item_frame_def dest: arg_cong [where f = length])
  next
    case (Cons y ys')
    then have "x = y \<and> concat (map item_frame xs) = concat (map item_frame ys')"
      using Cons.prems Cons by (intro item_frame_append_inject) auto
    moreover from this have "xs = ys'" using Cons.prems(1) Cons by (intro Cons.IH) auto
    ultimately show ?thesis by (simp add: Cons)
  qed
qed

section \<open>What the hash determines\<close>

lemma hasher_stream:
  assumes "0 < k" and "newContentHasher (int k) = Inr h"
  shows "fst (hasher_Sum (foldl hasher_Add h calls)) = content_hash k (map concat calls)"
proof -
  have "hasher_inv k (xs @ map concat calls) (foldl hasher_Add h calls)" if "hasher_inv k xs h" for xs h
    using that
  proof (induction calls arbitrary: xs h)
    case (Cons parts calls)
    from Cons.IH [OF hasher_inv_Add [OF Cons.prems, of parts]] show ?case by simp
  qed simp
  moreover have "hasher_inv k [] h" using hasher_inv_new [OF assms(1)] assms(2) by auto
  ultimately show ?thesis using hasher_inv_Sum by (metis append_Nil)
qed

text \<open>The byte strings that are hashed for a list of items: one per chunk and the digests.\<close>

definition hash_inputs :: "nat \<Rightarrow> bytes list \<Rightarrow> bytes set" where
  "hash_inputs k items =
    insert (concat (map chunk_digest (chunks k items))) ((\<lambda>c. concat (map item_frame c)) ` set (chunks k items))"

definition sha_collision :: "bytes set \<Rightarrow> bytes set \<Rightarrow> bool" where
  "sha_collision A B \<longleftrightarrow> (\<exists>a \<in> A. \<exists>b \<in> B. a \<noteq> b \<and> Sum256 a = Sum256 b)"

lemma chunk_digests_inject:
  assumes "concat (map chunk_digest cs) = concat (map chunk_digest ds)"
  shows "map chunk_digest cs = map chunk_digest ds"
proof (rule concat_injective [OF assms])
  have len: "length (concat (map chunk_digest es)) = 32 * length es" for es
    by (induction es) (simp_all add: chunk_digest_def)
  show "length (map chunk_digest cs) = length (map chunk_digest ds)"
    using len [of cs] len [of ds] assms by simp
  show "\<forall>(x, y) \<in> set (zip (map chunk_digest cs) (map chunk_digest ds)). length x = length y"
    by (auto simp: set_zip chunk_digest_def)
qed

lemma content_hash_binding:
  assumes "0 < k" and "\<forall>x \<in> set xs \<union> set ys. length x < 2 ^ 32" and "content_hash k xs = content_hash k ys"
  shows "xs = ys \<or> sha_collision (hash_inputs k xs) (hash_inputs k ys)"
proof (rule disjCI)
  assume none: "\<not> sha_collision (hash_inputs k xs) (hash_inputs k ys)"
  let ?cs = "chunks k xs" and ?ds = "chunks k ys"
  have parts: "concat ?cs = xs" "concat ?ds = ys" by (simp_all add: concat_chunks [OF assms(1)])
  have "concat (map chunk_digest ?cs) = concat (map chunk_digest ?ds)"
    using none assms(3) by (auto simp: sha_collision_def hash_inputs_def content_hash_def)
  then have same: "map chunk_digest ?cs = map chunk_digest ?ds" by (rule chunk_digests_inject)
  have len: "length ?cs = length ?ds" using arg_cong [OF same, of length] by simp
  have "?cs = ?ds"
  proof (rule nth_equalityI [OF len])
    fix i assume i: "i < length ?cs"
    then have mem: "?cs ! i \<in> set ?cs" "?ds ! i \<in> set ?ds" using len by simp_all
    have "chunk_digest (?cs ! i) = chunk_digest (?ds ! i)"
      using arg_cong [OF same, of "\<lambda>l. l ! i"] i len by simp
    then have "concat (map item_frame (?cs ! i)) = concat (map item_frame (?ds ! i))"
      using none mem unfolding sha_collision_def hash_inputs_def chunk_digest_def by blast
    moreover have "set (?cs ! i) \<subseteq> set xs" "set (?ds ! i) \<subseteq> set ys"
      using mem parts [symmetric] by (metis UN_upper set_concat)+
    then have "\<forall>x \<in> set (?cs ! i) \<union> set (?ds ! i). length x < 2 ^ 32" using assms(2) by blast
    ultimately show "?cs ! i = ?ds ! i" by (rule chunk_frames_inject [rotated])
  qed
  then show "xs = ys" using parts by metis
qed

end
