(* ===== verification/Os.thy ===== *)
theory Os
  imports Packfile
begin

text \<open>
  What the code uses of Go's \<open>os.File\<close>: a file system maps paths to contents, and
  an environment says which calls fail. A write may be short: \<open>write_short pos n\<close>
  is the number of bytes written before the error. \<open>ReadAt\<close> is positioned and
  returns an error when it cannot fill the buffer.
\<close>

type_synonym fs = "string \<rightharpoonup> bytes"

record os_env =
  open_fails :: "string \<Rightarrow> bool"
  stat_fails :: "string \<Rightarrow> bool"
  write_short :: "nat \<Rightarrow> nat \<Rightarrow> nat option"
  read_fails :: "nat \<Rightarrow> nat \<Rightarrow> bool"
  sync_fails :: bool
  close_fails :: bool
  remove_fails :: bool

text \<open>An environment without faults.\<close>

definition no_faults :: os_env where
  "no_faults = \<lparr>open_fails = (\<lambda>_. False), stat_fails = (\<lambda>_. False),
    write_short = (\<lambda>_ _. None), read_fails = (\<lambda>_ _. False),
    sync_fails = False, close_fails = False, remove_fails = False\<rparr>"

definition write_ok :: "os_env \<Rightarrow> bool" where
  "write_ok env \<longleftrightarrow> (\<forall>pos n. write_short env pos n = None) \<and> \<not> sync_fails env \<and> \<not> close_fails env"

definition read_ok :: "os_env \<Rightarrow> bool" where
  "read_ok env \<longleftrightarrow> (\<forall>p. \<not> open_fails env p) \<and> (\<forall>p. \<not> stat_fails env p) \<and> (\<forall>off n. \<not> read_fails env off n)"

lemma no_faults_ok [simp]: "write_ok no_faults" "read_ok no_faults"
  by (simp_all add: write_ok_def read_ok_def no_faults_def)

definition os_create :: "os_env \<Rightarrow> fs \<Rightarrow> string \<Rightarrow> bool \<Rightarrow> pf_error + fs" where
  "os_create env fs path overwrite =
    (if open_fails env path then Inl (ErrIO ''open'')
     else if \<not> overwrite \<and> fs path \<noteq> None then Inl (ErrIO ''file exists'')
     else Inr (fs(path \<mapsto> [])))"

definition os_contents :: "fs \<Rightarrow> string \<Rightarrow> bytes" where
  "os_contents fs path = (case fs path of None \<Rightarrow> [] | Some b \<Rightarrow> b)"

text \<open>Sequential write: the number of bytes written and the error, if any.\<close>

definition os_write :: "os_env \<Rightarrow> fs \<Rightarrow> string \<Rightarrow> bytes \<Rightarrow> nat \<times> pf_error option \<times> fs" where
  "os_write env fs path data =
    (let old = os_contents fs path
     in case write_short env (length old) (length data) of
          None \<Rightarrow> (length data, None, fs(path \<mapsto> old @ data))
        | Some k \<Rightarrow>
            let n = min k (length data)
            in (n, Some (ErrIO ''write''), fs(path \<mapsto> old @ take n data)))"

definition os_remove :: "os_env \<Rightarrow> fs \<Rightarrow> string \<Rightarrow> pf_error option \<times> fs" where
  "os_remove env fs path =
    (if remove_fails env \<or> fs path = None then (Some (ErrIO ''remove''), fs)
     else (None, fs(path := None)))"

definition ReadAt :: "os_env \<Rightarrow> bytes \<Rightarrow> nat \<Rightarrow> int \<Rightarrow> pf_error + bytes" where
  "ReadAt env contents n off =
    (if off < 0 then Inl (ErrIO ''negative offset'')
     else if n = 0 then Inr []
     else if read_fails env (nat off) n then Inl (ErrIO ''read'')
     else if nat off + n > length contents then Inl (ErrIO ''EOF'')
     else Inr (slice contents (nat off) (nat off + n)))"

lemma ReadAt_ok:
  assumes "read_ok env" "0 \<le> off" "nat off + n \<le> length contents"
  shows "ReadAt env contents n off = Inr (slice contents (nat off) (nat off + n))"
  using assms by (auto simp: ReadAt_def read_ok_def slice_def)

lemma os_write_ok:
  assumes "write_ok env"
  shows "os_write env fs path data = (length data, None, fs(path \<mapsto> os_contents fs path @ data))"
  using assms by (simp add: os_write_def write_ok_def Let_def)

lemma os_contents_upd [simp]: "os_contents (fs(path \<mapsto> b)) path = b"
  by (simp add: os_contents_def)

text \<open>At most the file of one path differs.\<close>

definition other_files :: "string \<Rightarrow> fs \<Rightarrow> fs \<Rightarrow> bool" where
  "other_files p fs fs' \<longleftrightarrow> (\<forall>q. q \<noteq> p \<longrightarrow> fs' q = fs q)"

lemma other_files_refl [simp]: "other_files p fs fs"
  by (simp add: other_files_def)

lemma other_files_trans: "other_files p fs1 fs2 \<Longrightarrow> other_files p fs2 fs3 \<Longrightarrow> other_files p fs1 fs3"
  by (simp add: other_files_def)

lemma other_files_upd [simp]: "other_files p fs (fs(p := x))"
  by (simp add: other_files_def)

end
