(* ===== verification/Writer.thy ===== *)
theory Writer
  imports Index Zstd Decoder Content_Hash Os
begin

text \<open>
  packfile/writer.go: \<open>Create\<close>, \<open>AppendItem\<close>, \<open>Finish\<close> and \<open>Close\<close> of a packfile
  writer, over the writer's state and the file system. An operation returns its
  error (\<open>None\<close> for nil), the file system and the new state. With concurrency
  above 1 the blocks of a flush are queued for the worker pipeline; \<open>Finish\<close> drains
  it, which is modelled here by processing the queue in block order.
\<close>

definition defaultItemsPerRecord :: int where "defaultItemsPerRecord = 128"

record WriterOptions =
  optItemsPerRecord :: int
  optFormat :: RecordFormat
  optConcurrency :: int
  optContentHash :: bool
  optBytesPerSync :: int
  optOverwrite :: bool

record blockResult =
  blockID :: uint32
  bdata :: bytes
  bforIndex :: bytes
  bhashSizes :: "uint32 list option"
  bdigest :: bytes
  bhasHash :: bool

record Writer =
  wpath :: string
  wpos :: nat
  woffsets :: "int list"
  wbytesPerSync :: int
  wlastSyncPos :: nat
  wbuf :: bytes
  wsizes :: "uint32 list"
  wtotal :: nat
  witemsPerRecord :: nat
  wformat :: RecordFormat
  wcompressor :: "Compressor option"
  wcontentHash :: bool
  wserialHasher :: "contentHasher option"
  wdigests :: bytes
  wconcurrency :: int
  wnextBlockID :: uint32
  wworkCh :: "blockResult list option"
  werr :: "pf_error option"
  wclosed :: bool
  wfileClosed :: bool

section \<open>Create\<close>

definition resolveItemsPerRecord :: "WriterOptions \<Rightarrow> pf_error + int" where
  "resolveItemsPerRecord opts =
    (let rs = optItemsPerRecord opts
     in if rs = 0 then Inr defaultItemsPerRecord
        else if rs < 0 then Inl (ErrPlain ''ItemsPerRecord must be > 0'')
        else Inr rs)"

definition Create :: "os_env \<Rightarrow> fs \<Rightarrow> string \<Rightarrow> WriterOptions \<Rightarrow> pf_error + fs \<times> Writer" where
  "Create env fs path opts =
    (case resolveItemsPerRecord opts of
       Inl e \<Rightarrow> Inl e
     | Inr itemsPerRecord \<Rightarrow>
         let conc = (if optFormat opts \<noteq> Compressed \<and> \<not> optContentHash opts then 0
                     else optConcurrency opts)
         in case os_create env fs path (optOverwrite opts) of
              Inl e \<Rightarrow> Inl e
            | Inr fs \<Rightarrow>
                let w = \<lparr>wpath = path, wpos = 0, woffsets = [], wbytesPerSync = optBytesPerSync opts,
                         wlastSyncPos = 0, wbuf = [], wsizes = [], wtotal = 0,
                         witemsPerRecord = nat itemsPerRecord, wformat = optFormat opts,
                         wcompressor = None, wcontentHash = optContentHash opts,
                         wserialHasher = None, wdigests = [], wconcurrency = conc,
                         wnextBlockID = 0, wworkCh = None, werr = None,
                         wclosed = False, wfileClosed = False\<rparr>
                in case (if optContentHash opts \<and> conc \<le> 1
                         then case newContentHasher itemsPerRecord of
                                Inl e \<Rightarrow> Inl e
                              | Inr h \<Rightarrow> Inr (w\<lparr>wserialHasher := Some h\<rparr>)
                         else Inr w) of
                     Inl e \<Rightarrow> Inl e
                   | Inr w \<Rightarrow> Inr (fs, if conc > 1 then w\<lparr>wworkCh := Some []\<rparr> else w))"

section \<open>Blocks\<close>

text \<open>\<open>buildBlock\<close>: the payload and the item size index; the buffers are emptied.\<close>

definition buildBlock :: "Writer \<Rightarrow> pf_error + (bytes \<times> bytes) \<times> Writer" where
  "buildBlock w =
    (let w' = w\<lparr>wbuf := [], wsizes := []\<rparr>
     in if witemsPerRecord w > 1
        then case EncodeGroup (wsizes w) of
               Inl e \<Rightarrow> Inl (Panic ''EncodeGroup'')
             | Inr encoded \<Rightarrow> Inr ((wbuf w, encoded @ PutUint32 (CRC32C encoded)), w')
        else Inr ((wbuf w, []), w'))"

definition writeBlock ::
  "os_env \<Rightarrow> fs \<Rightarrow> Writer \<Rightarrow> bytes \<Rightarrow> pf_error option \<times> fs \<times> Writer" where
  "writeBlock env fs w data =
    (let w = w\<lparr>woffsets := woffsets w @ [int (wpos w)]\<rparr>
     in case os_write env fs (wpath w) data of
          (n, err, fs) \<Rightarrow>
            let w = w\<lparr>wpos := wpos w + n\<rparr>
            in case err of
                 Some e \<Rightarrow> (Some e, fs, w\<lparr>werr := Some e\<rparr>)
               | None \<Rightarrow>
                   if wbytesPerSync w > 0 \<and> int (wpos w) - int (wlastSyncPos w) \<ge> wbytesPerSync w
                   then (None, fs, w\<lparr>wlastSyncPos := wpos w\<rparr>)
                   else (None, fs, w))"

text \<open>The hash goroutine of a block worker: items framed by their sizes.\<close>

fun hash_block :: "bytes \<Rightarrow> nat \<Rightarrow> uint32 list \<Rightarrow> bytes" where
  "hash_block data offset [] = []"
| "hash_block data offset (s # ss) =
    PutUint32 s @ slice data offset (offset + unat s) @ hash_block data (offset + unat s) ss"

text \<open>One round of \<open>blockWorker\<close> on a queued block, with the compressor it owns.\<close>

definition blockWorker :: "libzstd \<Rightarrow> RecordFormat \<Rightarrow> blockResult \<Rightarrow> pf_error + blockResult" where
  "blockWorker z fmt work =
    (let processed =
       (case fmt of
          Compressed \<Rightarrow>
            (case NewCompressor z [] of
               Inl e \<Rightarrow> Inl (zstd_to_pf e)
             | Inr c \<Rightarrow>
                 (case Compressor_Encode z c (bdata work) of
                    Inl e \<Rightarrow> Inl (zstd_to_pf e)
                  | Inr compressed \<Rightarrow> Inr (compressed @ bforIndex work)))
        | Uncompressed \<Rightarrow> Inr (bdata work @ PutUint32 (CRC32C (bdata work)) @ bforIndex work)
        | _ \<Rightarrow> Inr (bdata work @ bforIndex work))
     in case processed of
          Inl e \<Rightarrow> Inl e
        | Inr block \<Rightarrow>
            (case bhashSizes work of
               None \<Rightarrow> Inr (work\<lparr>bdata := block, bforIndex := []\<rparr>)
             | Some szs \<Rightarrow>
                 Inr (work\<lparr>bdata := block, bforIndex := [], bhashSizes := None,
                   bdigest := Sum256 (hash_block (bdata work) 0 szs), bhasHash := True\<rparr>)))"

definition flush :: "os_env \<Rightarrow> libzstd \<Rightarrow> fs \<Rightarrow> Writer \<Rightarrow> pf_error option \<times> fs \<times> Writer" where
  "flush env z fs w =
    (if wconcurrency w \<le> 1
     then case buildBlock w of
            Inl e \<Rightarrow> (Some e, fs, w)
          | Inr ((payload, forIndex), w) \<Rightarrow>
              (case wformat w of
                 Compressed \<Rightarrow>
                   (case (case wcompressor w of None \<Rightarrow> NewCompressor z [] | Some c \<Rightarrow> Inr c) of
                      Inl e \<Rightarrow> (Some (zstd_to_pf e), fs, w)
                    | Inr c \<Rightarrow>
                        let w = w\<lparr>wcompressor := Some c\<rparr>
                        in case Compressor_Encode z c payload of
                             Inl e \<Rightarrow> (Some (zstd_to_pf e), fs, w)
                           | Inr compressed \<Rightarrow> writeBlock env fs w (compressed @ forIndex))
               | Uncompressed \<Rightarrow>
                   writeBlock env fs w ((payload @ PutUint32 (CRC32C payload)) @ forIndex)
               | Raw \<Rightarrow> writeBlock env fs w (payload @ forIndex)
               | OtherFormat _ \<Rightarrow> writeBlock env fs w [])
     else
       let hashSizes = (if wcontentHash w then Some (wsizes w) else None)
       in case buildBlock w of
            Inl e \<Rightarrow> (Some e, fs, w)
          | Inr ((payload, forIndex), w) \<Rightarrow>
              let work = \<lparr>blockID = wnextBlockID w, bdata = payload, bforIndex = forIndex,
                          bhashSizes = hashSizes, bdigest = [], bhasHash = False\<rparr>
              in case wworkCh w of
                   None \<Rightarrow> (Some (Panic ''send on nil channel''), fs, w)
                 | Some q \<Rightarrow>
                     (None, fs, w\<lparr>wworkCh := Some (q @ [work]), wnextBlockID := wnextBlockID w + 1\<rparr>))"

section \<open>AppendItem\<close>

definition AppendItem ::
  "os_env \<Rightarrow> libzstd \<Rightarrow> fs \<Rightarrow> Writer \<Rightarrow> bytes list \<Rightarrow> pf_error option \<times> fs \<times> Writer" where
  "AppendItem env z fs w parts =
    (case werr w of
       Some e \<Rightarrow> (Some e, fs, w)
     | None \<Rightarrow>
         if wclosed w then (Some (ErrPlain ''writer is closed''), fs, w)
         else
           let total = sum_list (map length parts)
           in if total = 0 \<and> parts = [] then (None, fs, w)
              else
                let w = (case wserialHasher w of
                           None \<Rightarrow> w
                         | Some h \<Rightarrow> w\<lparr>wserialHasher := Some (hasher_Add h parts)\<rparr>);
                    w = w\<lparr>wbuf := wbuf w @ concat parts\<rparr>;
                    w = w\<lparr>wsizes := wsizes w @ [of_nat total]\<rparr>
                in if length (wsizes w) = witemsPerRecord w
                   then case flush env z fs w of
                          (Some e, fs, w) \<Rightarrow> (Some e, fs, w\<lparr>werr := Some e\<rparr>)
                        | (None, fs, w) \<Rightarrow> (None, fs, w\<lparr>wtotal := wtotal w + 1\<rparr>)
                   else (None, fs, w\<lparr>wtotal := wtotal w + 1\<rparr>))"

section \<open>Finish\<close>

text \<open>Draining the pipeline: every queued block is processed and written in block order.\<close>

fun drain ::
  "os_env \<Rightarrow> libzstd \<Rightarrow> fs \<Rightarrow> Writer \<Rightarrow> blockResult list \<Rightarrow> pf_error option \<times> fs \<times> Writer" where
  "drain env z fs w [] = (None, fs, w)"
| "drain env z fs w (b # bs) =
    (case blockWorker z (wformat w) b of
       Inl e \<Rightarrow> (Some e, fs, w)
     | Inr br \<Rightarrow>
         (case writeBlock env fs w (bdata br) of
            (Some e, fs, w) \<Rightarrow> (Some e, fs, w)
          | (None, fs, w) \<Rightarrow>
              drain env z fs (if bhasHash br then w\<lparr>wdigests := wdigests w @ bdigest br\<rparr> else w) bs))"

definition trailer_flags :: "Writer \<Rightarrow> byte" where
  "trailer_flags w =
    (let flags = 0;
         flags = (if wformat w \<noteq> Compressed then flags OR flagNoCompression else flags);
         flags = (if wformat w = Raw then flags OR flagNoCRC else flags)
     in if wcontentHash w then flags OR flagContentHash else flags)"

definition trailer_body :: "Writer \<Rightarrow> uint32 \<Rightarrow> uint32 \<Rightarrow> bytes \<Rightarrow> bytes" where
  "trailer_body w indexSize appDataSize hash =
    PutUint32 magic @ [version] @ [trailer_flags w] @
    PutUint32 (of_nat (length (woffsets w) - 1)) @
    PutUint32 (of_nat (wtotal w)) @
    PutUint32 (of_nat (witemsPerRecord w)) @
    PutUint32 indexSize @
    PutUint32 appDataSize @
    hash @
    PutUint16 (of_nat groupSize)"

definition trailer_bytes :: "Writer \<Rightarrow> uint32 \<Rightarrow> uint32 \<Rightarrow> bytes \<Rightarrow> bytes" where
  "trailer_bytes w indexSize appDataSize hash =
    (let body = trailer_body w indexSize appDataSize hash in body @ PutUint32 (CRC32C body))"

definition closeCompressor :: "Writer \<Rightarrow> Writer" where
  "closeCompressor w = (case wcompressor w of None \<Rightarrow> w | Some c \<Rightarrow> w\<lparr>wcompressor := None\<rparr>)"

definition fail :: "pf_error \<Rightarrow> fs \<Rightarrow> Writer \<Rightarrow> pf_error option \<times> fs \<times> Writer" where
  "fail e fs w = (Some e, fs, w\<lparr>werr := Some e\<rparr>)"

text \<open>The hash of the trailer: zero bytes when hashing is off.\<close>

definition final_hash :: "Writer \<Rightarrow> bytes" where
  "final_hash w =
    (if wcontentHash w
     then case wserialHasher w of
            Some h \<Rightarrow> fst (hasher_Sum h)
          | None \<Rightarrow> Sum256 (wdigests w)
     else replicate 32 0)"

text \<open>From the end-of-data offset to the closing of the file.\<close>

definition write_tail ::
  "os_env \<Rightarrow> fs \<Rightarrow> Writer \<Rightarrow> bytes \<Rightarrow> pf_error option \<times> fs \<times> Writer" where
  "write_tail env fs w appData =
    (let w = w\<lparr>woffsets := woffsets w @ [int (wpos w)]\<rparr>;
         hash = final_hash w;
         w = (if wcontentHash w
              then w\<lparr>wserialHasher := map_option (\<lambda>h. snd (hasher_Sum h)) (wserialHasher w)\<rparr> else w)
     in case encodeIndex (woffsets w) of
          Inl e \<Rightarrow> fail e fs w
        | Inr indexBytes \<Rightarrow>
            let indexSize = of_nat (length indexBytes)
            in case os_write env fs (wpath w) indexBytes of
                 (n, Some e, fs) \<Rightarrow> fail e fs w
               | (n, None, fs) \<Rightarrow>
                   let appDataSize = of_nat (length appData) :: uint32
                   in case (if appDataSize > 0 then os_write env fs (wpath w) appData
                            else (0, None, fs)) of
                        (n, Some e, fs) \<Rightarrow> fail e fs w
                      | (n, None, fs) \<Rightarrow>
                          (case os_write env fs (wpath w) (trailer_bytes w indexSize appDataSize hash) of
                             (n, Some e, fs) \<Rightarrow> fail e fs w
                           | (n, None, fs) \<Rightarrow>
                               if sync_fails env then fail (ErrIO ''sync'') fs w
                               else if close_fails env then fail (ErrIO ''close'') fs w
                               else (None, fs, (closeCompressor (w\<lparr>wfileClosed := True\<rparr>))\<lparr>wclosed := True\<rparr>)))"

definition Finish ::
  "os_env \<Rightarrow> libzstd \<Rightarrow> fs \<Rightarrow> Writer \<Rightarrow> bytes \<Rightarrow> pf_error option \<times> fs \<times> Writer" where
  "Finish env z fs w appData =
    (case werr w of
       Some e \<Rightarrow> (Some e, fs, w)
     | None \<Rightarrow>
         if wclosed w then (Some (ErrPlain ''writer is closed''), fs, w)
         else
           case (if wsizes w \<noteq> [] then flush env z fs w else (None, fs, w)) of
             (Some e, fs, w) \<Rightarrow> fail e fs w
           | (None, fs, w) \<Rightarrow>
               (case (case wworkCh w of
                        None \<Rightarrow> (None, fs, w)
                      | Some q \<Rightarrow>
                          (case drain env z fs w q of
                             (err, fs, w) \<Rightarrow> (err, fs, w\<lparr>wworkCh := None\<rparr>))) of
                  (Some e, fs, w) \<Rightarrow> fail e fs w
                | (None, fs, w) \<Rightarrow>
                    if int (wtotal w) > MaxUint32
                    then fail (ErrPlain ''item count exceeds uint32 max'') fs w
                    else write_tail env fs w appData))"

section \<open>Close\<close>

definition Close :: "os_env \<Rightarrow> libzstd \<Rightarrow> fs \<Rightarrow> Writer \<Rightarrow> pf_error list \<times> fs \<times> Writer" where
  "Close env z fs w =
    (if wclosed w then ([], fs, w)
     else
       let w = closeCompressor (w\<lparr>wclosed := True\<rparr>);
           (fs, w) = (case wworkCh w of
                        None \<Rightarrow> (fs, w)
                      | Some q \<Rightarrow> (case drain env z fs w q of (_, fs, w) \<Rightarrow> (fs, w)));
           closeErr = (if \<not> wfileClosed w \<and> close_fails env then [ErrIO ''close''] else []);
           (removeErr, fs) = os_remove env fs (wpath w)
       in (closeErr @ (case removeErr of None \<Rightarrow> [] | Some e \<Rightarrow> [e]), fs, w))"

lemma os_write_keeps: "os_write env fs path data = (n, err, fs') \<Longrightarrow> fs' path \<noteq> None"
  by (auto simp: os_write_def Let_def split: option.splits)

lemma writeBlock_keeps:
  "writeBlock env fs w data = (err, fs', w') \<Longrightarrow>
    fs' (wpath w) \<noteq> None \<and> wpath w' = wpath w \<and> wclosed w' = wclosed w"
  by (auto simp: writeBlock_def Let_def split: prod.splits option.splits if_splits dest: os_write_keeps)

lemma drain_keeps:
  "drain env z fs w q = (err, fs', w') \<Longrightarrow> fs (wpath w) \<noteq> None \<Longrightarrow>
    fs' (wpath w) \<noteq> None \<and> wpath w' = wpath w \<and> wclosed w' = wclosed w"
proof (induction q arbitrary: fs w)
  case (Cons b q)
  show ?case
  proof (cases "blockWorker z (wformat w) b")
    case (Inl e)
    then show ?thesis using Cons.prems by simp
  next
    case (Inr br)
    obtain e1 fs1 w1 where wb: "writeBlock env fs w (bdata br) = (e1, fs1, w1)"
      by (cases "writeBlock env fs w (bdata br)") auto
    let ?w2 = "if bhasHash br then w1\<lparr>wdigests := wdigests w1 @ bdigest br\<rparr> else w1"
    note k = writeBlock_keeps [OF wb]
    then have w2: "wpath ?w2 = wpath w" "wclosed ?w2 = wclosed w" by simp_all
    then show ?thesis
      using Cons.prems Inr wb k Cons.IH [of fs1 ?w2] by (cases e1) simp_all
  qed
qed simp

text \<open>Closing a writer that was not finished.\<close>

lemma Close_unfinished:
  assumes "Close env z fs w = (errs, fs', w')" "\<not> wclosed w" "fs (wpath w) \<noteq> None" "\<not> remove_fails env"
  shows "fs' (wpath w) = None" "wclosed w'"
proof -
  have "fs' (wpath w) = None \<and> wclosed w'"
  proof (cases "wworkCh w")
    case None
    then show ?thesis
      using assms by (auto simp: Close_def Let_def closeCompressor_def os_remove_def split: option.splits)
  next
    case (Some q)
    let ?w1 = "closeCompressor (w\<lparr>wclosed := True\<rparr>)"
    obtain e fs1 w1 where d: "drain env z fs ?w1 q = (e, fs1, w1)" by (cases "drain env z fs ?w1 q") auto
    have "wpath ?w1 = wpath w" "wclosed ?w1" "wworkCh ?w1 = Some q"
      using Some by (simp_all add: closeCompressor_def split: option.split)
    then show ?thesis
      using assms d drain_keeps [OF d] by (auto simp: Close_def Let_def os_remove_def)
  qed
  then show "fs' (wpath w) = None" "wclosed w'" by auto
qed

end
