(* ===== verification/Image.thy ===== *)
theory Image
  imports Writer
begin

text \<open>
  The abstract specification of a packfile and the proof that the writer produces
  it. \<open>block_of\<close> is the on-disk form of one record as the documentation lays it
  out, \<open>file_image\<close> the whole file. Both write paths, the serial one and the
  pipeline drained in block order, leave exactly this image, with the same
  content hash (\<open>write_file_image\<close>).
\<close>

section \<open>The record on disk\<close>

definition default_compressor :: Compressor where
  "default_compressor = \<lparr>cctx = True, clevel = zstdLevel, cchecksum = True\<rparr>"

definition item_sizes :: "bytes list \<Rightarrow> uint32 list" where
  "item_sizes items = map (\<lambda>item. of_nat (length item)) items"

fun protect :: "libzstd \<Rightarrow> RecordFormat \<Rightarrow> bytes \<Rightarrow> pf_error + bytes" where
  "protect z Compressed payload =
    (case Compressor_Encode z default_compressor payload of
       Inl e \<Rightarrow> Inl (zstd_to_pf e)
     | Inr out \<Rightarrow> Inr out)"
| "protect z Uncompressed payload = Inr (payload @ PutUint32 (CRC32C payload))"
| "protect z Raw payload = Inr payload"
| "protect z (OtherFormat f) payload = Inl (ErrPlain ''unknown record format'')"

definition item_index :: "nat \<Rightarrow> bytes list \<Rightarrow> bytes" where
  "item_index k items =
    (if k > 1
     then case EncodeGroup (item_sizes items) of
            Inl e \<Rightarrow> []
          | Inr encoded \<Rightarrow> encoded @ PutUint32 (CRC32C encoded)
     else [])"

definition block_of :: "libzstd \<Rightarrow> RecordFormat \<Rightarrow> nat \<Rightarrow> bytes list \<Rightarrow> pf_error + bytes" where
  "block_of z fmt k items =
    (case protect z fmt (concat items) of
       Inl e \<Rightarrow> Inl e
     | Inr payload \<Rightarrow> Inr (payload @ item_index k items))"

definition known_format :: "RecordFormat \<Rightarrow> bool" where
  "known_format fmt \<longleftrightarrow> (case fmt of OtherFormat _ \<Rightarrow> False | _ \<Rightarrow> True)"

lemma NewCompressor_default: "zstd_contract z \<Longrightarrow> NewCompressor z [] = Inr default_compressor"
  by (simp add: NewCompressor_def zstd_contract_def default_compressor_def compressor_config_def)

lemma Compressor_Encode_total:
  "zstd_contract z \<Longrightarrow> cctx c \<Longrightarrow> length data < 2 ^ 46 \<Longrightarrow> \<exists>out. Compressor_Encode z c data = Inr out"
  using zstd_round_trip [of z c "\<lparr>dctx = True\<rparr>" data] by auto

lemma block_of_total:
  assumes "zstd_contract z" "known_format fmt" "length (concat items) < 2 ^ 46"
  shows "\<exists>b. block_of z fmt k items = Inr b"
proof -
  have "cctx default_compressor" by (simp add: default_compressor_def)
  from Compressor_Encode_total [OF assms(1) this assms(3)] show ?thesis
    using assms(2) by (cases fmt) (auto simp: block_of_def known_format_def)
qed

section \<open>Offsets of a sequence of blocks\<close>

definition block_starts :: "bytes list \<Rightarrow> int list" where
  "block_starts blocks = map (\<lambda>i. int (length (concat (take i blocks)))) [0..<length blocks]"

definition block_offsets :: "bytes list \<Rightarrow> int list" where
  "block_offsets blocks = block_starts blocks @ [int (length (concat blocks))]"

lemma block_starts_Nil [simp]: "block_starts [] = []"
  by (simp add: block_starts_def)

lemma block_starts_snoc: "block_starts (blocks @ [b]) = block_starts blocks @ [int (length (concat blocks))]"
  by (simp add: block_starts_def)

lemma length_block_starts [simp]: "length (block_starts blocks) = length blocks"
  by (simp add: block_starts_def)

lemma length_block_offsets [simp]: "length (block_offsets blocks) = Suc (length blocks)"
  by (simp add: block_offsets_def)

lemma nth_block_offsets:
  "i \<le> length blocks \<Longrightarrow> block_offsets blocks ! i = int (length (concat (take i blocks)))"
  by (simp add: block_offsets_def block_starts_def nth_append)

lemma length_concat_take_Suc:
  "i < length blocks \<Longrightarrow>
    length (concat (take (Suc i) blocks)) = length (concat (take i blocks)) + length (blocks ! i)"
  by (simp add: take_Suc_conv_app_nth)

lemma length_concat_take_le: "length (concat (take i blocks)) \<le> length (concat blocks)"
  by (metis append_take_drop_id concat_append le_add1 length_append)

lemma offset_table_blocks:
  assumes "length blocks < 2 ^ 32" "\<forall>b \<in> set blocks. length b < 2 ^ 32" "length (concat blocks) < 2 ^ 63"
  shows "offset_table (block_offsets blocks)"
proof -
  have "hd (block_offsets blocks) = 0"
    by (cases blocks) (simp_all add: block_offsets_def block_starts_def upt_conv_Cons del: upt_Suc)
  moreover have "last (block_offsets blocks) = int (length (concat blocks))"
    by (simp add: block_offsets_def)
  moreover have "block_offsets blocks \<noteq> []" by (simp add: block_offsets_def)
  ultimately show ?thesis
    using assms by (auto simp: offset_table_def nth_block_offsets length_concat_take_Suc
        simp del: length_concat)
qed

lemma offset_table_encoded:
  assumes "encodeIndex (block_offsets blocks) = Inr index" "length (concat blocks) < 2 ^ 63"
  shows "offset_table (block_offsets blocks)"
proof (rule encodeIndex_Inr_table [OF assms(1)])
  show "block_offsets blocks \<noteq> []" by (simp add: block_offsets_def)
  show "hd (block_offsets blocks) = 0"
    by (cases blocks) (simp_all add: block_offsets_def block_starts_def upt_conv_Cons del: upt_Suc)
  show "last (block_offsets blocks) < 2 ^ 63"
    using assms(2) by (simp add: block_offsets_def del: length_concat)
next
  fix j assume "j < length (block_offsets blocks)"
  then show "0 \<le> block_offsets blocks ! j \<and> block_offsets blocks ! j \<le> last (block_offsets blocks)"
    using length_concat_take_le [of j blocks]
    by (simp add: nth_block_offsets del: length_concat) (simp add: block_offsets_def del: length_concat)
next
  fix j assume "j < length (block_offsets blocks) - 1"
  then show "block_offsets blocks ! j \<le> block_offsets blocks ! Suc j"
    by (simp add: nth_block_offsets length_concat_take_Suc del: length_concat)
qed

text \<open>Block \<open>i\<close> is where the offsets say it is.\<close>

lemma slice_block:
  assumes "i < length blocks"
  shows "slice (concat blocks @ rest) (nat (block_offsets blocks ! i)) (nat (block_offsets blocks ! Suc i)) = blocks ! i"
proof -
  have "slice (concat blocks) (length (concat (take i blocks))) (length (concat (take (Suc i) blocks))) = blocks ! i"
    using slice_concat [OF assms] by (simp add: length_concat take_map)
  moreover have "length (concat (take (Suc i) blocks)) \<le> length (concat blocks)"
    by (rule length_concat_take_le)
  ultimately show ?thesis
    using assms by (simp add: nth_block_offsets slice_append_left del: length_concat)
qed

section \<open>The file\<close>

definition image_flags :: "RecordFormat \<Rightarrow> bool \<Rightarrow> byte" where
  "image_flags fmt hashed =
    (if fmt = Compressed then 0 else flagNoCompression) OR (if fmt = Raw then flagNoCRC else 0) OR
    (if hashed then flagContentHash else 0)"

definition image_trailer ::
  "RecordFormat \<Rightarrow> bool \<Rightarrow> nat \<Rightarrow> bytes list \<Rightarrow> nat \<Rightarrow> nat \<Rightarrow> nat \<Rightarrow> bytes" where
  "image_trailer fmt hashed k items records indexLen appLen =
    PutUint32 magic @ [version] @ [image_flags fmt hashed] @ PutUint32 (of_nat records) @
    PutUint32 (of_nat (length items)) @ PutUint32 (of_nat k) @ PutUint32 (of_nat indexLen) @
    PutUint32 (of_nat appLen) @ (if hashed then content_hash k items else replicate 32 0) @
    PutUint16 (of_nat groupSize)"

definition file_image ::
  "RecordFormat \<Rightarrow> bool \<Rightarrow> nat \<Rightarrow> bytes list \<Rightarrow> bytes list \<Rightarrow> bytes \<Rightarrow> bytes \<Rightarrow> bytes" where
  "file_image fmt hashed k items blocks index appData =
    (let body = image_trailer fmt hashed k items (length blocks) (length index) (length appData)
     in concat blocks @ index @ appData @ body @ PutUint32 (CRC32C body))"

text \<open>The blocks of the records of \<open>items\<close>.\<close>

definition image_blocks :: "libzstd \<Rightarrow> RecordFormat \<Rightarrow> nat \<Rightarrow> bytes list \<Rightarrow> bytes list \<Rightarrow> bool" where
  "image_blocks z fmt k items blocks \<longleftrightarrow>
    list_all2 (\<lambda>c b. block_of z fmt k c = Inr b) (chunks k items) blocks"

section \<open>What has been written\<close>

definition written :: "libzstd \<Rightarrow> fs \<Rightarrow> Writer \<Rightarrow> bytes list list \<Rightarrow> bytes list \<Rightarrow> bool" where
  "written z fs w cs blocks \<longleftrightarrow>
    list_all2 (\<lambda>c b. block_of z (wformat w) (witemsPerRecord w) c = Inr b) cs blocks \<and>
    fs (wpath w) = Some (concat blocks) \<and> wpos w = length (concat blocks) \<and>
    woffsets w = block_starts blocks"

definition wrote :: "Writer \<Rightarrow> bytes list \<Rightarrow> nat \<Rightarrow> Writer" where
  "wrote w blocks s = w\<lparr>woffsets := block_starts blocks, wpos := length (concat blocks),
    wlastSyncPos := s\<rparr>"

lemma writeBlock_written:
  assumes "write_ok env" "written z fs w cs blocks"
    and "block_of z (wformat w) (witemsPerRecord w) c = Inr b"
  shows "\<exists>fs' s. writeBlock env fs w b = (None, fs', wrote w (blocks @ [b]) s) \<and>
    written z fs' (wrote w (blocks @ [b]) s) (cs @ [c]) (blocks @ [b])"
proof -
  let ?fs = "fs(wpath w \<mapsto> concat (blocks @ [b]))"
  let ?s = "if wbytesPerSync w > 0 \<and>
      int (wpos w + length b) - int (wlastSyncPos w) \<ge> wbytesPerSync w then wpos w + length b
    else wlastSyncPos w"
  have "os_contents fs (wpath w) = concat blocks"
    using assms(2) by (simp add: written_def os_contents_def)
  then have "writeBlock env fs w b = (None, ?fs, wrote w (blocks @ [b]) ?s)"
    using assms(1,2)
    by (simp add: writeBlock_def os_write_ok written_def block_starts_snoc wrote_def Let_def)
  moreover have "written z ?fs (wrote w (blocks @ [b]) ?s) (cs @ [c]) (blocks @ [b])"
    using assms(2,3) by (auto simp: written_def wrote_def list_all2_appendI)
  ultimately show ?thesis by blast
qed

section \<open>The serial path\<close>

text \<open>What the writer's state means between two calls, once \<open>items\<close> have been appended.\<close>

definition live :: "Writer \<Rightarrow> bytes list \<Rightarrow> bytes list \<Rightarrow> bool" where
  "live w items rest \<longleftrightarrow> werr w = None \<and> \<not> wclosed w \<and> wbuf w = concat rest \<and>
    wsizes w = item_sizes rest \<and> wtotal w = length items"

definition serial_hash :: "Writer \<Rightarrow> bytes list \<Rightarrow> bool" where
  "serial_hash w items \<longleftrightarrow>
    (if wcontentHash w then \<exists>h. wserialHasher w = Some h \<and> hasher_inv (witemsPerRecord w) items h
     else wserialHasher w = None)"

definition serial_inv :: "libzstd \<Rightarrow> fs \<Rightarrow> Writer \<Rightarrow> bytes list \<Rightarrow> bool" where
  "serial_inv z fs w items \<longleftrightarrow> wconcurrency w \<le> 1 \<and> wworkCh w = None \<and>
    (\<forall>c. wcompressor w = Some c \<longrightarrow> c = default_compressor) \<and> serial_hash w items \<and>
    (\<exists>cs rest blocks. chunked (witemsPerRecord w) items cs rest \<and> written z fs w cs blocks \<and>
      live w items rest)"

text \<open>\<open>flush\<close> writes the block of the buffered items and empties the buffers.\<close>

lemma item_index_EncodeGroup:
  "items \<noteq> [] \<Longrightarrow> 1 < k \<Longrightarrow> \<exists>g. EncodeGroup (item_sizes items) = Inr g \<and>
    item_index k items = g @ PutUint32 (CRC32C g)"
  using EncodeGroup_Inr [of "item_sizes items"] by (auto simp: item_index_def item_sizes_def)

lemma buildBlock_item_index:
  assumes "wsizes w = item_sizes rest" "rest \<noteq> []"
  shows "buildBlock w = Inr ((wbuf w, item_index (witemsPerRecord w) rest), w\<lparr>wbuf := [], wsizes := []\<rparr>)"
  using assms item_index_EncodeGroup [OF assms(2), of "witemsPerRecord w"]
  by (auto simp: buildBlock_def Let_def item_index_def)

definition after_block :: "Writer \<Rightarrow> bytes list \<Rightarrow> nat \<Rightarrow> Compressor option \<Rightarrow> Writer" where
  "after_block w blocks s c = wrote (w\<lparr>wbuf := [], wsizes := [], wcompressor := c\<rparr>) blocks s"

lemma flush_serial:
  assumes "write_ok env" "zstd_contract z" "known_format (wformat w)" "wconcurrency w \<le> 1"
    and "\<forall>c. wcompressor w = Some c \<longrightarrow> c = default_compressor"
    and "wbuf w = concat rest" "wsizes w = item_sizes rest" "rest \<noteq> []"
    and "length (concat rest) < 2 ^ 46" "written z fs w cs blocks"
  shows "\<exists>fs' b s c. flush env z fs w = (None, fs', after_block w (blocks @ [b]) s c) \<and>
    written z fs' (after_block w (blocks @ [b]) s c) (cs @ [rest]) (blocks @ [b]) \<and>
    (\<forall>c'. c = Some c' \<longrightarrow> c' = default_compressor)"
proof -
  obtain b where b: "block_of z (wformat w) (witemsPerRecord w) rest = Inr b"
    using block_of_total assms(2,3,9) by blast
  define c where "c = (if wformat w = Compressed then Some default_compressor else wcompressor w)"
  define w1 where "w1 = w\<lparr>wbuf := [], wsizes := [], wcompressor := c\<rparr>"
  have w1: "written z fs w1 cs blocks" "block_of z (wformat w1) (witemsPerRecord w1) rest = Inr b"
    using assms(10) b by (simp_all add: w1_def written_def)
  from writeBlock_written [OF assms(1) w1] obtain fs' s where
    "writeBlock env fs w1 b = (None, fs', after_block w (blocks @ [b]) s c)"
    "written z fs' (after_block w (blocks @ [b]) s c) (cs @ [rest]) (blocks @ [b])"
    unfolding after_block_def w1_def by blast
  moreover have "flush env z fs w = writeBlock env fs w1 b"
    using b assms(3-7) buildBlock_item_index [OF assms(7,8)] NewCompressor_default [OF assms(2)]
    by (cases "wformat w")
      (auto simp: flush_def block_of_def known_format_def w1_def c_def Let_def
        split: sum.splits option.splits)
  moreover have "\<forall>c'. c = Some c' \<longrightarrow> c' = default_compressor"
    using assms(5) by (auto simp: c_def)
  ultimately show ?thesis by metis
qed

text \<open>No operation changes the configuration.\<close>

definition same_conf :: "Writer \<Rightarrow> Writer \<Rightarrow> bool" where
  "same_conf w w' \<longleftrightarrow> wpath w' = wpath w \<and> witemsPerRecord w' = witemsPerRecord w \<and>
    wformat w' = wformat w \<and> wcontentHash w' = wcontentHash w \<and> wconcurrency w' = wconcurrency w"

lemma same_conf_refl [simp]: "same_conf w w"
  by (simp add: same_conf_def)

lemma same_conf_trans: "same_conf w w' \<Longrightarrow> same_conf w' w'' \<Longrightarrow> same_conf w w''"
  by (simp add: same_conf_def)

lemma serial_hash_Add:
  assumes "serial_hash w items"
  shows "serial_hash (case wserialHasher w of None \<Rightarrow> w
      | Some h \<Rightarrow> w\<lparr>wserialHasher := Some (hasher_Add h parts)\<rparr>) (items @ [concat parts])"
  using assms hasher_inv_Add by (auto simp: serial_hash_def split: option.splits if_splits)

lemma item_sizes_snoc [simp]: "item_sizes (xs @ [x]) = item_sizes xs @ [of_nat (length x)]"
  by (simp add: item_sizes_def)

lemma length_item_sizes [simp]: "length (item_sizes xs) = length xs"
  by (simp add: item_sizes_def)

lemma sum_list_parts: "sum_list (map length parts) = length (concat parts)"
  by (simp add: length_concat)

text \<open>\<open>AppendItem\<close> up to the flush: the state with the item added to the buffers.\<close>

definition push_item :: "Writer \<Rightarrow> bytes list \<Rightarrow> Writer" where
  "push_item w parts =
    (case wserialHasher w of None \<Rightarrow> w | Some h \<Rightarrow> w\<lparr>wserialHasher := Some (hasher_Add h parts)\<rparr>)
      \<lparr>wbuf := wbuf w @ concat parts, wsizes := wsizes w @ [of_nat (length (concat parts))]\<rparr>"

lemma AppendItem_push:
  assumes "werr w = None" "\<not> wclosed w" "parts \<noteq> []"
  shows "AppendItem env z fs w parts =
    (let w' = push_item w parts in
     if Suc (length (wsizes w)) = witemsPerRecord w
     then case flush env z fs w' of
            (Some e, fs, w) \<Rightarrow> (Some e, fs, w\<lparr>werr := Some e\<rparr>)
          | (None, fs, w) \<Rightarrow> (None, fs, w\<lparr>wtotal := wtotal w + 1\<rparr>)
     else (None, fs, w'\<lparr>wtotal := wtotal w' + 1\<rparr>))"
  using assms by (cases "wserialHasher w")
    (simp_all add: AppendItem_def push_item_def Let_def sum_list_parts)

lemma push_item_fields [simp]:
  "werr (push_item w parts) = werr w" "wclosed (push_item w parts) = wclosed w"
  "wpath (push_item w parts) = wpath w" "witemsPerRecord (push_item w parts) = witemsPerRecord w"
  "wformat (push_item w parts) = wformat w" "wcontentHash (push_item w parts) = wcontentHash w"
  "wconcurrency (push_item w parts) = wconcurrency w" "wworkCh (push_item w parts) = wworkCh w"
  "wcompressor (push_item w parts) = wcompressor w" "wtotal (push_item w parts) = wtotal w"
  "woffsets (push_item w parts) = woffsets w" "wpos (push_item w parts) = wpos w"
  "wdigests (push_item w parts) = wdigests w" "wnextBlockID (push_item w parts) = wnextBlockID w"
  "wbuf (push_item w parts) = wbuf w @ concat parts"
  "wsizes (push_item w parts) = wsizes w @ [of_nat (length (concat parts))]"
  by (simp_all add: push_item_def split: option.splits)

lemma serial_hash_push:
  assumes "serial_hash w items"
  shows "serial_hash (push_item w parts) (items @ [concat parts])"
  using serial_hash_Add [OF assms, of parts]
  by (auto simp: serial_hash_def push_item_def split: option.splits if_splits)

lemma written_push [simp]: "written z fs (push_item w parts) = written z fs w"
  by (simp add: written_def fun_eq_iff)

lemma AppendItem_serial:
  assumes env: "write_ok env" "zstd_contract z" "known_format (wformat w)" "parts \<noteq> []"
    and inv: "serial_inv z fs w items"
    and len: "length (concat (items @ [concat parts])) < 2 ^ 46"
  obtains fs' w' where "AppendItem env z fs w parts = (None, fs', w')"
    "serial_inv z fs' w' (items @ [concat parts])" "same_conf w w'"
proof -
  let ?item = "concat parts" let ?w = "push_item w parts"
  from inv obtain cs rest blocks where conc: "wconcurrency w \<le> 1" "wworkCh w = None"
    and comp: "\<forall>c. wcompressor w = Some c \<longrightarrow> c = default_compressor"
    and hash: "serial_hash w items" and ch: "chunked (witemsPerRecord w) items cs rest"
    and wr: "written z fs w cs blocks" and live: "live w items rest"
    by (auto simp: serial_inv_def)
  have bufs: "wbuf ?w = concat (rest @ [?item])" "wsizes ?w = item_sizes (rest @ [?item])"
    using live by (simp_all add: live_def)
  have hash': "serial_hash ?w (items @ [?item])" using hash by (rule serial_hash_push)
  note step = AppendItem_push [of w parts env z fs]
  show thesis
  proof (cases "Suc (length rest) = witemsPerRecord w")
    case True
    have prems: "known_format (wformat ?w)" "wconcurrency ?w \<le> 1"
      "\<forall>c. wcompressor ?w = Some c \<longrightarrow> c = default_compressor" "rest @ [?item] \<noteq> []"
      "length (concat (rest @ [?item])) < 2 ^ 46" "written z fs ?w cs blocks"
      using env(3) conc(1) comp wr len ch by (auto simp: chunked_def)
    obtain fs' b s c where fl: "flush env z fs ?w = (None, fs', after_block ?w (blocks @ [b]) s c)"
      "written z fs' (after_block ?w (blocks @ [b]) s c) (cs @ [rest @ [?item]]) (blocks @ [b])"
      "\<forall>c'. c = Some c' \<longrightarrow> c' = default_compressor"
      using flush_serial [OF env(1,2) prems(1-3) bufs prems(4-6)] by blast
    let ?w' = "(after_block ?w (blocks @ [b]) s c)\<lparr>wtotal := wtotal w + 1\<rparr>"
    have "AppendItem env z fs w parts = (None, fs', ?w')"
      using step live env(4) True fl(1) by (simp add: live_def after_block_def wrote_def)
    moreover have "written z fs' ?w' (cs @ [rest @ [?item]]) (blocks @ [b])"
      using fl(2) by (simp add: written_def)
    then have "serial_inv z fs' ?w' (items @ [?item])"
      using conc fl(3) hash' chunked_full [OF ch True, of ?item] live
      unfolding serial_inv_def
      by (intro conjI exI [of _ "cs @ [rest @ [?item]]"] exI [of _ "[]"] exI [of _ "blocks @ [b]"])
        (auto simp: live_def serial_hash_def item_sizes_def after_block_def wrote_def)
    ultimately show thesis using that by (simp add: same_conf_def after_block_def wrote_def)
  next
    case False
    let ?w' = "?w\<lparr>wtotal := wtotal w + 1\<rparr>"
    have "AppendItem env z fs w parts = (None, fs, ?w')"
      using step live env(4) False by (simp add: live_def)
    moreover have "written z fs ?w' cs blocks" using wr by (simp add: written_def)
    then have "serial_inv z fs ?w' (items @ [?item])"
      using conc comp hash' chunked_part [OF ch False, of ?item] live bufs
      unfolding serial_inv_def
      by (intro conjI exI [of _ cs] exI [of _ "rest @ [?item]"] exI [of _ blocks])
        (auto simp: live_def serial_hash_def)
    ultimately show thesis using that by (simp add: same_conf_def)
  qed
qed

section \<open>The concurrent path\<close>

text \<open>The work a flush queues for the records \<open>c\<close>.\<close>

definition work_of :: "Writer \<Rightarrow> nat \<times> bytes list \<Rightarrow> blockResult" where
  "work_of w = (\<lambda>(i, c). \<lparr>blockID = of_nat i, bdata = concat c,
    bforIndex = item_index (witemsPerRecord w) c,
    bhashSizes = (if wcontentHash w then Some (item_sizes c) else None),
    bdigest = [], bhasHash = False\<rparr>)"

definition conc_inv :: "libzstd \<Rightarrow> fs \<Rightarrow> Writer \<Rightarrow> bytes list \<Rightarrow> bool" where
  "conc_inv z fs w items \<longleftrightarrow> 1 < wconcurrency w \<and> wserialHasher w = None \<and> wdigests w = [] \<and>
    written z fs w [] [] \<and>
    (\<exists>cs rest. chunked (witemsPerRecord w) items cs rest \<and> live w items rest \<and>
      wworkCh w = Some (map (work_of w) (enumerate 0 cs)) \<and> wnextBlockID w = of_nat (length cs))"

lemma flush_conc:
  assumes "1 < wconcurrency w" "wbuf w = concat rest" "wsizes w = item_sizes rest" "rest \<noteq> []"
    and "wworkCh w = Some (map (work_of w) (enumerate 0 cs))" "wnextBlockID w = of_nat (length cs)"
  shows "flush env z fs w = (None, fs, w\<lparr>wbuf := [], wsizes := [],
      wworkCh := Some (map (work_of w) (enumerate 0 (cs @ [rest]))),
      wnextBlockID := of_nat (length (cs @ [rest]))\<rparr>)"
  using assms buildBlock_item_index [OF assms(3,4)]
  by (simp add: flush_def Let_def work_of_def enumerate_append_eq add.commute)

lemma work_of_cong:
  "witemsPerRecord w' = witemsPerRecord w \<Longrightarrow> wcontentHash w' = wcontentHash w \<Longrightarrow> work_of w' = work_of w"
  by (simp add: work_of_def)

lemma AppendItem_conc:
  assumes "parts \<noteq> []" and inv: "conc_inv z fs w items"
  obtains w' where "AppendItem env z fs w parts = (None, fs, w')"
    "conc_inv z fs w' (items @ [concat parts])" "same_conf w w'"
proof -
  let ?item = "concat parts" let ?w = "push_item w parts"
  from inv obtain cs rest where conc: "1 < wconcurrency w" "wserialHasher w = None" "wdigests w = []"
    and wr: "written z fs w [] []" and ch: "chunked (witemsPerRecord w) items cs rest"
    and live: "live w items rest" and q: "wworkCh w = Some (map (work_of w) (enumerate 0 cs))"
    "wnextBlockID w = of_nat (length cs)"
    by (auto simp: conc_inv_def)
  have bufs: "wbuf ?w = concat (rest @ [?item])" "wsizes ?w = item_sizes (rest @ [?item])"
    using live by (simp_all add: live_def)
  have work: "work_of ?w = work_of w" by (rule work_of_cong) simp_all
  have no_hasher: "wserialHasher ?w = None" using conc(2) by (simp add: push_item_def)
  note step = AppendItem_push [of w parts env z fs]
  show thesis
  proof (cases "Suc (length rest) = witemsPerRecord w")
    case True
    let ?w' = "?w\<lparr>wbuf := [], wsizes := [],
      wworkCh := Some (map (work_of w) (enumerate 0 (cs @ [rest @ [?item]]))),
      wnextBlockID := of_nat (length (cs @ [rest @ [?item]])), wtotal := wtotal w + 1\<rparr>"
    have app: "AppendItem env z fs w parts = (None, fs, ?w')"
      using step live assms(1) True conc q bufs
        flush_conc [of ?w "rest @ [?item]" cs env z fs] by (simp add: live_def work)
    have "work_of ?w' = work_of w" by (rule work_of_cong) simp_all
    moreover have "written z fs ?w' [] []" using wr by (simp add: written_def)
    ultimately have "conc_inv z fs ?w' (items @ [?item])"
      using conc no_hasher chunked_full [OF ch True, of ?item] live
      unfolding conc_inv_def
      by (intro conjI exI [of _ "cs @ [rest @ [?item]]"] exI [of _ "[]"])
        (simp_all add: live_def item_sizes_def)
    with app show thesis using that by (simp add: same_conf_def)
  next
    case False
    let ?w' = "?w\<lparr>wtotal := wtotal w + 1\<rparr>"
    have app: "AppendItem env z fs w parts = (None, fs, ?w')"
      using step live assms(1) False by (simp add: live_def)
    have "work_of ?w' = work_of w" by (rule work_of_cong) simp_all
    moreover have "written z fs ?w' [] []" using wr by (simp add: written_def)
    ultimately have "conc_inv z fs ?w' (items @ [?item])"
      using conc no_hasher chunked_part [OF ch False, of ?item] live q bufs
      unfolding conc_inv_def
      by (intro conjI exI [of _ cs] exI [of _ "rest @ [?item]"]) (simp_all add: live_def)
    with app show thesis using that by (simp add: same_conf_def)
  qed
qed

end
