(* ===== verification/Write_File.thy ===== *)
theory Write_File
  imports Image
begin

text \<open>
  From \<open>Create\<close> over the \<open>AppendItem\<close> calls to \<open>Finish\<close>: the session a caller of
  the writer runs, and the theorem that both write paths leave the specified file.
\<close>

section \<open>Draining the pipeline\<close>

lemma hash_block_frames:
  assumes "\<forall>item \<in> set items. length item < 2 ^ 32"
  shows "hash_block (pre @ concat items) (length pre) (item_sizes items) = concat (map item_frame items)"
  using assms
proof (induction items arbitrary: pre)
  case Nil
  then show ?case by (simp add: item_sizes_def)
next
  case (Cons item items)
  have size: "unat (of_nat (length item) :: uint32) = length item"
    using Cons.prems by (simp add: unat_of_nat take_bit_nat_eq_self)
  have "hash_block ((pre @ item) @ concat items) (length (pre @ item)) (item_sizes items)
      = concat (map item_frame items)"
    using Cons.prems by (intro Cons.IH) simp
  moreover have "item_frame item = PutUint32 (of_nat (length item)) @ item"
    by (simp add: item_frame_def)
  ultimately show ?case
    by (simp add: item_sizes_def size slice_def)
qed

lemma blockWorker_work:
  assumes "zstd_contract z" "known_format (wformat w)" "length (concat c) < 2 ^ 46"
    and "\<forall>item \<in> set c. length item < 2 ^ 32"
  shows "\<exists>b br. block_of z (wformat w) (witemsPerRecord w) c = Inr b \<and>
    blockWorker z (wformat w) (work_of w (i, c)) = Inr br \<and> bdata br = b \<and>
    blockID br = of_nat i \<and> bhasHash br = wcontentHash w \<and>
    (wcontentHash w \<longrightarrow> bdigest br = chunk_digest c)"
proof -
  obtain b where b: "block_of z (wformat w) (witemsPerRecord w) c = Inr b"
    using block_of_total assms(1-3) by blast
  have hash: "Sum256 (hash_block (concat c) 0 (item_sizes c)) = chunk_digest c"
    using hash_block_frames [OF assms(4), of "[]"] by (simp add: chunk_digest_def)
  show ?thesis
    using b assms(2) NewCompressor_default [OF assms(1)]
    by (cases "wformat w")
      (auto simp: blockWorker_def work_of_def block_of_def known_format_def hash Let_def
        split: sum.splits)
qed

definition with_digests :: "Writer \<Rightarrow> bytes list list \<Rightarrow> Writer" where
  "with_digests w cs = (if wcontentHash w
     then w\<lparr>wdigests := wdigests w @ concat (map chunk_digest cs)\<rparr> else w)"

lemma drain_written:
  assumes "write_ok env" "zstd_contract z" "known_format (wformat w)"
    and "length (concat (concat cs')) < 2 ^ 46" "\<forall>c \<in> set cs'. \<forall>item \<in> set c. length item < 2 ^ 32"
    and "written z fs w cs blocks"
  shows "\<exists>fs' bs s. drain env z fs w (map (work_of w) (enumerate n cs')) =
      (None, fs', wrote (with_digests w cs') (blocks @ bs) s) \<and>
    written z fs' (wrote (with_digests w cs') (blocks @ bs) s) (cs @ cs') (blocks @ bs)"
  using assms(3-6)
proof (induction cs' arbitrary: n fs w cs blocks)
  case Nil
  have w: "wrote (with_digests w []) blocks (wlastSyncPos w) = w"
    using Nil.prems(4) by (simp add: wrote_def with_digests_def written_def)
  show ?case
    using Nil.prems(4) by (intro exI [of _ fs] exI [of _ "[]"] exI [of _ "wlastSyncPos w"]) (simp add: w)
next
  case (Cons c cs')
  have c: "length (concat c) < 2 ^ 46" "\<forall>item \<in> set c. length item < 2 ^ 32"
    using Cons.prems(2,3) by auto
  obtain b br where b: "block_of z (wformat w) (witemsPerRecord w) c = Inr b"
    "blockWorker z (wformat w) (work_of w (n, c)) = Inr br" "bdata br = b"
    "bhasHash br = wcontentHash w" "wcontentHash w \<longrightarrow> bdigest br = chunk_digest c"
    using blockWorker_work [OF assms(2) Cons.prems(1) c] by metis
  obtain fs1 s1 where wb: "writeBlock env fs w b = (None, fs1, wrote w (blocks @ [b]) s1)"
    "written z fs1 (wrote w (blocks @ [b]) s1) (cs @ [c]) (blocks @ [b])"
    using writeBlock_written [OF assms(1) Cons.prems(4) b(1)] by blast
  let ?w1 = "with_digests (wrote w (blocks @ [b]) s1) [c]"
  have conf: "wformat ?w1 = wformat w" "work_of ?w1 = work_of w"
    by (simp_all add: with_digests_def wrote_def work_of_def)
  have "written z fs1 ?w1 (cs @ [c]) (blocks @ [b])"
    using wb(2) by (simp add: written_def with_digests_def)
  then obtain fs' bs s where IH:
    "drain env z fs1 ?w1 (map (work_of ?w1) (enumerate (Suc n) cs')) =
      (None, fs', wrote (with_digests ?w1 cs') ((blocks @ [b]) @ bs) s)"
    "written z fs' (wrote (with_digests ?w1 cs') ((blocks @ [b]) @ bs) s)
      ((cs @ [c]) @ cs') ((blocks @ [b]) @ bs)"
    using Cons.IH [of ?w1 fs1 "cs @ [c]" "blocks @ [b]" "Suc n"] Cons.prems conf by auto
  have w: "wrote (with_digests ?w1 cs') ((blocks @ [b]) @ bs) s
      = wrote (with_digests w (c # cs')) (blocks @ b # bs) s"
    by (simp add: wrote_def with_digests_def)
  have "(if bhasHash br then (wrote w (blocks @ [b]) s1)
        \<lparr>wdigests := wdigests (wrote w (blocks @ [b]) s1) @ bdigest br\<rparr>
      else wrote w (blocks @ [b]) s1) = ?w1"
    using b(4,5) by (simp add: with_digests_def wrote_def)
  then have "drain env z fs w (map (work_of w) (enumerate n (c # cs'))) =
      (None, fs', wrote (with_digests w (c # cs')) (blocks @ b # bs) s)"
    using b wb(1) IH(1) conf w by simp
  moreover have "written z fs' (wrote (with_digests w (c # cs')) (blocks @ b # bs) s)
      (cs @ c # cs') (blocks @ b # bs)"
    using IH(2) w by simp
  ultimately show ?case by blast
qed

section \<open>The tail of the file\<close>

text \<open>All records are on disk and the content hash is known.\<close>

definition flushed :: "libzstd \<Rightarrow> fs \<Rightarrow> Writer \<Rightarrow> bytes list \<Rightarrow> bytes list \<Rightarrow> bool" where
  "flushed z fs w items blocks \<longleftrightarrow> werr w = None \<and> \<not> wclosed w \<and> wtotal w = length items \<and>
    written z fs w (chunks (witemsPerRecord w) items) blocks \<and>
    final_hash w = (if wcontentHash w then content_hash (witemsPerRecord w) items else replicate 32 0)"

lemma trailer_flags_image: "trailer_flags w = image_flags (wformat w) (wcontentHash w)"
  by (auto simp: trailer_flags_def image_flags_def Let_def or.assoc)

lemma length_image_trailer [simp]: "length (image_trailer fmt hashed k items records il al) = 60"
  by (simp add: image_trailer_def)

lemma write_tail_image:
  assumes env: "write_ok env" and fl: "flushed z fs w items blocks"
    and idx: "encodeIndex (block_offsets blocks) = Inr index" and app: "length appData < 2 ^ 32"
  shows "\<exists>w'. write_tail env fs w appData =
      (None, fs(wpath w \<mapsto> file_image (wformat w) (wcontentHash w) (witemsPerRecord w) items blocks index appData), w')
    \<and> wclosed w' \<and> wfileClosed w' \<and> werr w' = None"
proof -
  define w1 where "w1 = w\<lparr>woffsets := woffsets w @ [int (wpos w)]\<rparr>"
  define w2 where "w2 = (if wcontentHash w1
    then w1\<lparr>wserialHasher := map_option (\<lambda>h. snd (hasher_Sum h)) (wserialHasher w1)\<rparr> else w1)"
  have w: "werr w = None" "wtotal w = length items" "os_contents fs (wpath w) = concat blocks"
    "wpos w = length (concat blocks)" "woffsets w = block_starts blocks"
    using fl by (simp_all add: flushed_def written_def os_contents_def)
  have w2: "woffsets w2 = block_offsets blocks" "wpath w2 = wpath w" "wtotal w2 = length items"
    "wformat w2 = wformat w" "wcontentHash w2 = wcontentHash w" "witemsPerRecord w2 = witemsPerRecord w"
    "werr w2 = None"
    using w by (simp_all add: w2_def w1_def block_offsets_def)
  have hash: "final_hash w1 = (if wcontentHash w then content_hash (witemsPerRecord w) items else replicate 32 0)"
    using fl by (auto simp: w1_def flushed_def final_hash_def split: option.splits)
  have appSize: "(of_nat (length appData) :: uint32) > 0 \<longleftrightarrow> appData \<noteq> []"
  proof -
    have "unat (of_nat (length appData) :: uint32) = length appData"
      using app by (simp add: unat_of_nat take_bit_nat_eq_self)
    then show ?thesis by (metis length_0_conv unat_eq_zero word_gt_0)
  qed
  have trailer: "trailer_bytes w2 (of_nat (length index)) (of_nat (length appData)) (final_hash w1)
      = (let body = image_trailer (wformat w) (wcontentHash w) (witemsPerRecord w) items (length blocks)
           (length index) (length appData) in body @ PutUint32 (CRC32C body))"
    by (simp add: trailer_bytes_def trailer_body_def image_trailer_def trailer_flags_image w2 hash Let_def)
  have "write_tail env fs w appData = (None,
      fs(wpath w \<mapsto> file_image (wformat w) (wcontentHash w) (witemsPerRecord w) items blocks index appData),
      (closeCompressor (w2\<lparr>wfileClosed := True\<rparr>))\<lparr>wclosed := True\<rparr>)"
    using env idx w2 trailer appSize w(3)
    by (cases "appData = []")
      (simp_all add: write_tail_def os_write_ok Let_def file_image_def write_ok_def
        flip: w1_def w2_def)
  then show ?thesis
    using w2(7) by (simp add: closeCompressor_def split: option.splits)
qed

section \<open>Finish\<close>

lemma final_hash_serial:
  assumes "serial_hash w items"
  shows "final_hash w = (if wcontentHash w then content_hash (witemsPerRecord w) items else replicate 32 0)"
  using assms hasher_inv_Sum by (auto simp: serial_hash_def final_hash_def split: if_splits)

text \<open>The first half of \<open>Finish\<close>: flush the partial record and drain the pipeline.\<close>

lemma Finish_serial:
  assumes env: "write_ok env" "zstd_contract z" "known_format (wformat w)"
    and inv: "serial_inv z fs w items" and len: "length (concat items) < 2 ^ 46"
    and cnt: "int (length items) \<le> MaxUint32"
  shows "\<exists>fs' w' blocks. flushed z fs' w' items blocks \<and> same_conf w w' \<and>
    Finish env z fs w appData = write_tail env fs' w' appData"
proof -
  from inv obtain cs rest blocks where conc: "wconcurrency w \<le> 1" "wworkCh w = None"
    and comp: "\<forall>c. wcompressor w = Some c \<longrightarrow> c = default_compressor"
    and hash: "serial_hash w items" and ch: "chunked (witemsPerRecord w) items cs rest"
    and wr: "written z fs w cs blocks" and live: "live w items rest"
    by (auto simp: serial_inv_def)
  have chunks: "chunks (witemsPerRecord w) items = cs @ (if rest = [] then [] else [rest])"
    using ch by (rule chunks_chunked)
  show ?thesis
  proof (cases "rest = []")
    case True
    then have "flushed z fs w items blocks"
      using live wr hash chunks by (simp add: flushed_def live_def final_hash_serial)
    moreover have "Finish env z fs w appData = write_tail env fs w appData"
      using True live conc cnt by (simp add: Finish_def live_def item_sizes_def)
    ultimately show ?thesis by (intro exI conjI) (assumption, simp_all)
  next
    case False
    have bufs: "wbuf w = concat rest" "wsizes w = item_sizes rest" "length (concat rest) < 2 ^ 46"
      using live len ch by (simp_all add: live_def chunked_def)
    obtain fs' b s c where fl: "flush env z fs w = (None, fs', after_block w (blocks @ [b]) s c)"
      "written z fs' (after_block w (blocks @ [b]) s c) (cs @ [rest]) (blocks @ [b])"
      using flush_serial [OF env conc(1) comp bufs(1,2) False bufs(3) wr] by blast
    let ?w' = "after_block w (blocks @ [b]) s c"
    have w': "werr ?w' = None" "\<not> wclosed ?w'" "wtotal ?w' = length items" "wworkCh ?w' = None"
      "witemsPerRecord ?w' = witemsPerRecord w" "same_conf w ?w'" "serial_hash ?w' items"
      using live conc hash
      by (auto simp: after_block_def wrote_def live_def same_conf_def serial_hash_def)
    have "flushed z fs' ?w' items (blocks @ [b])"
      using fl(2) w' False chunks final_hash_serial [OF w'(7)] by (simp add: flushed_def)
    moreover have "Finish env z fs w appData = write_tail env fs' ?w' appData"
      using False live fl(1) w' cnt by (simp add: Finish_def live_def item_sizes_def)
    ultimately show ?thesis using w'(6) by blast
  qed
qed

lemma Finish_conc:
  assumes env: "write_ok env" "zstd_contract z" "known_format (wformat w)"
    and inv: "conc_inv z fs w items" and len: "length (concat items) < 2 ^ 46"
    and small: "\<forall>item \<in> set items. length item < 2 ^ 32"
    and cnt: "int (length items) \<le> MaxUint32"
  shows "\<exists>fs' w' blocks. flushed z fs' w' items blocks \<and> same_conf w w' \<and>
    Finish env z fs w appData = write_tail env fs' w' appData"
proof -
  from inv obtain cs rest where conc: "1 < wconcurrency w" "wserialHasher w = None" "wdigests w = []"
    and wr: "written z fs w [] []" and ch: "chunked (witemsPerRecord w) items cs rest"
    and live: "live w items rest" and q: "wworkCh w = Some (map (work_of w) (enumerate 0 cs))"
    "wnextBlockID w = of_nat (length cs)"
    by (auto simp: conc_inv_def)
  define cs' where "cs' = cs @ (if rest = [] then [] else [rest])"
  have chunks: "chunks (witemsPerRecord w) items = cs'"
    unfolding cs'_def using ch by (rule chunks_chunked)
  have items: "concat cs' = items"
    using ch by (auto simp: chunked_def cs'_def)
  define w1 where "w1 = (if rest = [] then w else w\<lparr>wbuf := [], wsizes := [],
      wworkCh := Some (map (work_of w) (enumerate 0 cs')), wnextBlockID := of_nat (length cs')\<rparr>)"
  have w1: "wworkCh w1 = Some (map (work_of w1) (enumerate 0 cs'))" "same_conf w w1"
    "wdigests w1 = []" "wserialHasher w1 = None" "werr w1 = None" "\<not> wclosed w1" "wtotal w1 = length items"
    using live q conc by (auto simp: w1_def cs'_def live_def same_conf_def work_of_def)
  have conf: "wformat w1 = wformat w" "witemsPerRecord w1 = witemsPerRecord w" "wcontentHash w1 = wcontentHash w"
    using w1(2) by (simp_all add: same_conf_def)
  have flush: "(if wsizes w \<noteq> [] then flush env z fs w else (None, fs, w)) = (None, fs, w1)"
    using live q flush_conc [OF conc(1), of rest cs env z fs]
    by (auto simp: live_def item_sizes_def w1_def cs'_def)
  have "written z fs w1 [] []" using wr by (auto simp: w1_def written_def)
  moreover have "\<forall>c \<in> set cs'. \<forall>item \<in> set c. length item < 2 ^ 32"
    using small unfolding items [symmetric] by auto
  ultimately obtain fs' bs s where dr:
    "drain env z fs w1 (map (work_of w1) (enumerate 0 cs')) = (None, fs', wrote (with_digests w1 cs') bs s)"
    "written z fs' (wrote (with_digests w1 cs') bs s) cs' bs"
    using drain_written [OF env(1,2), of w1 cs' fs "[]" "[]" 0] env(3) len conf items by auto
  let ?w' = "(wrote (with_digests w1 cs') bs s)\<lparr>wworkCh := None\<rparr>"
  have "flushed z fs' ?w' items bs"
    using dr(2) w1 conf chunks
    by (auto simp: flushed_def wrote_def with_digests_def written_def final_hash_def content_hash_def)
  moreover have "same_conf w ?w'"
    using w1(2) by (simp add: same_conf_def wrote_def with_digests_def)
  moreover have "Finish env z fs w appData = write_tail env fs' ?w' appData"
  proof -
    have "wtotal ?w' = length items" using w1 by (simp add: wrote_def with_digests_def)
    moreover have "werr w = None" "\<not> wclosed w" using live by (simp_all add: live_def)
    ultimately show ?thesis
      using cnt by (simp add: Finish_def flush w1(1) dr(1))
  qed
  ultimately show ?thesis by blast
qed

section \<open>A whole session\<close>

fun append_all ::
  "os_env \<Rightarrow> libzstd \<Rightarrow> fs \<Rightarrow> Writer \<Rightarrow> bytes list list \<Rightarrow> pf_error option \<times> fs \<times> Writer" where
  "append_all env z fs w [] = (None, fs, w)"
| "append_all env z fs w (parts # rest) =
    (case AppendItem env z fs w parts of
       (Some e, fs, w) \<Rightarrow> (Some e, fs, w)
     | (None, fs, w) \<Rightarrow> append_all env z fs w rest)"

definition write_file ::
  "os_env \<Rightarrow> libzstd \<Rightarrow> fs \<Rightarrow> string \<Rightarrow> WriterOptions \<Rightarrow> bytes list list \<Rightarrow> bytes
    \<Rightarrow> pf_error option \<times> fs" where
  "write_file env z fs path opts calls appData =
    (case Create env fs path opts of
       Inl e \<Rightarrow> (Some e, fs)
     | Inr (fs, w) \<Rightarrow>
         (case append_all env z fs w calls of
            (Some e, fs, w) \<Rightarrow> (Some e, fs)
          | (None, fs, w) \<Rightarrow>
              (case Finish env z fs w appData of (err, fs, w) \<Rightarrow> (err, fs))))"

definition items_per_record :: "WriterOptions \<Rightarrow> nat" where
  "items_per_record opts = (if optItemsPerRecord opts = 0 then 128 else nat (optItemsPerRecord opts))"

lemma append_all_serial:
  assumes env: "write_ok env" "zstd_contract z" "known_format (wformat w)"
    and inv: "serial_inv z fs w items" and calls: "\<forall>parts \<in> set calls. parts \<noteq> []"
    and len: "length (concat (items @ map concat calls)) < 2 ^ 46"
  shows "\<exists>fs' w'. append_all env z fs w calls = (None, fs', w') \<and>
    serial_inv z fs' w' (items @ map concat calls) \<and> same_conf w w'"
  using env(3) inv calls len
proof (induction calls arbitrary: fs w items)
  case (Cons parts calls)
  obtain fs1 w1 where step: "AppendItem env z fs w parts = (None, fs1, w1)"
    "serial_inv z fs1 w1 (items @ [concat parts])" "same_conf w w1"
    using AppendItem_serial [OF env(1,2) Cons.prems(1) _ Cons.prems(2), of parts] Cons.prems(3,4)
    by auto
  moreover have "known_format (wformat w1)" using step(3) Cons.prems(1) by (simp add: same_conf_def)
  ultimately obtain fs' w' where "append_all env z fs1 w1 calls = (None, fs', w')"
    "serial_inv z fs' w' ((items @ [concat parts]) @ map concat calls)" "same_conf w1 w'"
    using Cons.IH [of w1 fs1 "items @ [concat parts]"] Cons.prems(3,4) by auto
  then show ?case using step same_conf_trans [of w w1 w'] by auto
qed auto

lemma append_all_conc:
  assumes "conc_inv z fs w items" "\<forall>parts \<in> set calls. parts \<noteq> []"
  shows "\<exists>w'. append_all env z fs w calls = (None, fs, w') \<and>
    conc_inv z fs w' (items @ map concat calls) \<and> same_conf w w'"
  using assms
proof (induction calls arbitrary: w items)
  case (Cons parts calls)
  obtain w1 where step: "AppendItem env z fs w parts = (None, fs, w1)"
    "conc_inv z fs w1 (items @ [concat parts])" "same_conf w w1"
    using AppendItem_conc [of parts z fs w items env] Cons.prems by auto
  then obtain w' where "append_all env z fs w1 calls = (None, fs, w')"
    "conc_inv z fs w' ((items @ [concat parts]) @ map concat calls)" "same_conf w1 w'"
    using Cons.IH [of w1 "items @ [concat parts]"] Cons.prems(2) by auto
  then show ?case using step same_conf_trans [of w w1 w'] by auto
qed auto

text \<open>\<open>Create\<close> establishes the invariant of the path the options choose.\<close>

lemma Create_inv:
  assumes "\<not> open_fails env path" "optOverwrite opts \<or> fs path = None" "0 \<le> optItemsPerRecord opts"
  shows "\<exists>fs' w. Create env fs path opts = Inr (fs', w) \<and> wpath w = path \<and>
    wformat w = optFormat opts \<and> wcontentHash w = optContentHash opts \<and>
    witemsPerRecord w = items_per_record opts \<and>
    (serial_inv z fs' w [] \<or> conc_inv z fs' w [])"
proof -
  have k: "resolveItemsPerRecord opts = Inr (int (items_per_record opts))" "0 < items_per_record opts"
    using assms(3) by (auto simp: resolveItemsPerRecord_def items_per_record_def
        defaultItemsPerRecord_def Let_def)
  have create: "os_create env fs path (optOverwrite opts) = Inr (fs(path \<mapsto> []))"
    using assms by (auto simp: os_create_def)
  obtain h where h: "newContentHasher (int (items_per_record opts)) = Inr h"
    "hasher_inv (items_per_record opts) [] h"
    using hasher_inv_new [OF k(2)] by blast
  define conc where "conc = (if optFormat opts \<noteq> Compressed \<and> \<not> optContentHash opts then 0 else optConcurrency opts)"
  show ?thesis
    using k create h chunked_Nil [OF k(2), where 'a = bytes]
    by (cases "1 < conc")
      (fastforce simp: Create_def Let_def conc_def serial_inv_def conc_inv_def serial_hash_def
        written_def live_def item_sizes_def split: if_splits)+
qed

text \<open>
  What a session is asked to write: options, items and application data within
  the limits of the format's 32-bit fields.
\<close>

definition session_ok :: "os_env \<Rightarrow> libzstd \<Rightarrow> fs \<Rightarrow> string \<Rightarrow> WriterOptions \<Rightarrow> bytes list list \<Rightarrow> bytes \<Rightarrow> bool" where
  "session_ok env z fs path opts calls appData \<longleftrightarrow>
    write_ok env \<and> \<not> open_fails env path \<and> (optOverwrite opts \<or> fs path = None) \<and>
    zstd_contract z \<and> known_format (optFormat opts) \<and> 0 \<le> optItemsPerRecord opts \<and>
    (\<forall>parts \<in> set calls. parts \<noteq> []) \<and> (\<forall>item \<in> set (map concat calls). length item < 2 ^ 32) \<and>
    length calls < 2 ^ 32 \<and> length (concat (map concat calls)) < 2 ^ 46 \<and> length appData < 2 ^ 32"

lemma Finish_flushed:
  assumes "session_ok env z fs0 path opts calls appData" "wformat w = optFormat opts"
    and "serial_inv z fs w (map concat calls) \<or> conc_inv z fs w (map concat calls)"
  shows "\<exists>fs' w' blocks. flushed z fs' w' (map concat calls) blocks \<and> same_conf w w' \<and>
    Finish env z fs w appData = write_tail env fs' w' appData"
proof -
  have ok: "write_ok env" "zstd_contract z" "known_format (wformat w)"
    "length (concat (map concat calls)) < 2 ^ 46" "\<forall>item \<in> set (map concat calls). length item < 2 ^ 32"
    "int (length (map concat calls)) \<le> MaxUint32"
    using assms(1,2) by (auto simp: session_ok_def MaxUint32_def)
  from assms(3) show ?thesis
    using Finish_serial [OF ok(1-3) _ ok(4,6)] Finish_conc [OF ok(1-3) _ ok(4-6)] by blast
qed

lemma write_file_flushed:
  assumes ok: "session_ok env z fs path opts calls appData"
  shows "\<exists>fs' w blocks. flushed z fs' w (map concat calls) blocks \<and> wpath w = path \<and>
    wformat w = optFormat opts \<and> wcontentHash w = optContentHash opts \<and>
    witemsPerRecord w = items_per_record opts \<and>
    write_file env z fs path opts calls appData =
      (case write_tail env fs' w appData of (err, fs, w) \<Rightarrow> (err, fs))"
proof -
  let ?items = "map concat calls"
  obtain fs1 w1 where create: "Create env fs path opts = Inr (fs1, w1)" "wpath w1 = path"
    "wformat w1 = optFormat opts" "wcontentHash w1 = optContentHash opts"
    "witemsPerRecord w1 = items_per_record opts" "serial_inv z fs1 w1 [] \<or> conc_inv z fs1 w1 []"
    using Create_inv [of env path opts fs z] ok by (auto simp: session_ok_def)
  have calls: "\<forall>parts \<in> set calls. parts \<noteq> []" "length (concat ([] @ ?items)) < 2 ^ 46"
    and env: "write_ok env" "zstd_contract z" "known_format (wformat w1)"
    using ok create(3) by (auto simp: session_ok_def)
  have "\<exists>fs2 w2. append_all env z fs1 w1 calls = (None, fs2, w2) \<and>
      (serial_inv z fs2 w2 ?items \<or> conc_inv z fs2 w2 ?items) \<and> same_conf w1 w2"
    using create(6)
  proof
    assume "serial_inv z fs1 w1 []"
    from append_all_serial [OF env this calls] show ?thesis by auto
  next
    assume "conc_inv z fs1 w1 []"
    from append_all_conc [OF this calls(1), of env] show ?thesis by auto
  qed
  then obtain fs2 w2 where append: "append_all env z fs1 w1 calls = (None, fs2, w2)" "same_conf w1 w2"
    "serial_inv z fs2 w2 ?items \<or> conc_inv z fs2 w2 ?items" by blast
  have fmt: "wformat w2 = optFormat opts" using create(3) append(2) by (simp add: same_conf_def)
  from Finish_flushed [OF ok fmt append(3)] obtain fs3 w3 blocks where
    fin: "flushed z fs3 w3 ?items blocks" "same_conf w2 w3"
      "Finish env z fs2 w2 appData = write_tail env fs3 w3 appData" by blast
  have "same_conf w1 w3" using append(2) fin(2) by (rule same_conf_trans)
  then show ?thesis
    using create append(1) fin
    by (intro exI [of _ fs3] exI [of _ w3] exI [of _ blocks])
      (simp add: write_file_def same_conf_def)
qed

text \<open>The session leaves the specified file, whatever the concurrency.\<close>

lemma write_file_image:
  assumes ok: "session_ok env z fs path opts calls appData"
  shows "\<exists>blocks. image_blocks z (optFormat opts) (items_per_record opts) (map concat calls) blocks \<and>
    (\<forall>index. encodeIndex (block_offsets blocks) = Inr index \<longrightarrow>
      (\<exists>fs'. write_file env z fs path opts calls appData = (None, fs') \<and>
        fs' path = Some (file_image (optFormat opts) (optContentHash opts) (items_per_record opts)
          (map concat calls) blocks index appData))) \<and>
    (\<forall>e. encodeIndex (block_offsets blocks) = Inl e \<longrightarrow>
      (\<exists>fs'. write_file env z fs path opts calls appData = (Some e, fs')))"
proof -
  obtain fs' w blocks where fl: "flushed z fs' w (map concat calls) blocks" "wpath w = path"
    "wformat w = optFormat opts" "wcontentHash w = optContentHash opts"
    "witemsPerRecord w = items_per_record opts"
    and run: "write_file env z fs path opts calls appData =
      (case write_tail env fs' w appData of (err, fs, w) \<Rightarrow> (err, fs))"
    using write_file_flushed [OF ok] by blast
  have env: "write_ok env" "length appData < 2 ^ 32" using ok by (simp_all add: session_ok_def)
  have "woffsets w @ [int (wpos w)] = block_offsets blocks"
    using fl(1) by (simp add: flushed_def written_def block_offsets_def)
  then have "\<exists>fs''. write_file env z fs path opts calls appData = (Some e, fs'')"
    if "encodeIndex (block_offsets blocks) = Inl e" for e
    using that run by (simp add: write_tail_def fail_def Let_def)
  moreover have "image_blocks z (optFormat opts) (items_per_record opts) (map concat calls) blocks"
    using fl by (simp add: image_blocks_def flushed_def written_def)
  moreover have "\<exists>fs''. write_file env z fs path opts calls appData = (None, fs'') \<and>
      fs'' path = Some (file_image (optFormat opts) (optContentHash opts) (items_per_record opts)
          (map concat calls) blocks index appData)"
    if "encodeIndex (block_offsets blocks) = Inr index" for index
    using write_tail_image [OF env(1) fl(1) that env(2)] run fl by auto
  ultimately show ?thesis by blast
qed

end
