(* ===== verification/Pipeline.thy ===== *)
theory Pipeline
  imports Write_File "HOL-Library.Multiset"
begin

text \<open>
  packfile/writer.go with concurrency above 1, goroutine by goroutine: the caller of
  AppendItem and Finish sends blocks on \<open>workCh\<close>, the \<open>blockWorker\<close>s process them and
  send the results on \<open>resultCh\<close>, \<open>runWriter\<close> puts them back in block order and writes
  them, and reports on \<open>writerDone\<close>. Both channels are buffered, with one slot per
  worker. Each goroutine has a deterministic step (\<open>None\<close> where it blocks or has
  ended), and \<open>pipe_step\<close> interleaves them. The sequential \<open>drain\<close> of the writer model
  is what every schedule that ends without an error computes.
\<close>

section \<open>State\<close>

datatype worker =
    Receiving
  | Sending "pf_error + blockResult"
  | Exited
  | Panicked pf_error

datatype collector = Collecting | Writing | Discarding | Returned

text \<open>
  The caller: \<open>Checking\<close> is the test of \<open>w.err\<close> at the start of AppendItem or Finish,
  \<open>Submitting\<close> the send in flush. \<open>Closing\<close> and \<open>Waiting\<close> are in Finish (\<open>True\<close>) or in
  Close (\<open>False\<close>), after which the caller has the error received from \<open>writerDone\<close>.
\<close>

datatype submitter =
    Checking "blockResult list"
  | Submitting blockResult "blockResult list"
  | Closing bool
  | Waiting bool
  | Got bool "pf_error option"

record pipe_state =
  pmain :: submitter
  pworkCh :: "blockResult list"
  pworkClosed :: bool
  pworkers :: "worker list"
  presultCh :: "(pf_error + blockResult) list"
  pcollector :: collector
  ppending :: "uint32 \<rightharpoonup> blockResult"
  pnext :: uint32
  pwriterDone :: "pf_error option"
  pfs :: fs
  pwriter :: Writer

text \<open>\<open>pipePartial\<close>: the last block is the partial record that Finish flushes.\<close>

record pipe_env =
  pipeOs :: os_env
  pipeZstd :: libzstd
  pipeConc :: nat
  pipePartial :: bool

definition pipe_start :: "pipe_env \<Rightarrow> fs \<Rightarrow> Writer \<Rightarrow> blockResult list \<Rightarrow> pipe_state" where
  "pipe_start E fs w jobs = \<lparr>pmain = Checking jobs, pworkCh = [], pworkClosed = False,
    pworkers = replicate (pipeConc E) Receiving, presultCh = [], pcollector = Collecting,
    ppending = Map.empty, pnext = 0, pwriterDone = None, pfs = fs, pwriter = w\<rparr>"

section \<open>Steps\<close>

definition submit_step :: "pipe_env \<Rightarrow> pipe_state \<Rightarrow> pipe_state option" where
  "submit_step E st =
    (case pmain st of
       Checking js \<Rightarrow>
         (case werr (pwriter st) of
            Some e \<Rightarrow> Some (st\<lparr>pmain := Closing False\<rparr>)
          | None \<Rightarrow> Some (st\<lparr>pmain := (case js of [] \<Rightarrow> Closing True | j # js \<Rightarrow> Submitting j js)\<rparr>))
     | Submitting j js \<Rightarrow>
         if length (pworkCh st) < pipeConc E
         then Some (st\<lparr>pworkCh := pworkCh st @ [j],
                pmain := (if js = [] \<and> pipePartial E then Closing True else Checking js)\<rparr>)
         else None
     | Closing fin \<Rightarrow> Some (st\<lparr>pworkClosed := True, pmain := Waiting fin\<rparr>)
     | Waiting fin \<Rightarrow>
         (case pwriterDone st of
            Some e \<Rightarrow> Some (st\<lparr>pwriterDone := None, pmain := Got fin (Some e)\<rparr>)
          | None \<Rightarrow> if pcollector st = Returned then Some (st\<lparr>pmain := Got fin None\<rparr>) else None)
     | Got fin err \<Rightarrow> None)"

definition block_worker_step :: "pipe_env \<Rightarrow> pipe_state \<Rightarrow> nat \<Rightarrow> pipe_state option" where
  "block_worker_step E st i =
    (case pworkers st ! i of
       Receiving \<Rightarrow>
         (case pworkCh st of
            j # q \<Rightarrow>
              Some (st\<lparr>pworkCh := q, pworkers := (pworkers st)[i :=
                (case blockWorker (pipeZstd E) (wformat (pwriter st)) j of
                   Inl e \<Rightarrow> if is_panic e then Panicked e else Sending (Inl e)
                 | Inr br \<Rightarrow> Sending (Inr br))]\<rparr>)
          | [] \<Rightarrow> if pworkClosed st then Some (st\<lparr>pworkers := (pworkers st)[i := Exited]\<rparr>) else None)
     | Sending r \<Rightarrow>
         if length (presultCh st) < pipeConc E
         then Some (st\<lparr>presultCh := presultCh st @ [r],
                pworkers := (pworkers st)[i := (case r of Inl e \<Rightarrow> Exited | Inr br \<Rightarrow> Receiving)]\<rparr>)
         else None
     | Exited \<Rightarrow> None
     | Panicked e \<Rightarrow> None)"

text \<open>\<open>resultCh\<close> is closed once every worker has returned.\<close>

definition results_closed :: "pipe_state \<Rightarrow> bool" where
  "results_closed st \<longleftrightarrow> (\<forall>x \<in> set (pworkers st). x = Exited)"

definition collector_step :: "pipe_env \<Rightarrow> pipe_state \<Rightarrow> pipe_state option" where
  "collector_step E st =
    (case pcollector st of
       Collecting \<Rightarrow>
         (case presultCh st of
            [] \<Rightarrow> if results_closed st then Some (st\<lparr>pcollector := Returned\<rparr>) else None
          | Inl e # rs \<Rightarrow> Some (st\<lparr>presultCh := rs, pwriterDone := Some e, pcollector := Discarding\<rparr>)
          | Inr br # rs \<Rightarrow>
              Some (st\<lparr>presultCh := rs, ppending := (ppending st)(blockID br \<mapsto> br), pcollector := Writing\<rparr>))
     | Writing \<Rightarrow>
         (case ppending st (pnext st) of
            None \<Rightarrow> Some (st\<lparr>pcollector := Collecting\<rparr>)
          | Some br \<Rightarrow>
              (case writeBlock (pipeOs E) (pfs st) (pwriter st) (bdata br) of
                 (Some e, fs, w) \<Rightarrow>
                   Some (st\<lparr>ppending := (ppending st)(pnext st := None), pfs := fs, pwriter := w,
                     pwriterDone := Some e, pcollector := Discarding\<rparr>)
               | (None, fs, w) \<Rightarrow>
                   Some (st\<lparr>ppending := (ppending st)(pnext st := None), pfs := fs,
                     pwriter := (if bhasHash br then w\<lparr>wdigests := wdigests w @ bdigest br\<rparr> else w),
                     pnext := pnext st + 1\<rparr>)))
     | Discarding \<Rightarrow>
         (case presultCh st of
            [] \<Rightarrow> if results_closed st then Some (st\<lparr>pcollector := Returned\<rparr>) else None
          | r # rs \<Rightarrow> Some (st\<lparr>presultCh := rs\<rparr>))
     | Returned \<Rightarrow> None)"

text \<open>
  A panic of a worker ends the program. The caller may also give up between two items
  and call Close.
\<close>

definition pipe_crashed :: "pipe_state \<Rightarrow> bool" where
  "pipe_crashed st \<longleftrightarrow> (\<exists>x \<in> set (pworkers st). case x of Panicked e \<Rightarrow> True | _ \<Rightarrow> False)"

inductive pipe_step :: "pipe_env \<Rightarrow> pipe_state \<Rightarrow> pipe_state \<Rightarrow> bool" for E where
  submit: "\<not> pipe_crashed st \<Longrightarrow> submit_step E st = Some st' \<Longrightarrow> pipe_step E st st'"
| give_up: "\<not> pipe_crashed st \<Longrightarrow> pmain st = Checking js \<Longrightarrow> pipe_step E st (st\<lparr>pmain := Closing False\<rparr>)"
| work: "\<not> pipe_crashed st \<Longrightarrow> i < length (pworkers st) \<Longrightarrow> block_worker_step E st i = Some st' \<Longrightarrow> pipe_step E st st'"
| collect: "\<not> pipe_crashed st \<Longrightarrow> collector_step E st = Some st' \<Longrightarrow> pipe_step E st st'"

definition pipe_reachable :: "pipe_env \<Rightarrow> pipe_state \<Rightarrow> pipe_state \<Rightarrow> bool" where
  "pipe_reachable E = (pipe_step E)\<^sup>*\<^sup>*"


section \<open>The shape of reachable states\<close>

text \<open>
  What holds in every state, failing runs included: \<open>workCh\<close> is closed exactly when
  the caller waits, and a collector that has returned has seen every worker return.
\<close>

definition submitted :: "submitter \<Rightarrow> bool" where
  "submitted m \<longleftrightarrow> (case m of Waiting _ \<Rightarrow> True | Got _ _ \<Rightarrow> True | _ \<Rightarrow> False)"

fun pending_jobs :: "submitter \<Rightarrow> blockResult list" where
  "pending_jobs (Checking js) = js"
| "pending_jobs (Submitting j js) = j # js"
| "pending_jobs _ = []"

definition pipe_shape :: "pipe_env \<Rightarrow> RecordFormat \<Rightarrow> blockResult list \<Rightarrow> pipe_state \<Rightarrow> bool" where
  "pipe_shape E fmt jobs st \<longleftrightarrow>
    length (pworkers st) = pipeConc E \<and> pworkClosed st = submitted (pmain st) \<and>
    (pcollector st = Returned \<longrightarrow> results_closed st \<and> presultCh st = []) \<and>
    wformat (pwriter st) = fmt \<and> finite (dom (ppending st)) \<and>
    set (pworkCh st) \<union> set (pending_jobs (pmain st)) \<subseteq> set jobs"

lemma writeBlock_format: "writeBlock env fs w data = (err, fs', w') \<Longrightarrow> wformat w' = wformat w"
  by (auto simp: writeBlock_def Let_def split: prod.splits option.splits if_splits)

lemma pipe_start_shape: "pipe_shape E (wformat w) jobs (pipe_start E fs w jobs)"
  by (simp add: pipe_shape_def pipe_start_def submitted_def)

lemma submit_shape:
  "submit_step E st = Some st' \<Longrightarrow> pipe_shape E fmt jobs st \<Longrightarrow> pipe_shape E fmt jobs st'"
  by (auto simp: submit_step_def pipe_shape_def submitted_def results_closed_def
      split: submitter.splits option.splits list.splits if_splits)

lemma results_closed_worker:
  "results_closed st \<Longrightarrow> i < length (pworkers st) \<Longrightarrow> pworkers st ! i = Exited"
  by (simp add: results_closed_def)

lemma block_worker_shape:
  assumes "block_worker_step E st i = Some st'" "i < length (pworkers st)" "pipe_shape E fmt jobs st"
  shows "pipe_shape E fmt jobs st'"
proof -
  have "pcollector st \<noteq> Returned"
    using assms results_closed_worker [of st i] by (auto simp: pipe_shape_def block_worker_step_def)
  then show ?thesis
    using assms by (auto simp: block_worker_step_def pipe_shape_def
        split: worker.splits list.splits sum.splits if_splits)
qed

lemma collector_shape:
  "collector_step E st = Some st' \<Longrightarrow> pipe_shape E fmt jobs st \<Longrightarrow> pipe_shape E fmt jobs st'"
  by (auto simp: collector_step_def pipe_shape_def results_closed_def dest: writeBlock_format
      split: collector.splits list.splits sum.splits option.splits prod.splits if_splits)

lemma pipe_shape_step: "pipe_step E st st' \<Longrightarrow> pipe_shape E fmt jobs st \<Longrightarrow> pipe_shape E fmt jobs st'"
proof (induction rule: pipe_step.induct)
  case (give_up st js) then show ?case by (auto simp: pipe_shape_def submitted_def results_closed_def)
qed (blast intro: submit_shape block_worker_shape collector_shape)+

lemma pipe_reachable_induct [consumes 1, case_names start step]:
  assumes "pipe_reachable E st st'" "P st"
    and "\<And>s s'. pipe_step E s s' \<Longrightarrow> P s \<Longrightarrow> P s'"
  shows "P st'"
  using assms(1) unfolding pipe_reachable_def
  by (induction rule: rtranclp_induct) (use assms(2,3) in blast)+

lemma pipe_reachable_shape:
  assumes "pipe_reachable E (pipe_start E fs w jobs) st"
  shows "pipe_shape E (wformat w) jobs st"
  using assms by (induction rule: pipe_reachable_induct) (auto intro: pipe_start_shape pipe_shape_step)

section \<open>Termination\<close>

text \<open>Every step lowers this weight, so a run has at most as many steps as its start weighs.\<close>

fun submitter_weight :: "submitter \<Rightarrow> nat" where
  "submitter_weight (Checking js) = 10 * length js + 6"
| "submitter_weight (Submitting j js) = 10 * length js + 15"
| "submitter_weight (Closing fin) = 4"
| "submitter_weight (Waiting fin) = 3"
| "submitter_weight (Got fin err) = 0"

fun worker_weight :: "worker \<Rightarrow> nat" where
  "worker_weight Receiving = 1"
| "worker_weight (Sending r) = 5"
| "worker_weight _ = 0"

fun collector_weight :: "collector \<Rightarrow> nat" where
  "collector_weight Collecting = 1"
| "collector_weight Writing = 2"
| "collector_weight Discarding = 1"
| "collector_weight Returned = 0"

definition pipe_measure :: "pipe_state \<Rightarrow> nat" where
  "pipe_measure st = submitter_weight (pmain st) + 5 * length (pworkCh st) +
    sum_list (map worker_weight (pworkers st)) + 3 * length (presultCh st) +
    collector_weight (pcollector st) + card (dom (ppending st))"

lemma sum_list_map_update:
  fixes f :: "'a \<Rightarrow> 'b::comm_monoid_add"
  assumes "i < length xs"
  shows "sum_list (map f (xs[i := y])) + f (xs ! i) = sum_list (map f xs) + f y"
  using assms
proof (induction xs arbitrary: i)
  case (Cons x xs)
  show ?case
  proof (cases i)
    case (Suc j)
    with Cons.IH [of j] Cons.prems show ?thesis by (simp add: add.assoc)
  qed (simp add: ac_simps)
qed simp

lemma submit_measure: "submit_step E st = Some st' \<Longrightarrow> pipe_measure st' < pipe_measure st"
  by (auto simp: submit_step_def pipe_measure_def split: submitter.splits option.splits list.splits if_splits)

lemma block_worker_measure:
  assumes "block_worker_step E st i = Some st'" "i < length (pworkers st)"
  shows "pipe_measure st' < pipe_measure st"
proof -
  have sum: "sum_list (map worker_weight ((pworkers st)[i := y])) =
      sum_list (map worker_weight (pworkers st)) + worker_weight y - worker_weight (pworkers st ! i)" for y
    using sum_list_map_update [OF assms(2), of worker_weight y] by simp
  have le: "worker_weight (pworkers st ! i) \<le> sum_list (map worker_weight (pworkers st))"
    using elem_le_sum_list [of i "map worker_weight (pworkers st)"] assms(2) by simp
  show ?thesis
    using assms(1) le
    by (cases "pworkers st ! i")
      (auto simp: block_worker_step_def pipe_measure_def sum split: list.splits sum.splits if_splits)
qed

lemma collector_measure:
  assumes "collector_step E st = Some st'" "finite (dom (ppending st))"
  shows "pipe_measure st' < pipe_measure st"
proof (cases "pcollector st")
  case Collecting
  have ins: "card (insert x (dom (ppending st))) \<le> Suc (card (dom (ppending st)))" for x
    by (simp add: assms(2) card_insert_if)
  show ?thesis
  proof (cases "presultCh st")
    case (Cons r rs)
    show ?thesis
    proof (cases r)
      case (Inr br)
      with assms Collecting Cons ins [of "blockID br"] show ?thesis
        by (auto simp: collector_step_def pipe_measure_def)
    qed (use assms Collecting Cons in \<open>auto simp: collector_step_def pipe_measure_def\<close>)
  qed (use assms Collecting in \<open>auto simp: collector_step_def pipe_measure_def split: if_splits\<close>)
next
  case Writing
  have del: "card (dom (ppending st) - {x}) < card (dom (ppending st))" if "ppending st x = Some br" for x br
    using that by (intro psubset_card_mono assms(2)) auto
  show ?thesis
    using assms(1) Writing
    by (auto simp: collector_step_def pipe_measure_def split: option.splits prod.splits dest!: del)
qed (use assms in \<open>auto simp: collector_step_def pipe_measure_def split: list.splits if_splits\<close>)

lemma pipe_step_measure:
  assumes "pipe_step E st st'" "pipe_shape E fmt jobs st"
  shows "pipe_measure st' < pipe_measure st"
  using assms
proof (cases rule: pipe_step.cases)
  case (give_up js)
  then show ?thesis by (simp add: pipe_measure_def)
qed (use assms(2) in \<open>auto simp: pipe_shape_def intro: submit_measure block_worker_measure collector_measure\<close>)

lemma pipe_run_bounded:
  assumes "pipe_reachable E (pipe_start E fs w jobs) st" "(pipe_step E ^^ n) st st'"
  shows "n \<le> pipe_measure st"
  using assms(2)
proof (induction n arbitrary: st')
  case (Suc n)
  have shape: "pipe_shape E (wformat w) jobs x" if "(pipe_step E ^^ m) st x" for m x
    using that pipe_reachable_shape [OF assms(1)]
    by (induction m arbitrary: x) (auto intro: pipe_shape_step)
  have "n + pipe_measure st' \<le> pipe_measure st" if "(pipe_step E ^^ n) st st'" for n st'
    using that
  proof (induction n arbitrary: st')
    case (Suc n)
    then obtain m where m: "(pipe_step E ^^ n) st m" "pipe_step E m st'" by auto
    from Suc.IH [OF m(1)] pipe_step_measure [OF m(2) shape [OF m(1)]] show ?case by simp
  qed simp
  from this [OF Suc.prems] show ?case by simp
qed simp

section \<open>No deadlock\<close>

text \<open>
  A state in which nothing can move and the caller is not done is one in which every
  worker has returned and the caller blocks on a full \<open>workCh\<close>.
\<close>

definition pipe_stuck :: "pipe_state \<Rightarrow> bool" where
  "pipe_stuck st \<longleftrightarrow> (\<exists>j js. pmain st = Submitting j js) \<and> results_closed st"

lemma worker_blocked:
  assumes "block_worker_step E st i = None" "\<not> pipe_crashed st" "i < length (pworkers st)"
  shows "pworkers st ! i = Exited \<or>
    (pworkers st ! i = Receiving \<and> pworkCh st = [] \<and> \<not> pworkClosed st) \<or>
    (\<exists>r. pworkers st ! i = Sending r \<and> pipeConc E \<le> length (presultCh st))"
  using assms nth_mem [OF assms(3)]
  by (cases "pworkers st ! i")
    (auto simp: block_worker_step_def pipe_crashed_def split: list.splits if_splits dest: bspec)

lemma collector_blocked:
  "collector_step E st = None \<Longrightarrow> pcollector st = Returned \<or> (presultCh st = [] \<and> \<not> results_closed st)"
  by (auto simp: collector_step_def split: collector.splits list.splits sum.splits option.splits prod.splits if_splits)

lemma pipe_progress:
  assumes "pipe_shape E fmt jobs st" "0 < pipeConc E" "\<not> pipe_crashed st"
    and "\<And>fin err. pmain st \<noteq> Got fin err" and "\<And>st'. \<not> pipe_step E st st'"
  shows "pipe_stuck st"
proof -
  have blocked: "submit_step E st = None" "collector_step E st = None"
    "i < length (pworkers st) \<Longrightarrow> block_worker_step E st i = None" for i
    using assms(3,5) pipe_step.intros by (metis not_Some_eq)+
  have no_send: "\<not> (\<exists>r. pworkers st ! i = Sending r)" if "i < length (pworkers st)" for i
  proof
    assume s: "\<exists>r. pworkers st ! i = Sending r"
    with worker_blocked [OF blocked(3) [OF that] assms(3) that] have "presultCh st \<noteq> []" using assms(2) by auto
    with collector_blocked [OF blocked(2)] assms(1) have "results_closed st" by (auto simp: pipe_shape_def)
    with s show False using results_closed_worker [OF _ that] by auto
  qed
  from blocked(1) assms(4) consider j js where "pmain st = Submitting j js" "pipeConc E \<le> length (pworkCh st)"
    | fin where "pmain st = Waiting fin" "pwriterDone st = None" "pcollector st \<noteq> Returned"
    by (auto simp: submit_step_def split: submitter.splits option.splits list.splits if_splits)
  then show ?thesis
  proof cases
    case 1
    then have "pworkCh st \<noteq> []" using assms(2) by auto
    then have "results_closed st"
      unfolding results_closed_def all_set_conv_all_nth
      using worker_blocked [OF blocked(3) assms(3)] no_send by blast
    with 1 show ?thesis by (auto simp: pipe_stuck_def)
  next
    case 2
    then have "pworkClosed st" using assms(1) by (simp add: pipe_shape_def submitted_def)
    then have "results_closed st"
      unfolding results_closed_def all_set_conv_all_nth
      using worker_blocked [OF blocked(3) assms(3)] no_send by blast
    with 2 collector_blocked [OF blocked(2)] show ?thesis by simp
  qed
qed

text \<open>When every block can be processed, workers only return once \<open>workCh\<close> is closed.\<close>

definition processable :: "pipe_env \<Rightarrow> RecordFormat \<Rightarrow> blockResult list \<Rightarrow> bool" where
  "processable E fmt jobs \<longleftrightarrow> (\<forall>j \<in> set jobs. \<exists>br. blockWorker (pipeZstd E) fmt j = Inr br)"

definition workers_fine :: "pipe_state \<Rightarrow> bool" where
  "workers_fine st \<longleftrightarrow> (\<forall>x \<in> set (pworkers st). (\<forall>e. x \<noteq> Sending (Inl e) \<and> x \<noteq> Panicked e) \<and>
    (x = Exited \<longrightarrow> pworkClosed st))"

lemma workers_fine_worker:
  assumes "block_worker_step E st i = Some st'" "i < length (pworkers st)" "pipe_shape E fmt jobs st"
    "processable E fmt jobs" "workers_fine st"
  shows "workers_fine st'"
proof -
  have ok: "\<exists>br. blockWorker (pipeZstd E) (wformat (pwriter st)) j = Inr br" if "j \<in> set (pworkCh st)" for j
    using that assms(3,4) by (auto simp: pipe_shape_def processable_def)
  have at: "\<forall>e. pworkers st ! i \<noteq> Sending (Inl e)"
    using assms(2,5) nth_mem by (fastforce simp: workers_fine_def)
  have upd: "workers_fine st'" if "pworkers st' = (pworkers st)[i := x]" "pworkClosed st' = pworkClosed st"
    "\<forall>e. x \<noteq> Sending (Inl e) \<and> x \<noteq> Panicked e" "x = Exited \<longrightarrow> pworkClosed st" for x
    using that assms(5) by (auto simp: workers_fine_def dest!: subsetD [OF set_update_subset_insert])
  show ?thesis
  proof (cases "pworkers st ! i")
    case Receiving
    show ?thesis
    proof (cases "pworkCh st")
      case (Cons j q)
      with ok [of j] obtain br where "blockWorker (pipeZstd E) (wformat (pwriter st)) j = Inr br" by auto
      then show ?thesis
        using assms(1) Receiving Cons upd by (auto simp: block_worker_step_def)
    qed (use assms(1) Receiving upd in \<open>auto simp: block_worker_step_def split: if_splits\<close>)
  next
    case (Sending r)
    then show ?thesis
      using assms(1) at upd by (cases r) (auto simp: block_worker_step_def split: if_splits)
  qed (use assms(1) in \<open>auto simp: block_worker_step_def\<close>)
qed


lemma workers_fine_step:
  assumes "pipe_step E st st'" "pipe_shape E fmt jobs st" "processable E fmt jobs" "workers_fine st"
  shows "workers_fine st'"
  using assms(1)
proof (cases rule: pipe_step.cases)
  case submit
  then have "pworkers st' = pworkers st" "pworkClosed st \<longrightarrow> pworkClosed st'"
    by (auto simp: submit_step_def split: submitter.splits option.splits list.splits if_splits)
  then show ?thesis using assms(4) by (auto simp: workers_fine_def)
next
  case collect
  then have "pworkers st' = pworkers st" "pworkClosed st' = pworkClosed st"
    by (auto simp: collector_step_def
        split: collector.splits list.splits sum.splits option.splits prod.splits if_splits)
  then show ?thesis using assms(4) by (auto simp: workers_fine_def)
next
  case (work i)
  show ?thesis by (rule workers_fine_worker [OF work(3,2) assms(2-4)])
qed (use assms(4) in \<open>simp add: workers_fine_def\<close>)

lemma pipe_reachable_fine:
  assumes "pipe_reachable E (pipe_start E fs w jobs) st" "processable E (wformat w) jobs"
  shows "workers_fine st"
proof -
  have "pipe_shape E (wformat w) jobs st \<and> workers_fine st"
    using assms(1)
  proof (induction rule: pipe_reachable_induct)
    case start
    have "workers_fine (pipe_start E fs w jobs)" by (simp add: workers_fine_def pipe_start_def)
    then show ?case by (simp add: pipe_start_shape)
  next
    case (step s s')
    then show ?case using assms(2) by (blast intro: pipe_shape_step workers_fine_step)
  qed
  then show ?thesis ..
qed

text \<open>A pipeline whose blocks can be processed returns in every schedule.\<close>

lemma pipe_no_deadlock:
  assumes "pipe_reachable E (pipe_start E fs w jobs) st" "processable E (wformat w) jobs" "0 < pipeConc E"
    and "\<And>st'. \<not> pipe_step E st st'"
  shows "\<exists>fin err. pmain st = Got fin err"
proof (rule ccontr)
  assume not: "\<not> ?thesis"
  note shape = pipe_reachable_shape [OF assms(1)] and fine = pipe_reachable_fine [OF assms(1,2)]
  have "\<not> pipe_crashed st" using fine by (auto simp: workers_fine_def pipe_crashed_def split: worker.splits)
  from pipe_progress [OF shape assms(3) this _ assms(4)] not
  have stuck: "results_closed st" "\<not> pworkClosed st"
    using shape by (auto simp: pipe_stuck_def pipe_shape_def submitted_def)
  have "0 < length (pworkers st)" using shape assms(3) by (simp add: pipe_shape_def)
  with results_closed_worker [OF stuck(1)] have "Exited \<in> set (pworkers st)" by (metis nth_mem)
  then show False using fine stuck(2) nth_mem by (fastforce simp: workers_fine_def)
qed

section \<open>Every block once, in order\<close>

text \<open>The blocks between the caller and the collector, by their ids.\<close>

fun result_ids :: "pf_error + blockResult \<Rightarrow> uint32 multiset" where
  "result_ids (Inr br) = {#blockID br#}"
| "result_ids (Inl e) = {#}"

fun worker_ids :: "worker \<Rightarrow> uint32 multiset" where
  "worker_ids (Sending r) = result_ids r"
| "worker_ids _ = {#}"

definition flying :: "pipe_state \<Rightarrow> uint32 multiset" where
  "flying st = mset (map blockID (pworkCh st)) + sum_list (map worker_ids (pworkers st)) +
    sum_list (map result_ids (presultCh st))"

text \<open>The results under way: in a worker, on \<open>resultCh\<close>, or waiting for their turn.\<close>

definition results :: "pipe_state \<Rightarrow> (pf_error + blockResult) set" where
  "results st = {r. Sending r \<in> set (pworkers st)} \<union> set (presultCh st) \<union> Inr ` ran (ppending st)"

definition ids :: "nat \<Rightarrow> nat \<Rightarrow> uint32 multiset" where
  "ids k s = mset_set (of_nat ` {k..<s})"

definition job_ids :: "blockResult list \<Rightarrow> bool" where
  "job_ids jobs \<longleftrightarrow> length jobs \<le> 2 ^ 32 \<and> (\<forall>i < length jobs. blockID (jobs ! i) = of_nat i)"

definition genuine_block :: "pipe_env \<Rightarrow> RecordFormat \<Rightarrow> blockResult list \<Rightarrow> blockResult \<Rightarrow> bool" where
  "genuine_block E fmt jobs br \<longleftrightarrow>
    (\<exists>i < length jobs. blockID br = of_nat i \<and> blockWorker (pipeZstd E) fmt (jobs ! i) = Inr br)"

definition submitter_ok :: "blockResult list \<Rightarrow> nat \<Rightarrow> submitter \<Rightarrow> bool" where
  "submitter_ok jobs s m \<longleftrightarrow>
    (case m of
       Checking js \<Rightarrow> js = drop s jobs
     | Submitting j js \<Rightarrow> j # js = drop s jobs
     | Closing fin \<Rightarrow> fin \<longrightarrow> s = length jobs
     | Waiting fin \<Rightarrow> fin \<longrightarrow> s = length jobs
     | Got fin err \<Rightarrow> (fin \<longrightarrow> s = length jobs) \<and> err = None)"

definition pipe_clean ::
  "pipe_env \<Rightarrow> fs \<Rightarrow> Writer \<Rightarrow> blockResult list \<Rightarrow> nat \<Rightarrow> nat \<Rightarrow> pipe_state \<Rightarrow> bool" where
  "pipe_clean E fs w jobs k s st \<longleftrightarrow>
    k \<le> s \<and> s \<le> length jobs \<and> pnext st = of_nat k \<and> submitter_ok jobs s (pmain st) \<and>
    drain (pipeOs E) (pipeZstd E) fs w (take k jobs) = (None, pfs st, pwriter st) \<and>
    flying st + mset_set (dom (ppending st)) = ids k s \<and>
    (\<forall>r \<in> results st. \<exists>br. r = Inr br \<and> genuine_block E (wformat w) jobs br) \<and>
    (\<forall>i br. ppending st i = Some br \<longrightarrow> blockID br = i) \<and>
    (pcollector st = Collecting \<or> pcollector st = Returned \<longrightarrow> ppending st (of_nat k) = None) \<and>
    (Exited \<in> set (pworkers st) \<longrightarrow> pworkCh st = [] \<and> pworkClosed st) \<and>
    pwriterDone st = None \<and> pcollector st \<noteq> Discarding \<and>
    (\<forall>fin err. pmain st = Got fin err \<longrightarrow> pcollector st = Returned)"

text \<open>Once an error is under way, the caller cannot be told that all is well.\<close>

definition pipe_failed :: "pipe_state \<Rightarrow> bool" where
  "pipe_failed st \<longleftrightarrow> (\<forall>fin. pmain st \<noteq> Got fin None) \<and>
    (pwriterDone st \<noteq> None \<or> (\<exists>fin e. pmain st = Got fin (Some e)) \<or>
      ((pcollector st = Collecting \<or> pcollector st = Writing) \<and> (\<exists>e. Inl e \<in> results st)))"

lemma of_nat_inj32: "i < 2 ^ 32 \<Longrightarrow> j < 2 ^ 32 \<Longrightarrow> (of_nat i :: uint32) = of_nat j \<longleftrightarrow> i = j"
  by (auto simp: of_nat_inverse dest!: arg_cong [where f = unat] simp: unat_of_nat take_bit_nat_eq_self)

lemma ids_inj: "s \<le> 2 ^ 32 \<Longrightarrow> inj_on (of_nat :: nat \<Rightarrow> uint32) {k..<s}"
  by (intro inj_onI) (auto simp: of_nat_inj32)

lemma ids_snoc: "k \<le> s \<Longrightarrow> s < 2 ^ 32 \<Longrightarrow> ids k (Suc s) = add_mset (of_nat s) (ids k s)"
  by (simp add: ids_def atLeastLessThanSuc image_insert)
    (subst mset_set.insert, auto simp: of_nat_inj32)

lemma ids_cons:
  assumes "k < s" "s \<le> 2 ^ 32"
  shows "ids k s = add_mset (of_nat k) (ids (Suc k) s)"
proof -
  have "{k..<s} = insert k {Suc k..<s}" using assms(1) by auto
  moreover have "(of_nat k :: uint32) \<notin> of_nat ` {Suc k..<s}" using assms by (auto simp: of_nat_inj32)
  ultimately show ?thesis by (simp add: ids_def)
qed

lemma drain_snoc:
  "drain env z fs w js = (None, fs', w') \<Longrightarrow> drain env z fs w (js @ [j]) = drain env z fs' w' [j]"
  by (induction js arbitrary: fs w) (auto split: sum.splits prod.splits option.splits)

lemma drain_format: "drain env z fs w js = (err, fs', w') \<Longrightarrow> wformat w' = wformat w"
  by (induction js arbitrary: fs w)
    (auto split: sum.splits prod.splits option.splits if_splits dest!: writeBlock_format)

lemma blockWorker_id: "blockWorker z fmt j = Inr br \<Longrightarrow> blockID br = blockID j"
  by (auto simp: blockWorker_def Let_def split: sum.splits option.splits RecordFormat.splits)

subsection \<open>Steps keep the invariant\<close>

lemma job_ids_small: "job_ids jobs \<Longrightarrow> s \<le> length jobs \<Longrightarrow> s \<le> 2 ^ 32"
  by (simp add: job_ids_def)

lemma sum_list_no_ids [simp]: "sum_list (replicate n ({#} :: 'a multiset)) = {#}"
  by (induction n) simp_all

lemma pipe_start_clean: "pipe_clean E fs w jobs 0 0 (pipe_start E fs w jobs)"
  by (simp add: pipe_clean_def pipe_start_def submitter_ok_def flying_def ids_def results_def)

lemma drop_Cons: "j # js = drop s jobs \<Longrightarrow> s < length jobs \<and> j = jobs ! s \<and> js = drop (Suc s) jobs"
proof -
  assume a: "j # js = drop s jobs"
  then have "s < length jobs" by (metis drop_eq_Nil list.distinct(1) not_le)
  with a show ?thesis by (simp add: Cons_nth_drop_Suc [symmetric])
qed

lemma pipe_clean_submitter:
  "pipe_clean E fs w jobs k s st \<Longrightarrow> submitter_ok jobs s (pmain st) \<and> k \<le> s \<and> s \<le> length jobs \<and>
    pwriterDone st = None"
  by (simp only: pipe_clean_def)

lemma pipe_clean_main:
  assumes "pipe_clean E fs w jobs k s st" "submitter_ok jobs s m" "pworkClosed st \<longrightarrow> c"
    "\<forall>fin err. m = Got fin err \<longrightarrow> pcollector st = Returned"
  shows "pipe_clean E fs w jobs k s (st\<lparr>pworkClosed := c, pmain := m\<rparr>)"
proof -
  have "flying (st\<lparr>pworkClosed := c, pmain := m\<rparr>) = flying st"
    "results (st\<lparr>pworkClosed := c, pmain := m\<rparr>) = results st"
    by (simp_all add: flying_def results_def)
  with assms show ?thesis by (simp add: pipe_clean_def)
qed

lemmas pipe_clean_main_only =
  pipe_clean_main [where c = "pworkClosed st" and st = st for st, simplified]

lemma submit_clean:
  assumes "submit_step E st = Some st'" "pipe_clean E fs w jobs k s st" "pipe_shape E fmt jobs st"
    "job_ids jobs"
  shows "\<exists>s'. pipe_clean E fs w jobs k s' st'"
proof -
  note sub = pipe_clean_submitter [OF assms(2)]
  show ?thesis
  proof (cases "pmain st")
    case (Checking js)
    then have js: "js = drop s jobs" "s \<le> length jobs"
      using sub by (auto simp: submitter_ok_def)
    obtain m where m: "st' = st\<lparr>pmain := m\<rparr>"
        "m = Closing False \<or> m = (case js of [] \<Rightarrow> Closing True | j # js \<Rightarrow> Submitting j js)"
      using assms(1) Checking by (auto simp: submit_step_def split: option.splits)
    then have "submitter_ok jobs s m" "\<forall>fin err. m \<noteq> Got fin err"
      using js by (auto simp: submitter_ok_def split: list.splits)
    with pipe_clean_main_only [OF assms(2)] m(1) show ?thesis by blast
  next
    case (Submitting j js)
    then have s: "j = jobs ! s" "s < length jobs" "js = drop (Suc s) jobs"
      using sub drop_Cons [of j js s jobs] by (simp_all add: submitter_ok_def)
    let ?m = "if js = [] \<and> pipePartial E then Closing True else Checking js"
    let ?st = "st\<lparr>pworkCh := pworkCh st @ [j]\<rparr>"
    have st': "st' = ?st\<lparr>pmain := ?m\<rparr>"
      using assms(1) Submitting by (auto simp: submit_step_def split: if_splits)
    have "blockID j = of_nat s" using assms(4) s by (simp add: job_ids_def)
    moreover have "ids k (Suc s) = add_mset (of_nat s) (ids k s)"
      using sub assms(4) s job_ids_small [of jobs "Suc s"] by (intro ids_snoc) auto
    ultimately have fly: "flying (?st\<lparr>pmain := ?m\<rparr>) = add_mset (of_nat s) (flying st)"
      "ids k (Suc s) = add_mset (of_nat s) (ids k s)" "results (?st\<lparr>pmain := ?m\<rparr>) = results st"
      by (simp_all add: flying_def results_def)
    have "\<not> pworkClosed st" using assms(3) Submitting by (simp add: pipe_shape_def submitted_def)
    then have "Exited \<notin> set (pworkers st)" using assms(2) by (simp add: pipe_clean_def)
    moreover have "submitter_ok jobs (Suc s) ?m" "\<forall>fin err. ?m \<noteq> Got fin err"
      using s by (auto simp: submitter_ok_def)
    ultimately have "pipe_clean E fs w jobs k (Suc s) st'"
      using assms(2) s fly unfolding st' pipe_clean_def by simp
    then show ?thesis ..
  next
    case (Closing fin)
    then have "st' = st\<lparr>pworkClosed := True, pmain := Waiting fin\<rparr>" "submitter_ok jobs s (Waiting fin)"
      using assms(1) sub by (auto simp: submit_step_def submitter_ok_def)
    with pipe_clean_main [OF assms(2), of "Waiting fin" True] show ?thesis by auto
  next
    case (Waiting fin)
    then have "st' = st\<lparr>pmain := Got fin None\<rparr>" "submitter_ok jobs s (Got fin None)" "pcollector st = Returned"
      using assms(1) sub by (auto simp: submit_step_def submitter_ok_def split: if_splits)
    with pipe_clean_main_only [OF assms(2)] show ?thesis by blast
  qed (use assms(1) in \<open>simp add: submit_step_def\<close>)
qed

text \<open>A step of a worker moves at most one block.\<close>

lemma pipe_clean_worker:
  assumes "pipe_clean E fs w jobs k s st" "i < length (pworkers st)"
    and "mset (map blockID q) + worker_ids x + sum_list (map result_ids rs) =
      mset (map blockID (pworkCh st)) + worker_ids (pworkers st ! i) + sum_list (map result_ids (presultCh st))"
    and "\<And>r. x = Sending r \<or> r \<in> set rs \<Longrightarrow> r \<in> results st \<or> (\<exists>br. r = Inr br \<and> genuine_block E (wformat w) jobs br)"
    and "x = Exited \<or> Exited \<in> set (pworkers st) \<Longrightarrow> q = [] \<and> pworkClosed st"
  shows "pipe_clean E fs w jobs k s
    (st\<lparr>pworkCh := q, pworkers := (pworkers st)[i := x], presultCh := rs\<rparr>)" (is "pipe_clean _ _ _ _ _ _ ?st")
proof -
  let ?sum = "\<lambda>ws. sum_list (map worker_ids ws)"
  have "?sum ((pworkers st)[i := x]) + worker_ids (pworkers st ! i) = ?sum (pworkers st) + worker_ids x"
    by (rule sum_list_map_update [OF assms(2)])
  then have "flying ?st + worker_ids (pworkers st ! i) =
      (mset (map blockID q) + worker_ids x + sum_list (map result_ids rs)) + ?sum (pworkers st)"
    by (simp add: flying_def add.assoc add.left_commute)
  also have "\<dots> = flying st + worker_ids (pworkers st ! i)"
    unfolding assms(3) by (simp add: flying_def add.assoc add.left_commute add.commute)
  finally have fly: "flying ?st = flying st" by simp
  have upd: "y = x \<or> y \<in> set (pworkers st)" if "y \<in> set ((pworkers st)[i := x])" for y
    using that set_update_subset_insert [of "pworkers st" i x] by blast
  have res: "\<exists>br. r = Inr br \<and> genuine_block E (wformat w) jobs br" if "r \<in> results ?st" for r
  proof -
    have "r \<in> results st \<or> x = Sending r \<or> r \<in> set rs"
      using that upd by (auto simp: results_def)
    with assms(4) have "r \<in> results st \<or> (\<exists>br. r = Inr br \<and> genuine_block E (wformat w) jobs br)" by blast
    with assms(1) show ?thesis by (auto simp: pipe_clean_def)
  qed
  have "Exited \<in> set ((pworkers st)[i := x]) \<longrightarrow> q = [] \<and> pworkClosed st" using upd assms(5) by blast
  with assms(1) fly res show ?thesis unfolding pipe_clean_def by simp
qed

lemma pipe_clean_open:
  assumes "pipe_clean E fs w jobs k s st" "pipe_shape E fmt jobs st" "i < length (pworkers st)"
    "pworkers st ! i \<noteq> Exited"
  shows "pcollector st = Collecting \<or> pcollector st = Writing" "pmain st \<noteq> Got fin err"
proof -
  have "\<not> results_closed st" using assms(3,4) results_closed_worker by blast
  then have r: "pcollector st \<noteq> Returned" using assms(2) by (auto simp: pipe_shape_def)
  with assms(1) show "pcollector st = Collecting \<or> pcollector st = Writing"
    by (cases "pcollector st") (simp_all add: pipe_clean_def)
  from r assms(1) show "pmain st \<noteq> Got fin err" by (auto simp: pipe_clean_def)
qed

lemma block_worker_clean:
  assumes "block_worker_step E st i = Some st'" "i < length (pworkers st)"
    "pipe_clean E fs w jobs k s st" "pipe_shape E (wformat w) jobs st" "job_ids jobs"
  shows "pipe_clean E fs w jobs k s st' \<or> pipe_failed st' \<or> pipe_crashed st'"
proof (cases "pworkers st ! i")
  case Receiving
  note op = pipe_clean_open [OF assms(3,4,2)]
  note move = pipe_clean_worker [OF assms(3,2), where rs = "presultCh st", simplified]
  have fmt: "wformat (pwriter st) = wformat w" using assms(4) by (simp add: pipe_shape_def)
  show ?thesis
  proof (cases "pworkCh st")
    case (Cons j q)
    have "j \<in> set jobs" using assms(4) Cons by (simp add: pipe_shape_def)
    then obtain n where n: "n < length jobs" "j = jobs ! n" by (auto simp: in_set_conv_nth)
    with assms(5) have id: "blockID j = of_nat n" by (simp add: job_ids_def)
    have alive: "Exited \<notin> set (pworkers st)" using assms(3) Cons by (auto simp: pipe_clean_def)
    show ?thesis
    proof (cases "blockWorker (pipeZstd E) (wformat w) j")
      case (Inr br)
      then have st': "st' = st\<lparr>pworkCh := q, pworkers := (pworkers st)[i := Sending (Inr br)]\<rparr>"
        using assms(1) Receiving Cons fmt by (simp add: block_worker_step_def)
      have "blockID br = of_nat n" using blockWorker_id [OF Inr] id by simp
      then have "genuine_block E (wformat w) jobs br" using n Inr by (auto simp: genuine_block_def)
      then show ?thesis
        using move [of q "Sending (Inr br)"] Receiving Cons alive blockWorker_id [OF Inr] st'
        by (auto simp: results_def)
    next
      case (Inl e)
      show ?thesis
      proof (cases "is_panic e")
        case True
        then have "Panicked e \<in> set (pworkers st')"
          using assms(1,2) Receiving Cons fmt Inl by (auto simp: block_worker_step_def set_update_memI)
        then show ?thesis by (force simp: pipe_crashed_def)
      next
        case False
        then have st': "st' = st\<lparr>pworkCh := q, pworkers := (pworkers st)[i := Sending (Inl e)]\<rparr>"
          using assms(1) Receiving Cons fmt Inl by (simp add: block_worker_step_def)
        then have "Inl e \<in> results st'" using assms(2) by (simp add: results_def set_update_memI)
        then show ?thesis using op Receiving st' by (auto simp: pipe_failed_def)
      qed
    qed
  next
    case Nil
    then have st': "st' = st\<lparr>pworkers := (pworkers st)[i := Exited]\<rparr>" "pworkClosed st"
      using assms(1) Receiving by (auto simp: block_worker_step_def split: if_splits)
    have "pipe_clean E fs w jobs k s (st\<lparr>pworkCh := pworkCh st, pworkers := (pworkers st)[i := Exited]\<rparr>)"
      using Receiving Nil st'(2) by (intro move) (auto simp: results_def)
    then show ?thesis by (simp add: st'(1))
  qed
next
  case (Sending r)
  then have "r \<in> results st" using assms(2) nth_mem by (fastforce simp: results_def)
  with assms(3) obtain br where br: "r = Inr br" "genuine_block E (wformat w) jobs br"
    by (auto simp: pipe_clean_def)
  then have st': "st' = st\<lparr>pworkers := (pworkers st)[i := Receiving], presultCh := presultCh st @ [r]\<rparr>"
    using assms(1) Sending by (auto simp: block_worker_step_def split: if_splits)
  have "Exited \<in> set (pworkers st) \<Longrightarrow> pworkCh st = [] \<and> pworkClosed st"
    using assms(3) by (simp add: pipe_clean_def)
  then have "pipe_clean E fs w jobs k s (st\<lparr>pworkCh := pworkCh st, pworkers := (pworkers st)[i := Receiving],
      presultCh := presultCh st @ [r]\<rparr>)"
    using Sending br by (intro pipe_clean_worker assms(2,3)) (auto simp: results_def)
  then show ?thesis by (simp add: st')
qed (use assms(1) in \<open>simp_all add: block_worker_step_def\<close>)

lemma count_ids: "count (ids k s) x \<le> 1"
  by (simp add: ids_def count_mset_set')

lemma collect_result_clean:
  assumes "pipe_clean E fs w jobs k s st" "finite (dom (ppending st))" "presultCh st = Inr br # rs"
    "pcollector st = Collecting"
  shows "pipe_clean E fs w jobs k s
    (st\<lparr>presultCh := rs, ppending := (ppending st)(blockID br \<mapsto> br), pcollector := Writing\<rparr>)"
    (is "pipe_clean _ _ _ _ _ _ ?st")
proof -
  have fly: "flying st = add_mset (blockID br) (flying ?st)" using assms(3) by (simp add: flying_def)
  have eq: "flying st + mset_set (dom (ppending st)) = ids k s" using assms(1) by (simp add: pipe_clean_def)
  have "count (flying st + mset_set (dom (ppending st))) (blockID br) \<le> 1" unfolding eq by (rule count_ids)
  then have "blockID br \<notin> dom (ppending st)" using assms(2) fly by (auto simp: count_mset_set' split: if_splits)
  then have "flying ?st + mset_set (dom (ppending ?st)) = ids k s" using assms(2) eq fly by simp
  moreover have "Inr br \<in> results st" using assms(3) by (simp add: results_def)
  then have "results ?st \<subseteq> results st"
    using assms(3) by (auto simp: results_def ran_def split: if_splits)
  ultimately show ?thesis
    using assms(1,4) unfolding pipe_clean_def by (auto split: if_splits)
qed

lemma collect_write_clean:
  assumes "pipe_clean E fs w jobs k s st" "finite (dom (ppending st))" "job_ids jobs"
    "ppending st (pnext st) = Some br" "pcollector st = Writing"
    "writeBlock (pipeOs E) (pfs st) (pwriter st) (bdata br) = (None, fs', w')"
  shows "pipe_clean E fs w jobs (Suc k) s (st\<lparr>ppending := (ppending st)(pnext st := None), pfs := fs',
    pwriter := (if bhasHash br then w'\<lparr>wdigests := wdigests w' @ bdigest br\<rparr> else w'), pnext := pnext st + 1\<rparr>)"
    (is "pipe_clean _ _ _ _ _ _ ?st")
proof -
  have k: "pnext st = of_nat k" "k \<le> s" "s \<le> length jobs" "blockID br = pnext st"
    and eq: "flying st + mset_set (dom (ppending st)) = ids k s"
    and run: "drain (pipeOs E) (pipeZstd E) fs w (take k jobs) = (None, pfs st, pwriter st)"
    using assms(1,4) by (simp_all add: pipe_clean_def)
  have small: "s \<le> 2 ^ 32" "length jobs \<le> 2 ^ 32" using assms(3) k(3) by (simp_all add: job_ids_def)
  have "of_nat k \<in># flying st + mset_set (dom (ppending st))" using assms(2,4) k(1) by auto
  then have "of_nat k \<in># ids k s" unfolding eq .
  then obtain m where "k \<le> m" "m < s" "(of_nat k :: uint32) = of_nat m" by (auto simp: ids_def)
  with small have lt: "k < s" using of_nat_inj32 [of k m] by simp
  have "Inr br \<in> results st" using assms(4) by (auto simp: results_def intro: ranI)
  with assms(1) obtain i where i: "i < length jobs" "blockID br = of_nat i"
      "blockWorker (pipeZstd E) (wformat w) (jobs ! i) = Inr br"
    by (auto simp: pipe_clean_def genuine_block_def)
  with k(1,4) lt k(3) small have "i = k" by (simp add: of_nat_inj32)
  with i(3) drain_format [OF run] have "blockWorker (pipeZstd E) (wformat (pwriter st)) (jobs ! k) = Inr br" by simp
  moreover have "take (Suc k) jobs = take k jobs @ [jobs ! k]" using lt k(3) by (simp add: take_Suc_conv_app_nth)
  ultimately have run': "drain (pipeOs E) (pipeZstd E) fs w (take (Suc k) jobs) = (None, pfs ?st, pwriter ?st)"
    using drain_snoc [OF run] assms(6) by simp
  have "dom (ppending ?st) = dom (ppending st) - {of_nat k}" "flying ?st = flying st"
    "of_nat k \<in> dom (ppending st)"
    using k(1) assms(4) by (auto simp: flying_def)
  moreover have "ids k s = add_mset (of_nat k) (ids (Suc k) s)" using lt small(1) by (rule ids_cons)
  ultimately have eq': "flying ?st + mset_set (dom (ppending ?st)) = ids (Suc k) s"
    using eq mset_set.remove [OF assms(2), of "of_nat k"] by simp
  have "results ?st \<subseteq> results st" by (auto simp: results_def ran_def)
  with assms(1) have res: "\<forall>r \<in> results ?st. \<exists>br. r = Inr br \<and> genuine_block E (wformat w) jobs br"
    unfolding pipe_clean_def by blast
  have "\<forall>i br. ppending ?st i = Some br \<longrightarrow> blockID br = i" "pnext ?st = of_nat (Suc k)"
    using assms(1) k(1) by (auto simp: pipe_clean_def)
  with assms(1,5) lt run' eq' res show ?thesis unfolding pipe_clean_def by simp
qed

lemma collector_clean:
  assumes "collector_step E st = Some st'" "pipe_clean E fs w jobs k s st"
    "pipe_shape E (wformat w) jobs st" "job_ids jobs"
  shows "(\<exists>k'. pipe_clean E fs w jobs k' s st') \<or> pipe_failed st'"
proof -
  have fin: "finite (dom (ppending st))" using assms(3) by (simp add: pipe_shape_def)
  consider "pcollector st = Collecting" | "pcollector st = Writing"
    using assms(1,2) by (cases "pcollector st") (auto simp: collector_step_def pipe_clean_def)
  then show ?thesis
  proof cases
    case 1
    show ?thesis
    proof (cases "presultCh st")
      case Nil
      then have st': "st' = st\<lparr>pcollector := Returned\<rparr>"
        using assms(1) 1 by (simp add: collector_step_def split: if_splits)
      have "flying st' = flying st" "results st' = results st" by (simp_all add: st' flying_def results_def)
      then have "pipe_clean E fs w jobs k s st'" using assms(2) 1 unfolding st' pipe_clean_def by simp
      then show ?thesis by blast
    next
      case (Cons r rs)
      then have "r \<in> results st" by (simp add: results_def)
      with assms(2) obtain br where "r = Inr br" by (auto simp: pipe_clean_def)
      with collect_result_clean [OF assms(2) fin _ 1] Cons assms(1) 1 show ?thesis
        by (auto simp: collector_step_def)
    qed
  next
    case 2
    have got: "pmain st \<noteq> Got f err" for f err using assms(2) 2 by (auto simp: pipe_clean_def)
    show ?thesis
    proof (cases "ppending st (pnext st)")
      case None
      then have st': "st' = st\<lparr>pcollector := Collecting\<rparr>" using assms(1) 2 by (simp add: collector_step_def)
      have "flying st' = flying st" "results st' = results st" "ppending st (of_nat k) = None"
        using None assms(2) by (simp_all add: st' flying_def results_def pipe_clean_def)
      then have "pipe_clean E fs w jobs k s st'" using assms(2) got unfolding st' pipe_clean_def by simp
      then show ?thesis by blast
    next
      case (Some br)
      obtain err fs' w' where wb: "writeBlock (pipeOs E) (pfs st) (pwriter st) (bdata br) = (err, fs', w')"
        by (cases "writeBlock (pipeOs E) (pfs st) (pwriter st) (bdata br)") auto
      show ?thesis
      proof (cases err)
        case None
        with wb collect_write_clean [OF assms(2) fin assms(4) Some 2] assms(1) 2 Some show ?thesis
          by (auto simp: collector_step_def)
      next
        case (Some e)
        with wb assms(1) 2 \<open>ppending st (pnext st) = Some br\<close> got have "pipe_failed st'"
          by (auto simp: collector_step_def pipe_failed_def)
        then show ?thesis ..
      qed
    qed
  qed
qed

subsection \<open>An error stays under way\<close>

lemma submit_failed:
  assumes "submit_step E st = Some st'" "pipe_failed st"
  shows "pipe_failed st'"
proof -
  have "results st' = results st" "pcollector st' = pcollector st"
    using assms(1) by (auto simp: submit_step_def results_def
        split: submitter.splits option.splits list.splits if_splits)
  then show ?thesis
    using assms unfolding pipe_failed_def
    by (auto simp: submit_step_def split: submitter.splits option.splits list.splits if_splits)
qed

lemma block_worker_failed:
  assumes "block_worker_step E st i = Some st'" "i < length (pworkers st)" "pipe_failed st"
  shows "pipe_failed st'"
proof -
  have other: "Sending r \<in> set ((pworkers st)[i := x])" if "Sending r \<in> set (pworkers st)" "pworkers st ! i \<noteq> Sending r" for r x
    using that by (metis in_set_conv_nth length_list_update nth_list_update_neq)
  have "results st \<subseteq> results st'"
    using assms(1,2) other
    by (cases "pworkers st ! i")
      (auto simp: block_worker_step_def results_def split: list.splits if_splits)
  moreover have "pmain st' = pmain st" "pcollector st' = pcollector st" "pwriterDone st' = pwriterDone st"
    using assms(1) by (auto simp: block_worker_step_def split: worker.splits list.splits if_splits)
  ultimately show ?thesis using assms(3) unfolding pipe_failed_def by auto
qed

lemma collector_failed:
  assumes "collector_step E st = Some st'" "pipe_failed st"
  shows "pipe_failed st'"
proof (cases "pwriterDone st \<noteq> None \<or> (\<exists>fin e. pmain st = Got fin (Some e))")
  case True
  have "pmain st' = pmain st" "pwriterDone st \<noteq> None \<longrightarrow> pwriterDone st' \<noteq> None"
    using assms(1) by (auto simp: collector_step_def
        split: collector.splits list.splits sum.splits option.splits prod.splits if_splits)
  with True assms(2) show ?thesis by (auto simp: pipe_failed_def)
next
  case False
  then obtain e where e: "Inl e \<in> results st" "pcollector st = Collecting \<or> pcollector st = Writing"
    using assms(2) by (auto simp: pipe_failed_def)
  have main: "pmain st' = pmain st"
    using assms(1) by (auto simp: collector_step_def
        split: collector.splits list.splits sum.splits option.splits prod.splits if_splits)
  have "\<not> (presultCh st = [] \<and> results_closed st)" using e(1) by (auto simp: results_def results_closed_def)
  then have "pwriterDone st' \<noteq> None \<or>
      ((pcollector st' = Collecting \<or> pcollector st' = Writing) \<and> Inl e \<in> results st')"
    using assms(1) e by (auto simp: collector_step_def results_def
        split: list.splits sum.splits option.splits prod.splits if_splits)
  with main assms(2) show ?thesis unfolding pipe_failed_def by metis
qed

definition pipe_inv :: "pipe_env \<Rightarrow> fs \<Rightarrow> Writer \<Rightarrow> blockResult list \<Rightarrow> pipe_state \<Rightarrow> bool" where
  "pipe_inv E fs w jobs st \<longleftrightarrow>
    (\<exists>k s. pipe_clean E fs w jobs k s st) \<or> pipe_failed st \<or> pipe_crashed st"

lemma pipe_inv_step:
  assumes "pipe_step E st st'" "pipe_inv E fs w jobs st" "pipe_shape E (wformat w) jobs st" "job_ids jobs"
  shows "pipe_inv E fs w jobs st'"
proof -
  have alive: "\<not> pipe_crashed st" using assms(1) by (cases rule: pipe_step.cases)
  with assms(2) consider k s where "pipe_clean E fs w jobs k s st" | "pipe_failed st" by (auto simp: pipe_inv_def)
  then show ?thesis
  proof cases
    case 1
    from assms(1) show ?thesis
    proof (cases rule: pipe_step.cases)
      case (give_up js)
      have "pipe_clean E fs w jobs k s st'"
        unfolding give_up(1) by (intro pipe_clean_main_only [OF 1]) (simp_all add: submitter_ok_def)
      then show ?thesis by (auto simp: pipe_inv_def)
    next
      case (work i)
      from block_worker_clean [OF work(3,2) 1 assms(3,4)] show ?thesis by (auto simp: pipe_inv_def)
    qed (use submit_clean [OF _ 1 assms(3,4)] collector_clean [OF _ 1 assms(3,4)] in \<open>auto simp: pipe_inv_def\<close>)
  next
    case 2
    from assms(1) show ?thesis
    proof (cases rule: pipe_step.cases)
      case (give_up js)
      then have "pipe_failed st'" using 2 by (auto simp: pipe_failed_def results_def)
      then show ?thesis by (auto simp: pipe_inv_def)
    qed (use 2 submit_failed block_worker_failed collector_failed in \<open>auto simp: pipe_inv_def\<close>)
  qed
qed

lemma pipe_reachable_inv:
  assumes "pipe_reachable E (pipe_start E fs w jobs) st" "job_ids jobs"
  shows "pipe_inv E fs w jobs st"
proof -
  have "pipe_shape E (wformat w) jobs st \<and> pipe_inv E fs w jobs st"
    using assms(1)
  proof (induction rule: pipe_reachable_induct)
    case start
    then show ?case using pipe_start_clean [of E fs w jobs] pipe_start_shape [of E w jobs fs]
      by (auto simp: pipe_inv_def)
  next
    case (step s s')
    then show ?case using assms(2) by (blast intro: pipe_shape_step pipe_inv_step)
  qed
  then show ?thesis ..
qed

text \<open>Whatever the schedule, success means that every block was written, in order.\<close>

lemma pipe_success:
  assumes "pipe_reachable E (pipe_start E fs w jobs) st" "job_ids jobs" "0 < pipeConc E"
    "pmain st = Got True None" "\<not> pipe_crashed st"
  shows "drain (pipeOs E) (pipeZstd E) fs w jobs = (None, pfs st, pwriter st)"
proof -
  note shape = pipe_reachable_shape [OF assms(1)]
  from pipe_reachable_inv [OF assms(1,2)] assms(4,5) obtain k s where c: "pipe_clean E fs w jobs k s st"
    by (auto simp: pipe_inv_def pipe_failed_def)
  then have ret: "pcollector st = Returned" and s: "s = length jobs" and k: "k \<le> s" "ppending st (of_nat k) = None"
    using assms(4) by (auto simp: pipe_clean_def submitter_ok_def)
  from ret shape have closed: "results_closed st" "presultCh st = []" "0 < length (pworkers st)"
    using assms(3) by (auto simp: pipe_shape_def)
  with results_closed_worker [OF closed(1)] have "Exited \<in> set (pworkers st)" by (metis nth_mem)
  with c have "pworkCh st = []" by (simp add: pipe_clean_def)
  moreover have "map worker_ids (pworkers st) = map (\<lambda>_. {#}) (pworkers st)"
    using closed(1) by (auto simp: results_closed_def)
  then have "map worker_ids (pworkers st) = replicate (length (pworkers st)) {#}"
    by (simp add: map_replicate_const)
  ultimately have "flying st = {#}" using closed(2) by (simp add: flying_def)
  with c have eq: "mset_set (dom (ppending st)) = ids k s" by (simp add: pipe_clean_def)
  have "k = s"
  proof (rule ccontr)
    assume "k \<noteq> s"
    with k(1) have "k < s" by simp
    moreover have "finite (dom (ppending st))" using shape by (simp add: pipe_shape_def)
    ultimately have "of_nat k \<in> dom (ppending st)"
      using ids_cons [of k s] job_ids_small [OF assms(2), of s] s eq
      by (metis elem_mset_set order_refl union_single_eq_member add_mset_add_single)
    with k(2) show False by auto
  qed
  with c s show ?thesis by (simp add: pipe_clean_def)
qed

section \<open>Runs without faults\<close>

definition no_error :: "pipe_state \<Rightarrow> bool" where
  "no_error st \<longleftrightarrow> (\<forall>e. Inl e \<notin> results st) \<and> pwriterDone st = None \<and>
    (\<forall>fin e. pmain st \<noteq> Got fin (Some e)) \<and> pcollector st \<noteq> Discarding"

lemma write_ok_no_error: "write_ok env \<Longrightarrow> writeBlock env fs w data \<noteq> (Some e, fs', w')"
  by (auto simp: write_ok_def writeBlock_def os_write_def Let_def split: option.splits if_splits)

lemma no_error_step:
  assumes "pipe_step E st st'" "no_error st" "workers_fine st'" "write_ok (pipeOs E)"
  shows "no_error st'"
  using assms(1)
proof (cases rule: pipe_step.cases)
  case submit
  then have "results st' = results st"
    by (auto simp: submit_step_def results_def split: submitter.splits option.splits list.splits if_splits)
  with submit assms(2) show ?thesis
    by (auto simp: submit_step_def no_error_def split: submitter.splits option.splits list.splits if_splits)
next
  case (work i)
  have "\<forall>e. Inl e \<notin> set (presultCh st')"
  proof (cases "pworkers st ! i")
    case (Sending r)
    then have "r \<in> results st" using work(2) nth_mem by (fastforce simp: results_def)
    with Sending work(3) assms(2) show ?thesis
      by (auto simp: block_worker_step_def no_error_def results_def split: if_splits)
  qed (use work(3) assms(2) in \<open>auto simp: block_worker_step_def no_error_def results_def
      split: list.splits if_splits\<close>)
  moreover have "\<forall>e. Sending (Inl e) \<notin> set (pworkers st')" using assms(3) by (auto simp: workers_fine_def)
  moreover have "pmain st' = pmain st" "pcollector st' = pcollector st" "pwriterDone st' = pwriterDone st"
    using work(3) by (auto simp: block_worker_step_def split: worker.splits list.splits if_splits)
  ultimately show ?thesis using assms(2) by (auto simp: no_error_def results_def)
next
  case collect
  then show ?thesis
    using assms(2,4) write_ok_no_error
    by (auto simp: collector_step_def no_error_def results_def
        split: collector.splits list.splits sum.splits option.splits prod.splits if_splits)
qed (use assms(2) in \<open>auto simp: no_error_def results_def\<close>)

lemma pipe_reachable_no_error:
  assumes "pipe_reachable E (pipe_start E fs w jobs) st" "processable E (wformat w) jobs" "write_ok (pipeOs E)"
  shows "no_error st"
proof -
  have "pipe_reachable E (pipe_start E fs w jobs) st \<and> no_error st"
    using assms(1)
  proof (induction rule: pipe_reachable_induct)
    case start
    then show ?case by (simp add: pipe_reachable_def no_error_def results_def pipe_start_def)
  next
    case (step s s')
    then have "pipe_reachable E (pipe_start E fs w jobs) s'" by (auto simp: pipe_reachable_def)
    with step no_error_step [OF step(1) _ pipe_reachable_fine [OF this assms(2)] assms(3)] show ?case by simp
  qed
  then show ?thesis ..
qed

section \<open>Schedules\<close>

text \<open>A run given by who moves next.\<close>

datatype actor = Caller | Worker nat | Collector

fun pipe_run :: "pipe_env \<Rightarrow> actor list \<Rightarrow> pipe_state \<Rightarrow> pipe_state option" where
  "pipe_run E [] st = Some st"
| "pipe_run E (a # as) st =
    (if pipe_crashed st then None
     else case (case a of
         Caller \<Rightarrow> submit_step E st
       | Worker i \<Rightarrow> if i < length (pworkers st) then block_worker_step E st i else None
       | Collector \<Rightarrow> collector_step E st) of
       None \<Rightarrow> None
     | Some st' \<Rightarrow> pipe_run E as st')"

lemma pipe_run_reachable: "pipe_run E as st = Some st' \<Longrightarrow> pipe_reachable E st st'"
proof (induction E as st rule: pipe_run.induct)
  case (2 E a as st)
  then obtain st1 where st1: "\<not> pipe_crashed st" "pipe_run E as st1 = Some st'"
    "(case a of Caller \<Rightarrow> submit_step E st
       | Worker i \<Rightarrow> if i < length (pworkers st) then block_worker_step E st i else None
       | Collector \<Rightarrow> collector_step E st) = Some st1"
    by (auto split: if_splits option.splits)
  then have "pipe_step E st st1" by (auto split: actor.splits if_splits intro: pipe_step.intros)
  moreover have "pipe_reachable E st1 st'" using "2.IH" st1 by blast
  ultimately show ?case by (simp add: pipe_reachable_def converse_rtranclp_into_rtranclp)
qed (simp add: pipe_reachable_def)

lemma pipe_stuck_state:
  assumes "pmain st = Submitting j js" "results_closed st" "pipeConc E \<le> length (pworkCh st)"
    "pcollector st = Returned"
  shows "\<not> pipe_step E st st'"
proof
  assume "pipe_step E st st'"
  then show False
    using assms results_closed_worker [OF assms(2)]
    by cases (auto simp: submit_step_def block_worker_step_def collector_step_def)
qed

text \<open>The queue of a session numbers its blocks from 0.\<close>

lemma session_job_ids: "length cs \<le> 2 ^ 32 \<Longrightarrow> job_ids (map (work_of w) (enumerate 0 cs))"
  by (simp add: job_ids_def work_of_def nth_enumerate_eq)

end
