(* ===== verification/Filepath.thy ===== *)
theory Filepath
  imports Main
begin

text \<open>
  What the code uses of Go's path/filepath on Unix: \<open>Clean\<close>, \<open>Dir\<close> and the \<open>Join\<close> of a
  directory with a file name. A path is its list of components between slashes.
\<close>

definition slash :: char where "slash = CHR ''/''"

fun split_path :: "string \<Rightarrow> string list" where
  "split_path [] = [[]]"
| "split_path (c # cs) =
    (if c = slash then [] # split_path cs
     else case split_path cs of [] \<Rightarrow> [[c]] | p # ps \<Rightarrow> (c # p) # ps)"

fun join_path :: "string list \<Rightarrow> string" where
  "join_path [] = []"
| "join_path [p] = p"
| "join_path (p # ps) = p @ slash # join_path ps"

text \<open>The stack of kept components, innermost first: \<open>..\<close> removes one, unless at the root.\<close>

definition clean_component :: "bool \<Rightarrow> string list \<Rightarrow> string \<Rightarrow> string list" where
  "clean_component rooted kept p =
    (if p = [] \<or> p = ''.'' then kept
     else if p = ''..''
     then (case kept of
             [] \<Rightarrow> if rooted then [] else [p]
           | q # qs \<Rightarrow> if q = ''..'' then p # kept else qs)
     else p # kept)"

definition Clean :: "string \<Rightarrow> string" where
  "Clean path =
    (let rooted = (path \<noteq> [] \<and> hd path = slash);
         kept = foldl (clean_component rooted) [] (split_path path)
     in if rooted then slash # join_path (rev kept)
        else if kept = [] then ''.'' else join_path (rev kept))"

definition Dir :: "string \<Rightarrow> string" where
  "Dir path = Clean (rev (dropWhile (\<lambda>c. c \<noteq> slash) (rev path)))"

definition Join :: "string \<Rightarrow> string \<Rightarrow> string" where
  "Join dir name =
    (if dir = [] then (if name = [] then [] else Clean name) else Clean (dir @ slash # name))"

end
