(* ===== verification/Rocksdb.thy ===== *)
theory Rocksdb
  imports Os Filepath "HOL-Library.List_Lexorder"
begin

text \<open>
  rocksdbutil/rocksdbutil.go over the RocksDB binding grocksdb, which is not part of
  the repository: its calls are the fields of the record \<open>grocksdb\<close>, over a type of
  worlds (the disk), of SST writers and of open databases, and \<open>rocks_contract\<close> states
  the documented behaviour the stores rely on. Options are the values set in them.
\<close>

section \<open>Options\<close>

datatype compression = NoCompression | ZSTDCompression

record table_options =
  noBlockCache :: bool
  blockSize :: int
  blockSizeDeviation :: int
  blockRestartInterval :: int
  formatVersion :: int

record db_options =
  createIfMissing :: bool
  compression :: compression
  compressionOptions :: "int \<times> int \<times> int \<times> int"
  parallelThreads :: int
  skipStatsUpdateOnDBOpen :: bool
  skipCheckingSSTFileSizesOnDBOpen :: bool
  maxFileOpeningThreads :: int
  disableAutoCompactions :: bool
  tableFactory :: table_options

record read_options =
  verifyChecksums :: bool
  fillCache :: bool
  asyncIO :: bool

record SSTWriteConfig =
  cfgBlockSize :: int
  cfgBlockRestartInterval :: int
  cfgBlockSizeDeviation :: int
  cfgCompressionThreads :: int
  cfgNoCompression :: bool

section \<open>The library\<close>

text \<open>
  A failing call returns its message. \<open>SST_Open\<close> is NewSSTFileWriter with Open; a
  database handle of \<open>OpenDb\<close> is its path. \<open>SeekToLast\<close> is the entry an iterator shows
  after SeekToLast, if Valid; \<open>SeekFrom\<close> lists the entries it shows after Seek and then
  after each Next, until it is no longer Valid. \<open>Remove\<close> is os.Remove, whose error the
  code ignores.
\<close>

record ('w, 'sst, 'db) grocksdb =
  NewDefaultOptions :: db_options
  NewDefaultBlockBasedTableOptions :: table_options
  NewDefaultReadOptions :: read_options
  SST_Open :: "db_options \<Rightarrow> 'w \<Rightarrow> string \<Rightarrow> (string + 'sst) \<times> 'w"
  SST_Add :: "'sst \<Rightarrow> bytes \<Rightarrow> bytes \<Rightarrow> string + 'sst"
  SST_Finish :: "'sst \<Rightarrow> 'w \<Rightarrow> string option \<times> 'w"
  OpenDb :: "db_options \<Rightarrow> 'w \<Rightarrow> string \<Rightarrow> string option \<times> 'w"
  IngestExternalFile :: "bool \<Rightarrow> 'w \<Rightarrow> string \<Rightarrow> string \<Rightarrow> string option \<times> 'w"
  OpenDbForReadOnly :: "db_options \<Rightarrow> 'w \<Rightarrow> string \<Rightarrow> string + 'db"
  GetPinned :: "read_options \<Rightarrow> 'db \<Rightarrow> bytes \<Rightarrow> string + bytes option"
  SeekToLast :: "read_options \<Rightarrow> 'db \<Rightarrow> (bytes \<times> bytes) option"
  SeekFrom :: "read_options \<Rightarrow> 'db \<Rightarrow> bytes \<Rightarrow> (bytes \<times> bytes) list"
  IterErr :: "read_options \<Rightarrow> 'db \<Rightarrow> string option"
  BatchedMultiGetCF :: "read_options \<Rightarrow> 'db \<Rightarrow> bytes list \<Rightarrow> string + bytes option list"
  Remove :: "'w \<Rightarrow> string \<Rightarrow> 'w"

section \<open>rocksdbutil\<close>

definition withDefaults :: "SSTWriteConfig \<Rightarrow> SSTWriteConfig" where
  "withDefaults c =
    (let c = (if cfgBlockSize c = 0 then c\<lparr>cfgBlockSize := 25600\<rparr> else c);
         c = (if cfgBlockRestartInterval c = 0 then c\<lparr>cfgBlockRestartInterval := 128\<rparr> else c);
         c = (if cfgBlockSizeDeviation c = 0 then c\<lparr>cfgBlockSizeDeviation := 100\<rparr> else c)
     in c)"

definition read_only_options :: "('w, 'sst, 'db) grocksdb \<Rightarrow> db_options" where
  "read_only_options R =
    (let opts = (NewDefaultOptions R)\<lparr>skipStatsUpdateOnDBOpen := True,
           skipCheckingSSTFileSizesOnDBOpen := True, maxFileOpeningThreads := 1, disableAutoCompactions := True\<rparr>;
         bbto = (NewDefaultBlockBasedTableOptions R)\<lparr>noBlockCache := True, formatVersion := 5\<rparr>
     in opts\<lparr>tableFactory := bbto\<rparr>)"

definition OpenReadOnly :: "('w, 'sst, 'db) grocksdb \<Rightarrow> 'w \<Rightarrow> string \<Rightarrow> string + 'db" where
  "OpenReadOnly R world path = OpenDbForReadOnly R (read_only_options R) world path"

definition NewReadOptions :: "('w, 'sst, 'db) grocksdb \<Rightarrow> read_options" where
  "NewReadOptions R = (NewDefaultReadOptions R)\<lparr>verifyChecksums := False, fillCache := False\<rparr>"

definition NewSSTWriteOptions :: "('w, 'sst, 'db) grocksdb \<Rightarrow> SSTWriteConfig \<Rightarrow> db_options" where
  "NewSSTWriteOptions R cfg =
    (let cfg = withDefaults cfg;
         opts = NewDefaultOptions R;
         opts = (if cfgNoCompression cfg then opts\<lparr>compression := NoCompression\<rparr>
                 else
                   let opts = opts\<lparr>compression := ZSTDCompression, compressionOptions := (- 14, 3, 0, 0)\<rparr>
                   in if cfgCompressionThreads cfg > 1
                      then opts\<lparr>parallelThreads := cfgCompressionThreads cfg\<rparr> else opts);
         bbto = (NewDefaultBlockBasedTableOptions R)\<lparr>blockSize := cfgBlockSize cfg,
           blockSizeDeviation := cfgBlockSizeDeviation cfg, formatVersion := 5,
           blockRestartInterval := cfgBlockRestartInterval cfg\<rparr>
     in opts\<lparr>tableFactory := bbto\<rparr>)"

definition newDBOptions :: "('w, 'sst, 'db) grocksdb \<Rightarrow> SSTWriteConfig \<Rightarrow> db_options" where
  "newDBOptions R cfg =
    (let opts = (NewDefaultOptions R)\<lparr>createIfMissing := True,
           compression := (if cfgNoCompression cfg then NoCompression else ZSTDCompression)\<rparr>;
         bbto = (NewDefaultBlockBasedTableOptions R)\<lparr>noBlockCache := True, blockSize := cfgBlockSize cfg,
           blockSizeDeviation := cfgBlockSizeDeviation cfg,
           blockRestartInterval := cfgBlockRestartInterval cfg, formatVersion := 5\<rparr>
     in opts\<lparr>tableFactory := bbto\<rparr>)"

definition CreateEmptyDB ::
  "('w, 'sst, 'db) grocksdb \<Rightarrow> 'w \<Rightarrow> string \<Rightarrow> SSTWriteConfig \<Rightarrow> string option \<times> 'w" where
  "CreateEmptyDB R world dbPath cfg =
    (let cfg = withDefaults cfg
     in case OpenDb R (newDBOptions R cfg) world dbPath of
          (Some e, world) \<Rightarrow> (Some (''rocksdbutil: create empty db: '' @ e), world)
        | (None, world) \<Rightarrow> (None, world))"

definition IngestSST ::
  "('w, 'sst, 'db) grocksdb \<Rightarrow> 'w \<Rightarrow> string \<Rightarrow> string \<Rightarrow> SSTWriteConfig \<Rightarrow> string option \<times> 'w" where
  "IngestSST R world dbPath sstPath cfg =
    (let cfg = withDefaults cfg
     in case OpenDb R (newDBOptions R cfg) world dbPath of
          (Some e, world) \<Rightarrow> (Some (''rocksdbutil: open db: '' @ e), world)
        | (None, world) \<Rightarrow>
            (case IngestExternalFile R True world dbPath sstPath of
               (Some e, world) \<Rightarrow> (Some (''rocksdbutil: ingest: '' @ e), world)
             | (None, world) \<Rightarrow> (None, Remove R world sstPath)))"

section \<open>The documented behaviour of the library\<close>

text \<open>
  What the library's values stand for: the path and the entries of an SST writer, the
  entries of the SST files and databases on disk, and those of an open database.
\<close>

type_synonym entries = "(bytes \<times> bytes) list"

record ('w, 'sst, 'db) rocks_view =
  sst_file :: "'sst \<Rightarrow> string \<times> entries"
  sst_on_disk :: "'w \<Rightarrow> string \<rightharpoonup> entries"
  db_on_disk :: "'w \<Rightarrow> string \<rightharpoonup> entries"
  db_entries :: "'db \<Rightarrow> entries"

text \<open>An SST file takes keys in strictly ascending order, and cannot be empty.\<close>

definition sst_contract :: "('w, 'sst, 'db) grocksdb \<Rightarrow> ('w, 'sst, 'db) rocks_view \<Rightarrow> bool" where
  "sst_contract R V \<longleftrightarrow>
    (\<forall>opts w p s w'. SST_Open R opts w p = (Inr s, w') \<longrightarrow>
      sst_file V s = (p, []) \<and> db_on_disk V w' = db_on_disk V w) \<and>
    (\<forall>s k v s' p es. sst_file V s = (p, es) \<longrightarrow> SST_Add R s k v = Inr s' \<longrightarrow>
      (\<forall>e \<in> set es. fst e < k) \<and> sst_file V s' = (p, es @ [(k, v)])) \<and>
    (\<forall>s w w' p es. sst_file V s = (p, es) \<longrightarrow> SST_Finish R s w = (None, w') \<longrightarrow>
      es \<noteq> [] \<and> sst_on_disk V w' p = Some es \<and> db_on_disk V w' = db_on_disk V w)"

text \<open>Opening creates an empty database, and ingesting fills it with the file's entries.\<close>

definition db_contract :: "('w, 'sst, 'db) grocksdb \<Rightarrow> ('w, 'sst, 'db) rocks_view \<Rightarrow> bool" where
  "db_contract R V \<longleftrightarrow>
    (\<forall>opts w d w'. createIfMissing opts \<longrightarrow> OpenDb R opts w d = (None, w') \<longrightarrow>
      db_on_disk V w' d = Some (case db_on_disk V w d of None \<Rightarrow> [] | Some es \<Rightarrow> es) \<and>
      sst_on_disk V w' = sst_on_disk V w) \<and>
    (\<forall>move w d p w' es. IngestExternalFile R move w d p = (None, w') \<longrightarrow> db_on_disk V w d = Some [] \<longrightarrow>
      sst_on_disk V w p = Some es \<longrightarrow> db_on_disk V w' d = Some es) \<and>
    (\<forall>w p. db_on_disk V (Remove R w p) = db_on_disk V w) \<and>
    (\<forall>opts w d db. OpenDbForReadOnly R opts w d = Inr db \<longrightarrow> db_on_disk V w d = Some (db_entries V db))"

text \<open>Reads of an open database, when the disk does not fail.\<close>

definition read_contract :: "('w, 'sst, 'db) grocksdb \<Rightarrow> ('w, 'sst, 'db) rocks_view \<Rightarrow> bool" where
  "read_contract R V \<longleftrightarrow>
    (\<forall>ro db k. GetPinned R ro db k = Inr (map_of (db_entries V db) k)) \<and>
    (\<forall>ro db. SeekToLast R ro db = (if db_entries V db = [] then None else Some (last (db_entries V db)))) \<and>
    (\<forall>ro db k. SeekFrom R ro db k = dropWhile (\<lambda>e. fst e < k) (db_entries V db)) \<and>
    (\<forall>ro db. IterErr R ro db = None) \<and>
    (\<forall>ro db ks. BatchedMultiGetCF R ro db ks = Inr (map (map_of (db_entries V db)) ks))"

definition rocks_contract :: "('w, 'sst, 'db) grocksdb \<Rightarrow> ('w, 'sst, 'db) rocks_view \<Rightarrow> bool" where
  "rocks_contract R V \<longleftrightarrow> sst_contract R V \<and> db_contract R V \<and> read_contract R V"

lemma createIfMissing_newDBOptions [simp]: "createIfMissing (newDBOptions R cfg)"
  by (simp add: newDBOptions_def Let_def)

lemma db_contractD:
  assumes "db_contract R V"
  shows "createIfMissing opts \<Longrightarrow> OpenDb R opts w d = (None, w') \<Longrightarrow> db_on_disk V w d = None \<Longrightarrow>
      db_on_disk V w' d = Some [] \<and> sst_on_disk V w' = sst_on_disk V w"
    "IngestExternalFile R move w d p = (None, w') \<Longrightarrow> db_on_disk V w d = Some [] \<Longrightarrow>
      sst_on_disk V w p = Some es \<Longrightarrow> db_on_disk V w' d = Some es"
    "db_on_disk V (Remove R w p) = db_on_disk V w"
    "OpenDbForReadOnly R opts w d = Inr db \<Longrightarrow> db_on_disk V w d = Some (db_entries V db)"
  using assms unfolding db_contract_def by (metis option.case(1))+

lemma IngestSST_fresh:
  assumes "db_contract R V" "IngestSST R w dbPath sstPath cfg = (None, w')"
    "db_on_disk V w dbPath = None" "sst_on_disk V w sstPath = Some es"
  shows "db_on_disk V w' dbPath = Some es"
proof -
  from assms(2) obtain w1 w2 where steps: "OpenDb R (newDBOptions R (withDefaults cfg)) w dbPath = (None, w1)"
    "IngestExternalFile R True w1 dbPath sstPath = (None, w2)" "w' = Remove R w2 sstPath"
    by (auto simp: IngestSST_def Let_def split: prod.splits option.splits)
  note d = db_contractD [OF assms(1)]
  from d(1) [OF createIfMissing_newDBOptions steps(1) assms(3)]
  have "db_on_disk V w1 dbPath = Some []" "sst_on_disk V w1 sstPath = Some es" using assms(4) by simp_all
  from d(2) [OF steps(2) this] show ?thesis by (simp add: steps(3) d(3))
qed

lemma CreateEmptyDB_fresh:
  assumes "db_contract R V" "CreateEmptyDB R w dbPath cfg = (None, w')" "db_on_disk V w dbPath = None"
  shows "db_on_disk V w' dbPath = Some []"
proof -
  from assms(2) have "OpenDb R (newDBOptions R (withDefaults cfg)) w dbPath = (None, w')"
    by (auto simp: CreateEmptyDB_def Let_def split: prod.splits option.splits)
  from db_contractD(1) [OF assms(1) createIfMissing_newDBOptions this assms(3)] show ?thesis ..
qed

section \<open>A library that keeps the contract\<close>

text \<open>Databases and SST files as lists of entries in two maps.\<close>

type_synonym list_disk = "(string \<rightharpoonup> entries) \<times> (string \<rightharpoonup> entries)"

definition default_table :: table_options where
  "default_table = \<lparr>noBlockCache = False, blockSize = 4096, blockSizeDeviation = 10,
    blockRestartInterval = 16, formatVersion = 5\<rparr>"

definition list_rocks :: "(list_disk, string \<times> entries, entries) grocksdb" where
  "list_rocks = \<lparr>
    NewDefaultOptions = \<lparr>createIfMissing = False, compression = NoCompression, compressionOptions = (- 14, 0, 0, 0),
      parallelThreads = 1, skipStatsUpdateOnDBOpen = False, skipCheckingSSTFileSizesOnDBOpen = False,
      maxFileOpeningThreads = 16, disableAutoCompactions = False, tableFactory = default_table\<rparr>,
    NewDefaultBlockBasedTableOptions = default_table,
    NewDefaultReadOptions = \<lparr>verifyChecksums = True, fillCache = True, asyncIO = False\<rparr>,
    SST_Open = (\<lambda>opts w p. (Inr (p, []), w)),
    SST_Add = (\<lambda>(p, es) k v. if list_all (\<lambda>e. fst e < k) es then Inr (p, es @ [(k, v)]) else Inl ''keys out of order''),
    SST_Finish = (\<lambda>(p, es) (ssts, dbs). if es = [] then (Some ''no entries'', ssts, dbs) else (None, ssts(p \<mapsto> es), dbs)),
    OpenDb = (\<lambda>opts (ssts, dbs) d. (None, ssts, if dbs d = None then dbs(d \<mapsto> []) else dbs)),
    IngestExternalFile = (\<lambda>move (ssts, dbs) d p. case ssts p of
        None \<Rightarrow> (Some ''no such file'', ssts, dbs)
      | Some es \<Rightarrow> if dbs d = Some [] then (None, ssts, dbs(d \<mapsto> es)) else (Some ''not empty'', ssts, dbs)),
    OpenDbForReadOnly = (\<lambda>opts (ssts, dbs) d. case dbs d of None \<Rightarrow> Inl ''no such database'' | Some es \<Rightarrow> Inr es),
    GetPinned = (\<lambda>ro es k. Inr (map_of es k)),
    SeekToLast = (\<lambda>ro es. if es = [] then None else Some (last es)),
    SeekFrom = (\<lambda>ro es k. dropWhile (\<lambda>e. fst e < k) es),
    IterErr = (\<lambda>ro es. None),
    BatchedMultiGetCF = (\<lambda>ro es ks. Inr (map (map_of es) ks)),
    Remove = (\<lambda>(ssts, dbs) p. (ssts(p := None), dbs))\<rparr>"

definition list_view :: "(list_disk, string \<times> entries, entries) rocks_view" where
  "list_view = \<lparr>sst_file = (\<lambda>s. s), sst_on_disk = fst, db_on_disk = snd, db_entries = (\<lambda>es. es)\<rparr>"

lemma list_rocks_contract: "rocks_contract list_rocks list_view"
  unfolding rocks_contract_def
proof (intro conjI)
  show "sst_contract list_rocks list_view"
    by (auto simp: sst_contract_def list_rocks_def list_view_def list_all_iff split: if_splits)
  show "db_contract list_rocks list_view"
    by (auto simp: db_contract_def list_rocks_def list_view_def split: if_splits option.splits)
  show "read_contract list_rocks list_view"
    by (simp add: read_contract_def list_rocks_def list_view_def)
qed

section \<open>Entries in key order\<close>

definition ascending :: "entries \<Rightarrow> bool" where
  "ascending es \<longleftrightarrow> sorted_wrt (<) (map fst es)"

lemma ascending_snoc: "ascending (es @ [(k, v)]) \<longleftrightarrow> ascending es \<and> (\<forall>e \<in> set es. fst e < k)"
  by (auto simp: ascending_def sorted_wrt_append)

lemma ascending_distinct: "ascending es \<Longrightarrow> distinct (map fst es)"
  by (simp add: ascending_def strict_sorted_iff)

lemma ascending_get: "ascending es \<Longrightarrow> (k, v) \<in> set es \<Longrightarrow> map_of es k = Some v"
  by (simp add: ascending_distinct)

text \<open>Seeking the key of an entry shows the entries from that one on.\<close>

lemma ascending_seek:
  assumes "ascending es" "i < length es"
  shows "dropWhile (\<lambda>e. fst e < fst (es ! i)) es = drop i es"
proof -
  have "dropWhile (\<lambda>e. fst e < fst (es ! i)) (take i es @ drop i es) = drop i es"
  proof (subst dropWhile_append2)
    fix e assume "e \<in> set (take i es)"
    then obtain j where "j < i" "e = es ! j" by (auto simp: in_set_conv_nth)
    then show "fst e < fst (es ! i)"
      using assms sorted_wrt_nth_less [of "(<)" "map fst es" j i] by (simp add: ascending_def)
  next
    show "dropWhile (\<lambda>e. fst e < fst (es ! i)) (drop i es) = drop i es"
      using assms(2) by (simp add: dropWhile_eq_self_iff hd_drop_conv_nth)
  qed
  then show ?thesis by simp
qed

section \<open>Big-endian keys are ordered like numbers\<close>

lemma list_less_snoc:
  "length xs = length ys \<Longrightarrow> xs @ [a] < ys @ [b] \<longleftrightarrow> xs < ys \<or> xs = ys \<and> (a :: 'a::linorder) < b"
  by (induction xs ys rule: list_induct2) auto

lemma le_put_less:
  fixes v w :: "'a::len word"
  assumes "unat v < unat w" "unat w < 256 ^ n"
  shows "rev (le_put n v) < rev (le_put n w)"
  using assms
proof (induction n arbitrary: v w)
  case (Suc n)
  have shift: "unat (drop_bit 8 x) = unat x div 256" for x :: "'a word"
    by (simp only: unat_drop_bit_eq drop_bit_eq_div [of 8 "unat x"]) simp
  have byte: "unat (ucast x :: byte) = unat x mod 256" for x :: "'a word"
    by (simp add: unsigned_ucast_eq take_bit_eq_mod)
  have "unat v div 256 < unat w div 256 \<or> unat v div 256 = unat w div 256 \<and> unat v mod 256 < unat w mod 256"
    using Suc.prems(1) div_mult_mod_eq [of "unat v" 256] div_mult_mod_eq [of "unat w" 256]
      div_le_mono [of "unat v" "unat w" 256] by linarith
  then show ?case
  proof
    assume "unat v div 256 < unat w div 256"
    moreover have "unat w div 256 < 256 ^ n" using Suc.prems(2) by (simp add: less_mult_imp_div_less mult.commute)
    ultimately have "rev (le_put n (drop_bit 8 v)) < rev (le_put n (drop_bit 8 w))"
      by (intro Suc.IH) (simp_all add: shift)
    then show ?thesis by (simp add: list_less_snoc)
  next
    assume eq: "unat v div 256 = unat w div 256 \<and> unat v mod 256 < unat w mod 256"
    then have "drop_bit 8 v = drop_bit 8 w" by (intro word_unat_eq_iff [THEN iffD2]) (simp add: shift)
    moreover have "(ucast v :: byte) < ucast w" using eq by (simp add: word_less_nat_alt byte)
    ultimately show ?thesis by (simp add: list_less_snoc)
  qed
qed simp

lemma PutUint32BE_less: "v < w \<Longrightarrow> PutUint32BE v < PutUint32BE w"
  using le_put_less [of v w 4] unsigned_less [of w, where 'a = nat]
  by (simp add: PutUint32BE_def PutUint32_def word_less_nat_alt)

end
