(* ===== verification/Record_Codec.thy ===== *)
theory Record_Codec
  imports Write_File
begin

text \<open>
  Decoding what was written: \<open>Decode\<close> on the block of a record returns the items of
  the record. A record of the \<open>Uncompressed\<close> format with an empty payload is the
  exception the code makes: its block has only the four bytes of the CRC, and
  \<open>Decode\<close> rejects every block shorter than five.
\<close>

definition decodable :: "RecordFormat \<Rightarrow> bytes list \<Rightarrow> bool" where
  "decodable fmt items \<longleftrightarrow> known_format fmt \<and> (fmt = Uncompressed \<longrightarrow> concat items \<noteq> []) \<and>
    length (concat items) < 2 ^ 46 \<and> (\<forall>item \<in> set items. length item < 2 ^ 32)"

definition open_decoder :: "decoder \<Rightarrow> bool" where
  "open_decoder rd \<longleftrightarrow> (\<exists>d. decompressor rd = Some d \<and> dctx d)"

lemma Uint32_suffix: "Uint32 (drop (length xs) (xs @ PutUint32 v)) = v"
  by simp

lemma map_unat_item_sizes:
  "\<forall>item \<in> set items. length item < 2 ^ 32 \<Longrightarrow> map unat (item_sizes items) = map length items"
  by (auto simp: item_sizes_def unat_of_nat take_bit_nat_eq_self)

lemma strip_item_index_append:
  assumes g: "EncodeGroup vs = Inr g"
  shows "strip_item_index (length vs) (payload @ g @ PutUint32 (CRC32C g)) = Inr (payload, g)"
proof -
  define p where "p = length g - 5"
  have len: "length g = p + 5" using length_EncodeGroup(2) [OF g] by (simp add: p_def)
  have width: "unat (g ! p) \<le> 32" and q: "(unat (g ! p) * length vs + 7) div 8 = p"
    using length_EncodeGroup(1,4) [OF g] len by simp_all
  let ?data = "payload @ g @ PutUint32 (CRC32C g)"
  have data: "length ?data = length payload + p + 9" using len by simp
  have nth: "?data ! (length ?data - 9) = g ! p"
    using len by (simp add: nth_append)
  have "9 \<le> length ?data" "unat (?data ! (length ?data - 9)) \<le> 32"
    "length payload + (unat (?data ! (length ?data - 9)) * length vs + 7) div 8 + 9 = length ?data"
    using width data unfolding nth by (simp_all add: q)
  from strip_item_index_eq [OF this(1) refl this(2,3)]
  have "strip_item_index (length vs) ?data =
    (if Uint32 (drop (length ?data - 4) ?data) \<noteq> CRC32C (slice ?data (length payload) (length ?data - 4))
     then Inl ErrChecksum else Inr (take (length payload) ?data, slice ?data (length payload) (length ?data - 4)))" .
  moreover have "Uint32 (drop (length ?data - 4) ?data) = CRC32C g"
    using Uint32_suffix [of "payload @ g" "CRC32C g"] by simp
  moreover have "slice ?data (length payload) (length ?data - 4) = g"
    by (simp add: slice_def)
  ultimately show ?thesis by simp
qed

lemma decode_payload_protect:
  assumes z: "zstd_contract z" and rd: "open_decoder rd"
    and ok: "decodable (dformat rd) items" and p: "protect z (dformat rd) (concat items) = Inr b"
  shows "decode_payload z rd b = Inr (concat items)"
proof (cases "dformat rd")
  case Compressed
  obtain d where d: "decompressor rd = Some d" "dctx d" using rd by (auto simp: open_decoder_def)
  have "cctx default_compressor" by (simp add: default_compressor_def)
  from zstd_round_trip [OF z this d(2)] Compressed p d ok show ?thesis
    by (fastforce simp: decode_payload_def decodable_def split: sum.splits)
next
  case Uncompressed
  then have "b = concat items @ PutUint32 (CRC32C (concat items))" "concat items \<noteq> []"
    using p ok by (auto simp: decodable_def)
  then show ?thesis
    using Uncompressed Uint32_suffix [of "concat items"]
    by (cases "concat items") (simp_all add: decode_payload_crc)
qed (use p ok in \<open>simp_all add: decode_payload_def decodable_def known_format_def\<close>)

lemma Decode_block:
  assumes z: "zstd_contract z" and rd: "open_decoder rd"
    and k: "0 < ditemsPerRecord rd" "r * ditemsPerRecord rd < length items"
    and total: "dtotalItems rd = length items"
    and c: "c = chunks (ditemsPerRecord rd) items ! r"
    and ok: "decodable (dformat rd) c" and b: "block_of z (dformat rd) (ditemsPerRecord rd) c = Inr b"
  shows "\<exists>rd'. Decode z rd b r = (None, rd') \<and> holds_items rd' c \<and>
    rd' = rd\<lparr>decompressed := decompressed rd', sizes := sizes rd', item_offsets := item_offsets rd'\<rparr>"
proof -
  obtain p where p: "protect z (dformat rd) (concat c) = Inr p" "b = p @ item_index (ditemsPerRecord rd) c"
    using b by (auto simp: block_of_def split: sum.splits)
  have payload: "decode_payload z rd p = Inr (concat c)"
    by (rule decode_payload_protect [OF z rd ok p(1)])
  have n: "itemsInRecord (dtotalItems rd) (ditemsPerRecord rd) r = Inr (length c)"
    using itemsInRecord_chunk [OF k] total c by simp
  have len: "length c = min (ditemsPerRecord rd) (length items - r * ditemsPerRecord rd)"
    using k c by (simp add: nth_chunks)
  then have "c \<noteq> []" using k by auto
  have sz: "map unat (item_sizes c) = map length c"
    using ok by (intro map_unat_item_sizes) (simp add: decodable_def)
  show ?thesis
  proof (cases "1 < ditemsPerRecord rd")
    case True
    then obtain g where g: "EncodeGroup (item_sizes c) = Inr g"
      "item_index (ditemsPerRecord rd) c = g @ PutUint32 (CRC32C g)"
      using item_index_EncodeGroup [OF \<open>c \<noteq> []\<close>] by blast
    have "strip_item_index (length c) b = Inr (p, g)"
      using strip_item_index_append [OF g(1), of p] p(2) g(2) by simp
    moreover have "DecodeGroup g (int (length c)) (sizes rd) = Inr (item_sizes c, length g)"
      using DecodeGroup_EncodeGroup [OF g(1), of "[]"] by simp
    ultimately show ?thesis
      using True n payload sz
      by (simp add: Decode_def build_offsets_def holds_items_def length_concat)
  next
    case False
    then have "length c = 1" using k len by simp
    then obtain x where "c = [x]" by (auto simp: length_Suc_conv)
    then show ?thesis
      using False n payload sz p(2)
      by (simp add: Decode_def build_offsets_def holds_items_def item_index_def item_sizes_def)
  qed
qed

text \<open>The exception: an empty payload cannot be read back in the \<open>Uncompressed\<close> format.\<close>

lemma Decode_empty_uncompressed:
  assumes k: "0 < ditemsPerRecord rd" "r * ditemsPerRecord rd < length items"
    and total: "dtotalItems rd = length items" and fmt: "dformat rd = Uncompressed"
    and c: "c = chunks (ditemsPerRecord rd) items ! r" "concat c = []"
    and b: "block_of z Uncompressed (ditemsPerRecord rd) c = Inr b"
  shows "Decode z rd b r = (Some (ErrPlain ''too short for CRC32C''), rd)"
proof -
  have n: "itemsInRecord (dtotalItems rd) (ditemsPerRecord rd) r = Inr (length c)"
    using itemsInRecord_chunk [OF k] total c by simp
  have len: "length c = min (ditemsPerRecord rd) (length items - r * ditemsPerRecord rd)"
    using k c by (simp add: nth_chunks)
  then have "c \<noteq> []" using k by auto
  have p: "b = PutUint32 (CRC32C []) @ item_index (ditemsPerRecord rd) c"
    using b c(2) by (simp add: block_of_def)
  have payload: "decode_payload z rd (PutUint32 (CRC32C [])) = Inl (ErrPlain ''too short for CRC32C'')"
    using fmt by (simp add: decode_payload_def)
  show ?thesis
  proof (cases "1 < ditemsPerRecord rd")
    case True
    then obtain g where g: "EncodeGroup (item_sizes c) = Inr g"
      "item_index (ditemsPerRecord rd) c = g @ PutUint32 (CRC32C g)"
      using item_index_EncodeGroup [OF \<open>c \<noteq> []\<close>] by blast
    have "strip_item_index (length c) b = Inr (PutUint32 (CRC32C []), g)"
      using strip_item_index_append [OF g(1)] p g(2) by simp
    then show ?thesis using True n payload by (simp add: Decode_def)
  next
    case False
    then show ?thesis using n payload p by (simp add: Decode_def item_index_def)
  qed
qed

section \<open>Records as the writer builds them\<close>

text \<open>
  What \<open>buildBlock\<close> takes from the writer's buffers and \<open>blockWorker\<close> makes of it is the
  on-disk form of the record.
\<close>

lemma blockWorker_built:
  assumes "zstd_contract z" and "known_format fmt" and "c \<noteq> []"
    and "wbuf w = concat c" "wsizes w = item_sizes c"
    and "buildBlock w = Inr ((bdata job, bforIndex job), w')" and "blockWorker z fmt job = Inr br"
  shows "block_of z fmt (witemsPerRecord w) c = Inr (bdata br)"
proof -
  have job: "bdata job = concat c" "bforIndex job = item_index (witemsPerRecord w) c"
    using assms(4,6) buildBlock_item_index [OF assms(5,3)] by simp_all
  show ?thesis
    using assms(2,7) NewCompressor_default [OF assms(1)]
    by (cases fmt)
      (auto simp: blockWorker_def block_of_def job known_format_def Let_def split: sum.splits option.splits)
qed

lemma Decode_built:
  assumes z: "zstd_contract z" and rd: "open_decoder rd" "known_format (dformat rd)"
    and k: "0 < ditemsPerRecord rd" "r * ditemsPerRecord rd < length items" "dtotalItems rd = length items"
    and c: "c = chunks (ditemsPerRecord rd) items ! r" "length (concat c) < 2 ^ 46" "\<forall>item \<in> set c. length item < 2 ^ 32"
    and w: "witemsPerRecord w = ditemsPerRecord rd" "wbuf w = concat c" "wsizes w = item_sizes c"
    and job: "buildBlock w = Inr ((bdata job, bforIndex job), w')" "blockWorker z (dformat rd) job = Inr br"
  shows "if dformat rd = Uncompressed \<and> concat c = []
    then Decode z rd (bdata br) r = (Some (ErrPlain ''too short for CRC32C''), rd)
    else \<exists>rd'. Decode z rd (bdata br) r = (None, rd') \<and> holds_items rd' c"
proof -
  have "length c = min (ditemsPerRecord rd) (length items - r * ditemsPerRecord rd)"
    using k c by (simp add: nth_chunks)
  then have "c \<noteq> []" using k by auto
  from blockWorker_built [OF z rd(2) this w(2,3) job] w(1)
  have b: "block_of z (dformat rd) (ditemsPerRecord rd) c = Inr (bdata br)" by simp
  show ?thesis
  proof (cases "dformat rd = Uncompressed \<and> concat c = []")
    case True
    with Decode_empty_uncompressed [OF k _ c(1)] b show ?thesis by simp
  next
    case False
    then have "decodable (dformat rd) c" using rd(2) c(2,3) by (simp add: decodable_def)
    from Decode_block [OF z rd(1) k c(1) this b] False show ?thesis by auto
  qed
qed

end
