(* ===== verification/Reader.thy ===== *)
theory Reader
  imports Index Decoder Content_Hash Os
begin

text \<open>
  packfile/reader.go: opening a packfile and reading items by position or by range.
  A reader holds the outcome of the background open, which every method first
  waits for, so a method of a reader whose open failed returns the open's error.
  Callbacks (\<open>fn\<close>, \<open>yield\<close>) are functions on a state of the caller's own; a Go panic
  is the error value \<open>Panic\<close>. The decoder a method takes from the pool and puts back
  is an argument and a result. Scattered reads (\<open>ReadItems\<close>) are in \<open>Read_Items\<close>.
\<close>

definition readBufSize :: nat where "readBufSize = 2 ^ 20"
definition speculativeReadSize :: nat where "speculativeReadSize = 256 * 1024"
definition defaultConcurrency :: int where "defaultConcurrency = 8"

record openResult =
  ofile :: bytes
  otrailer :: Trailer
  ooffsets :: "int list"
  oappData :: bytes
  ototalItems :: nat
  oitemsPerRecord :: nat

record Reader =
  rresult :: "pf_error + openResult"
  rconcurrency :: int
  rclosed :: "pf_error option option"

section \<open>Opening\<close>

text \<open>The fields and the checks of the 64 trailer bytes, in the code's order.\<close>

definition parse_trailer :: "bytes \<Rightarrow> pf_error + Trailer" where
  "parse_trailer tb =
    (if Uint32 tb \<noteq> magic then Inl ErrMagic
     else
       let v = tb ! 4
       in if v \<noteq> version then Inl ErrVersion
          else
            let flags = tb ! 5;
                indexGroupSize = Uint16 (drop 58 tb)
            in if unat indexGroupSize \<noteq> groupSize then Inl (ErrPlain ''unsupported index group size'')
               else if flags AND NOT knownFlags \<noteq> 0 then Inl (ErrPlain ''unknown trailer flags'')
               else
                 let hasContentHash = (flags AND flagContentHash \<noteq> 0);
                     format = (if flags AND flagNoCompression = 0 then Compressed
                               else if flags AND flagNoCRC \<noteq> 0 then Raw
                               else Uncompressed)
                 in Inr \<lparr>Version = v,
                      RecordCount = Uint32 (drop 6 tb),
                      TotalItems = Uint32 (drop 10 tb),
                      ItemsPerRecord = Uint32 (drop 14 tb),
                      IndexSize = Uint32 (drop 18 tb),
                      AppDataSize = Uint32 (drop 22 tb),
                      ContentHash = (if hasContentHash then slice tb 26 58 else replicate 32 0),
                      IndexForGroupSize = indexGroupSize,
                      Format = format,
                      HasContentHash = hasContentHash,
                      Checksum = Uint32 (drop 60 tb)\<rparr>)"

text \<open>
  Index and application data: cut out of the speculative buffer when the whole
  tail is in it, otherwise read again.
\<close>

definition read_tail ::
  "os_env \<Rightarrow> bytes \<Rightarrow> bytes \<Rightarrow> nat \<Rightarrow> nat \<Rightarrow> pf_error + bytes \<times> bytes" where
  "read_tail env contents speculativeBuf indexSize appDataSize =
    (let indexBase = int (length contents) - int trailerSize - int appDataSize - int indexSize;
         tailSize = indexSize + appDataSize + trailerSize
     in if tailSize \<le> length speculativeBuf
        then
          let tailStart = length speculativeBuf - tailSize;
              adStart = tailStart + indexSize
          in Inr (slice speculativeBuf tailStart (tailStart + indexSize),
                  if appDataSize > 0 then slice speculativeBuf adStart (adStart + appDataSize) else [])
        else
          case ReadAt env contents (indexSize + appDataSize) indexBase of
            Inl e \<Rightarrow> Inl e
          | Inr buf \<Rightarrow>
              Inr (take indexSize buf,
                   if appDataSize > 0 then slice buf indexSize (indexSize + appDataSize) else []))"

text \<open>The number of records the trailer implies must be the number of offsets.\<close>

definition check_records :: "nat \<Rightarrow> nat \<Rightarrow> nat \<Rightarrow> pf_error option" where
  "check_records totalItems itemsPerRecord recordCount =
    (if itemsPerRecord \<le> 0 \<and> recordCount > 0 then Some (ErrPlain ''invalid itemsPerRecord in trailer'')
     else if itemsPerRecord > 0
     then
       let expectedRecords = (totalItems + itemsPerRecord - 1) div itemsPerRecord;
           expectedRecords = (if totalItems = 0 then 0 else expectedRecords)
       in if expectedRecords \<noteq> recordCount then Some (ErrPlain ''record count mismatch'') else None
     else None)"

definition doOpen :: "os_env \<Rightarrow> fs \<Rightarrow> string \<Rightarrow> pf_error + openResult" where
  "doOpen env fs path =
    (case (if open_fails env path then None else fs path) of
       None \<Rightarrow> Inl (ErrIO ''open'')
     | Some contents \<Rightarrow>
         if stat_fails env path then Inl (ErrIO ''stat'')
         else
           let fileSize = length contents
           in if fileSize < trailerSize then Inl ErrSize
              else
                let speculativeSize = min speculativeReadSize fileSize
                in case ReadAt env contents speculativeSize (int (fileSize - speculativeSize)) of
                     Inl e \<Rightarrow> Inl e
                   | Inr speculativeBuf \<Rightarrow>
                       let tb = drop (length speculativeBuf - trailerSize) speculativeBuf
                       in case parse_trailer tb of
                            Inl e \<Rightarrow> Inl e
                          | Inr t \<Rightarrow>
                              let recordCount = unat (RecordCount t);
                                  totalItems = unat (TotalItems t);
                                  itemsPerRecord = unat (ItemsPerRecord t);
                                  indexSize = unat (IndexSize t);
                                  appDataSize = unat (AppDataSize t);
                                  indexBase = int fileSize - int trailerSize - int appDataSize - int indexSize
                              in if indexBase < 0 then Inl ErrSize
                                 else case read_tail env contents speculativeBuf indexSize appDataSize of
                                   Inl e \<Rightarrow> Inl e
                                 | Inr (indexBuf, appData) \<Rightarrow>
                                     if CRC32C (take 60 tb) \<noteq> Checksum t then Inl ErrChecksum
                                     else case decodeIndex indexBuf recordCount indexSize indexBase of
                                       Inl e \<Rightarrow> Inl e
                                     | Inr offsets \<Rightarrow>
                                         (case check_records totalItems itemsPerRecord recordCount of
                                            Some e \<Rightarrow> Inl e
                                          | None \<Rightarrow>
                                              Inr (if itemsPerRecord = 0
                                                then \<lparr>ofile = contents, otrailer = t\<lparr>ItemsPerRecord := 1\<rparr>,
                                                  ooffsets = offsets, oappData = appData,
                                                  ototalItems = totalItems, oitemsPerRecord = 1\<rparr>
                                                else \<lparr>ofile = contents, otrailer = t,
                                                  ooffsets = offsets, oappData = appData,
                                                  ototalItems = totalItems, oitemsPerRecord = itemsPerRecord\<rparr>)))"

text \<open>\<open>Open\<close>: options, and the background open with its recover.\<close>

definition recover_open :: "pf_error + openResult \<Rightarrow> pf_error + openResult" where
  "recover_open res = (case res of Inl (Panic m) \<Rightarrow> Inl (ErrPlain (''panic in Open: '' @ m)) | _ \<Rightarrow> res)"

definition Open :: "os_env \<Rightarrow> fs \<Rightarrow> string \<Rightarrow> int option \<Rightarrow> Reader" where
  "Open env fs path withConcurrency =
    (let concurrency = (case withConcurrency of None \<Rightarrow> defaultConcurrency | Some n \<Rightarrow> n);
         concurrency = (if concurrency < 1 then 1 else concurrency)
     in \<lparr>rresult = recover_open (doOpen env fs path), rconcurrency = concurrency, rclosed = None\<rparr>)"

section \<open>Plain queries\<close>

definition Reader_TotalItems :: "Reader \<Rightarrow> pf_error + nat" where
  "Reader_TotalItems r = (case rresult r of Inl e \<Rightarrow> Inl e | Inr o' \<Rightarrow> Inr (ototalItems o'))"

definition Reader_ContentHash :: "Reader \<Rightarrow> pf_error + bytes \<times> bool" where
  "Reader_ContentHash r = (case rresult r of Inl e \<Rightarrow> Inl e
     | Inr o' \<Rightarrow> Inr (ContentHash (otrailer o'), HasContentHash (otrailer o')))"

definition Reader_AppData :: "Reader \<Rightarrow> pf_error + bytes" where
  "Reader_AppData r = (case rresult r of Inl e \<Rightarrow> Inl e | Inr o' \<Rightarrow> Inr (oappData o'))"

definition Reader_Trailer :: "Reader \<Rightarrow> pf_error + Trailer" where
  "Reader_Trailer r = (case rresult r of Inl e \<Rightarrow> Inl e | Inr o' \<Rightarrow> Inr (otrailer o'))"

text \<open>\<open>Close\<close> closes the file once and returns the same result ever after.\<close>

definition Reader_Close :: "os_env \<Rightarrow> Reader \<Rightarrow> pf_error option \<times> Reader" where
  "Reader_Close env r =
    (case rclosed r of
       Some err \<Rightarrow> (err, r)
     | None \<Rightarrow>
         let err = (case rresult r of Inl e \<Rightarrow> None
                    | Inr o' \<Rightarrow> if close_fails env then Some (ErrIO ''close'') else None)
         in (err, r\<lparr>rclosed := Some err\<rparr>))"

section \<open>Reading items\<close>

definition reader_ReadAt :: "os_env \<Rightarrow> Reader \<Rightarrow> bytes \<Rightarrow> nat \<Rightarrow> int \<Rightarrow> pf_error + bytes" where
  "reader_ReadAt env r contents n off =
    (if off < 0 then Inl (ErrIO ''negative offset'')
     else if n > 0 \<and> rclosed r \<noteq> None then Inl (ErrIO ''file already closed'')
     else ReadAt env contents n off)"

definition reader_getDecoder :: "libzstd \<Rightarrow> decoder option \<Rightarrow> openResult \<Rightarrow> pf_error + decoder" where
  "reader_getDecoder z pool o' =
    (case (case pool of None \<Rightarrow> newDecoder z | Some rd \<Rightarrow> Inr rd) of
       Inl e \<Rightarrow> Inl e
     | Inr rd \<Rightarrow> Inr (rd\<lparr>dformat := Format (otrailer o'), dtotalItems := ototalItems o',
                       ditemsPerRecord := oitemsPerRecord o'\<rparr>))"

text \<open>\<open>offsets[j] - offsets[i]\<close>.\<close>

definition span :: "int list \<Rightarrow> nat \<Rightarrow> nat \<Rightarrow> pf_error + int" where
  "span offs i j =
    (if i < length offs \<and> j < length offs then Inr (int64 (offs ! j - offs ! i))
     else Inl (Panic ''index out of range''))"

definition ReadItem ::
  "os_env \<Rightarrow> libzstd \<Rightarrow> decoder option \<Rightarrow> Reader \<Rightarrow> int \<Rightarrow> (bytes \<Rightarrow> 's \<Rightarrow> pf_error option \<times> 's) \<Rightarrow> 's
    \<Rightarrow> pf_error option \<times> decoder option \<times> 's" where
  "ReadItem env z pool r position fn s =
    (case rresult r of
       Inl e \<Rightarrow> (Some e, pool, s)
     | Inr o' \<Rightarrow>
         if position < 0 \<or> position \<ge> int (ototalItems o') then (Some ErrPositionOutOfRange, pool, s)
         else
           let recordIdx = nat position div oitemsPerRecord o';
               localIdx = nat position mod oitemsPerRecord o'
           in case reader_getDecoder z pool o' of
                Inl e \<Rightarrow> (Some e, None, s)
              | Inr rd \<Rightarrow>
                  (case span (ooffsets o') recordIdx (recordIdx + 1) of
                     Inl e \<Rightarrow> (Some e, Some (putDecoder rd), s)
                   | Inr size' \<Rightarrow>
                       if size' < 0 then (Some (Panic ''slice bounds out of range''), Some (putDecoder rd), s)
                       else case reader_ReadAt env r (ofile o') (nat size') (ooffsets o' ! recordIdx) of
                         Inl e \<Rightarrow> (Some e, Some (putDecoder rd), s)
                       | Inr buf \<Rightarrow>
                           (case Decode z (rd\<lparr>scratch := buf\<rparr>) buf recordIdx of
                              (Some e, rd) \<Rightarrow> (Some e, Some (putDecoder rd), s)
                            | (None, rd) \<Rightarrow>
                                (case Item rd (int localIdx) of
                                   Inl e \<Rightarrow> (Some e, Some (putDecoder rd), s)
                                 | Inr item \<Rightarrow>
                                     (case fn item s of (err, s) \<Rightarrow> (err, Some (putDecoder rd), s))))))"

subsection \<open>Ranges\<close>

text \<open>How a piece of the range loop ends: go on at an item, return, or panic.\<close>

datatype flow = Next nat | Return | Raise pf_error

type_synonym 's yield = "(pf_error + bytes) \<Rightarrow> 's \<Rightarrow> bool \<times> 's"

fun yield_items :: "'s yield \<Rightarrow> decoder \<Rightarrow> int list \<Rightarrow> nat \<Rightarrow> 's \<Rightarrow> flow \<times> 's" where
  "yield_items yield rd [] globalIdx s = (Next globalIdx, s)"
| "yield_items yield rd (i # is) globalIdx s =
    (case Item rd i of
       Inl e \<Rightarrow> (Raise e, s)
     | Inr item \<Rightarrow>
         (case yield (Inr item) s of
            (False, s) \<Rightarrow> (Return, s)
          | (True, s) \<Rightarrow> yield_items yield rd is (globalIdx + 1) s))"

definition yieldRecord ::
  "libzstd \<Rightarrow> openResult \<Rightarrow> 's yield \<Rightarrow> nat \<Rightarrow> decoder \<Rightarrow> bytes \<Rightarrow> nat \<Rightarrow> nat \<Rightarrow> 's
    \<Rightarrow> flow \<times> decoder \<times> 's" where
  "yieldRecord z o' yield endIdx rd recData recIdx globalIdx s =
    (case Decode z rd recData recIdx of
       (Some e, rd) \<Rightarrow>
         if is_panic e then (Raise e, rd, s)
         else (case yield (Inl e) s of (_, s) \<Rightarrow> (Return, rd, s))
     | (None, rd) \<Rightarrow>
         let recStart = int recIdx * int (oitemsPerRecord o');
             lo = int globalIdx - recStart;
             hi = min (int (length (sizes rd))) (int endIdx - recStart)
         in case yield_items yield rd [lo..hi - 1] globalIdx s of (fl, s) \<Rightarrow> (fl, rd, s))"

text \<open>The records of one batch, cut out of the buffer that was read.\<close>

fun yield_records ::
  "libzstd \<Rightarrow> openResult \<Rightarrow> 's yield \<Rightarrow> nat \<Rightarrow> nat \<Rightarrow> bytes \<Rightarrow> nat list \<Rightarrow> decoder \<Rightarrow> nat \<Rightarrow> 's
    \<Rightarrow> flow \<times> decoder \<times> 's" where
  "yield_records z o' yield endIdx batchStart readBuf [] rd globalIdx s = (Next globalIdx, rd, s)"
| "yield_records z o' yield endIdx batchStart readBuf (j # js) rd globalIdx s =
    (case span (ooffsets o') batchStart j of
       Inl e \<Rightarrow> (Raise e, rd, s)
     | Inr lo \<Rightarrow>
         (case span (ooffsets o') batchStart (j + 1) of
            Inl e \<Rightarrow> (Raise e, rd, s)
          | Inr hi \<Rightarrow>
              if lo < 0 \<or> hi < lo \<or> hi > int (length readBuf)
              then (Raise (Panic ''slice bounds out of range''), rd, s)
              else case yieldRecord z o' yield endIdx rd (slice readBuf (nat lo) (nat hi)) j globalIdx s of
                (Next globalIdx, rd, s) \<Rightarrow>
                  yield_records z o' yield endIdx batchStart readBuf js rd globalIdx s
              | other \<Rightarrow> other))"

text \<open>How many records, from \<open>batchStart\<close> on, fit the buffer together.\<close>

function batch_end :: "int list \<Rightarrow> nat \<Rightarrow> nat \<Rightarrow> nat \<Rightarrow> pf_error + nat" where
  "batch_end offs batchStart lastRecord batchEnd =
    (if batchEnd \<le> lastRecord
     then case span offs batchStart (batchEnd + 1) of
            Inl e \<Rightarrow> Inl e
          | Inr n \<Rightarrow> if n \<le> int readBufSize then batch_end offs batchStart lastRecord (batchEnd + 1)
                     else Inr batchEnd
     else Inr batchEnd)"
  by pat_completeness auto
termination
  by (relation "measure (\<lambda>(offs, batchStart, lastRecord, batchEnd). Suc lastRecord - batchEnd)") auto

declare batch_end.simps [simp del]

lemma batch_end_ge: "batch_end offs b l e = Inr e' \<Longrightarrow> e \<le> e'"
proof (induction offs b l e rule: batch_end.induct)
  case (1 offs b l e)
  then show ?case
    by (subst (asm) batch_end.simps) (fastforce split: if_splits sum.splits)
qed

function read_batches ::
  "os_env \<Rightarrow> libzstd \<Rightarrow> Reader \<Rightarrow> openResult \<Rightarrow> 's yield \<Rightarrow> nat \<Rightarrow> nat \<Rightarrow> nat \<Rightarrow> decoder \<Rightarrow> nat \<Rightarrow> 's
    \<Rightarrow> pf_error option \<times> decoder \<times> 's" where
  "read_batches env z r o' yield endIdx lastRecord batchStart rd globalIdx s =
    (if batchStart > lastRecord then (None, rd, s)
     else case batch_end (ooffsets o') batchStart lastRecord (batchStart + 1) of
       Inl e \<Rightarrow> (Some e, rd, s)
     | Inr batchEnd \<Rightarrow>
         (case span (ooffsets o') batchStart (batchStart + 1) of
            Inl e \<Rightarrow> (Some e, rd, s)
          | Inr recBytes \<Rightarrow>
              if recBytes > int readBufSize
              then case reader_ReadAt env r (ofile o') (nat recBytes) (ooffsets o' ! batchStart) of
                     Inl e \<Rightarrow> (case yield (Inl e) s of (_, s) \<Rightarrow> (None, rd, s))
                   | Inr oneOff \<Rightarrow>
                       (case yieldRecord z o' yield endIdx rd oneOff batchStart globalIdx s of
                          (Next globalIdx, rd, s) \<Rightarrow>
                            read_batches env z r o' yield endIdx lastRecord (batchStart + 1) rd globalIdx s
                        | (Return, rd, s) \<Rightarrow> (None, rd, s)
                        | (Raise e, rd, s) \<Rightarrow> (Some e, rd, s))
              else case span (ooffsets o') batchStart batchEnd of
                     Inl e \<Rightarrow> (Some e, rd, s)
                   | Inr batchBytes \<Rightarrow>
                       if batchBytes < 0 \<or> batchBytes > int readBufSize
                       then (Some (Panic ''slice bounds out of range''), rd, s)
                       else case reader_ReadAt env r (ofile o') (nat batchBytes) (ooffsets o' ! batchStart) of
                         Inl e \<Rightarrow> (case yield (Inl e) s of (_, s) \<Rightarrow> (None, rd, s))
                       | Inr readBuf \<Rightarrow>
                           (case yield_records z o' yield endIdx batchStart readBuf
                                   [batchStart..<batchEnd] rd globalIdx s of
                              (Next globalIdx, rd, s) \<Rightarrow>
                                read_batches env z r o' yield endIdx lastRecord batchEnd rd globalIdx s
                            | (Return, rd, s) \<Rightarrow> (None, rd, s)
                            | (Raise e, rd, s) \<Rightarrow> (Some e, rd, s))))"
  by pat_completeness auto
termination
  by (relation "measure (\<lambda>(env, z, r, o', yield, endIdx, lastRecord, batchStart, rd, g, s).
        Suc lastRecord - batchStart)")
    (auto dest: batch_end_ge)

declare read_batches.simps [simp del]

definition ReadRange ::
  "os_env \<Rightarrow> libzstd \<Rightarrow> decoder option \<Rightarrow> Reader \<Rightarrow> int \<Rightarrow> int \<Rightarrow> 's yield \<Rightarrow> 's
    \<Rightarrow> pf_error option \<times> decoder option \<times> 's" where
  "ReadRange env z pool r start cnt yield s =
    (if cnt = 0 then (None, pool, s)
     else case rresult r of
       Inl e \<Rightarrow> (case yield (Inl e) s of (_, s) \<Rightarrow> (None, pool, s))
     | Inr o' \<Rightarrow>
         if start < 0 \<or> cnt < 0 \<or> start > int (ototalItems o') \<or> cnt > int (ototalItems o') - start
         then (Some (Panic ''ReadRange out of range''), pool, s)
         else
           let firstRecord = nat start div oitemsPerRecord o';
               lastRecord = nat (start + cnt - 1) div oitemsPerRecord o';
               endIdx = nat (start + cnt)
           in case reader_getDecoder z pool o' of
                Inl e \<Rightarrow> (Some e, None, s)
              | Inr rd \<Rightarrow>
                  (case read_batches env z r o' yield endIdx lastRecord firstRecord rd (nat start) s of
                     (err, rd, s) \<Rightarrow> (err, Some (putDecoder rd), s)))"

section \<open>Verify\<close>

text \<open>
  The loop body of \<open>Verify\<close> over the range: its state is the hasher, the number of
  items and the error returned from within the loop. \<open>ctx i\<close> is the context's
  error when polled after \<open>i\<close> items.
\<close>

type_synonym verify_state = "contentHasher \<times> nat \<times> pf_error option"

definition verify_yield :: "(nat \<Rightarrow> pf_error option) \<Rightarrow> nat \<Rightarrow> verify_state yield" where
  "verify_yield ctx itemsPerRecord item st =
    (case st of (hasher, i, ret) \<Rightarrow>
       case item of
         Inl e \<Rightarrow> (False, (hasher, i, Some e))
       | Inr item \<Rightarrow>
           let hasher = hasher_Add hasher [item]; i = i + 1
           in if i mod itemsPerRecord = 0
              then case ctx i of
                     Some e \<Rightarrow> (False, (hasher, i, Some e))
                   | None \<Rightarrow> (True, (hasher, i, None))
              else (True, (hasher, i, None)))"

definition Verify ::
  "os_env \<Rightarrow> libzstd \<Rightarrow> decoder option \<Rightarrow> Reader \<Rightarrow> (nat \<Rightarrow> pf_error option)
    \<Rightarrow> pf_error option \<times> decoder option" where
  "Verify env z pool r ctx =
    (case rresult r of
       Inl e \<Rightarrow> (Some e, pool)
     | Inr o' \<Rightarrow>
         if \<not> HasContentHash (otrailer o') then (None, pool)
         else case newContentHasher (int (oitemsPerRecord o')) of
           Inl e \<Rightarrow> (Some e, pool)
         | Inr hasher \<Rightarrow>
             (case ReadRange env z pool r 0 (int (ototalItems o'))
                     (verify_yield ctx (oitemsPerRecord o')) (hasher, 0, None) of
                (Some e, pool, _) \<Rightarrow> (Some e, pool)
              | (None, pool, (hasher, i, Some e)) \<Rightarrow> (Some e, pool)
              | (None, pool, (hasher, i, None)) \<Rightarrow>
                  if fst (hasher_Sum hasher) \<noteq> ContentHash (otrailer o')
                  then (Some ErrContentHashMismatch, pool)
                  else (None, pool)))"

end
