(* ===== verification/Read_File.thy ===== *)
theory Read_File
  imports Record_Codec Reader
begin

text \<open>
  What a reader of a well-formed packfile returns, and what opening any file at all
  establishes.
\<close>

section \<open>The trailer\<close>

definition image_Trailer ::
  "RecordFormat \<Rightarrow> bool \<Rightarrow> nat \<Rightarrow> bytes list \<Rightarrow> nat \<Rightarrow> nat \<Rightarrow> nat \<Rightarrow> uint32 \<Rightarrow> Trailer" where
  "image_Trailer fmt hashed k items records indexLen appLen crc =
    \<lparr>Version = version, RecordCount = of_nat records, TotalItems = of_nat (length items),
      ItemsPerRecord = of_nat k, IndexSize = of_nat indexLen, AppDataSize = of_nat appLen,
      ContentHash = (if hashed then content_hash k items else replicate 32 0),
      IndexForGroupSize = of_nat groupSize, Format = fmt, HasContentHash = hashed, Checksum = crc\<rparr>"

lemma image_flags_known:
  "known_format fmt \<Longrightarrow> image_flags fmt hashed AND NOT knownFlags = 0 \<and>
    (image_flags fmt hashed AND flagContentHash \<noteq> 0) = hashed \<and>
    (image_flags fmt hashed AND flagNoCompression = 0 \<longleftrightarrow> fmt = Compressed) \<and>
    (image_flags fmt hashed AND flagNoCRC \<noteq> 0 \<longleftrightarrow> fmt = Raw)"
  by (cases fmt; cases hashed)
    (simp_all add: known_format_def image_flags_def knownFlags_def flagNoCompression_def
      flagContentHash_def flagNoCRC_def)

lemma parse_trailer_image:
  assumes "known_format fmt"
  shows "parse_trailer (image_trailer fmt hashed k items records il al @ PutUint32 crc) =
    Inr (image_Trailer fmt hashed k items records il al crc)"
proof -
  define hash where "hash = (if hashed then content_hash k items else replicate 32 0)"
  define fl where "fl = image_flags fmt hashed"
  define tb where "tb = PutUint32 magic @ [version] @ [fl] @ PutUint32 (of_nat records) @
    PutUint32 (of_nat (length items)) @ PutUint32 (of_nat k) @ PutUint32 (of_nat il) @
    PutUint32 (of_nat al) @ hash @ PutUint16 (of_nat groupSize) @ PutUint32 crc"
  have len: "length hash = 32" by (simp add: hash_def)
  have fields: "Uint32 tb = magic" "tb ! 4 = version" "tb ! 5 = fl"
    "Uint16 (drop 58 tb) = of_nat groupSize" "Uint32 (drop 6 tb) = of_nat records"
    "Uint32 (drop 10 tb) = of_nat (length items)" "Uint32 (drop 14 tb) = of_nat k"
    "Uint32 (drop 18 tb) = of_nat il" "Uint32 (drop 22 tb) = of_nat al"
    "slice tb 26 58 = hash" "Uint32 (drop 60 tb) = crc"
    unfolding tb_def by (simp_all add: len nth_append slice_def)
  have g: "unat (of_nat groupSize :: uint16) = groupSize" by (simp add: groupSize_def)
  have fmt: "fmt \<noteq> Compressed \<Longrightarrow> fmt \<noteq> Raw \<Longrightarrow> Uncompressed = fmt"
    using assms by (cases fmt) (auto simp: known_format_def)
  have "parse_trailer tb = Inr (image_Trailer fmt hashed k items records il al crc)"
    using image_flags_known [OF assms, of hashed] fmt
    by (simp add: parse_trailer_def fields g Let_def image_Trailer_def flip: fl_def)
      (simp add: hash_def)
  then show ?thesis by (simp add: tb_def image_trailer_def hash_def fl_def)
qed

section \<open>Opening a well-formed file\<close>

text \<open>The files a successful session writes, within the widths of the trailer's fields.\<close>

definition image_ok ::
  "libzstd \<Rightarrow> RecordFormat \<Rightarrow> nat \<Rightarrow> bytes list \<Rightarrow> bytes list \<Rightarrow> bytes \<Rightarrow> bytes \<Rightarrow> bool" where
  "image_ok z fmt k items blocks index appData \<longleftrightarrow>
    known_format fmt \<and> 0 < k \<and> k < 2 ^ 32 \<and> length items < 2 ^ 32 \<and>
    image_blocks z fmt k items blocks \<and> length (concat blocks) < 2 ^ 63 \<and>
    encodeIndex (block_offsets blocks) = Inr index \<and> length index < 2 ^ 32 \<and>
    length appData < 2 ^ 32"

lemma image_blocks_length: "image_blocks z fmt k items blocks \<Longrightarrow> length blocks = length (chunks k items)"
  by (simp add: image_blocks_def list_all2_lengthD)

lemma length_chunks_le: "0 < k \<Longrightarrow> length (chunks k xs) \<le> length xs"
proof -
  assume k: "0 < k"
  have "length xs + k - 1 < Suc (length xs) * k" using k by (cases k) auto
  then have "(length xs + k - 1) div k < Suc (length xs)"
    using k by (metis div_less_iff_less_mult)
  then show ?thesis using length_chunks [OF k, of xs] by simp
qed

lemma read_tail_image:
  assumes env: "read_ok env" and contents: "contents = data @ index @ appData @ tb" "length tb = trailerSize"
    and m: "m \<le> length contents"
  shows "read_tail env contents (drop m contents) (length index) (length appData) = Inr (index, appData)"
proof (cases "length index + length appData + trailerSize \<le> length (drop m contents)")
  case True
  then have le: "m \<le> length data" using contents m by simp
  then have "drop m contents = drop m data @ index @ appData @ tb" using contents by simp
  then show ?thesis
    using True contents(2) le
    by (auto simp: read_tail_def Let_def slice_def)
next
  case False
  have base: "int (length contents) - int trailerSize - int (length appData) - int (length index)
      = int (length data)"
    using contents by simp
  have "ReadAt env contents (length index + length appData) (int (length data)) = Inr (index @ appData)"
    using contents by (subst ReadAt_ok [OF env]) (simp_all add: slice_def)
  with False show ?thesis
    by (auto simp: read_tail_def Let_def base slice_def)
qed

lemma check_records_chunks:
  assumes "0 < k"
  shows "check_records (length items) k (length (chunks k items)) = None"
  using assms length_chunks [OF assms, of items] by (simp add: check_records_def Let_def)

definition image_result ::
  "RecordFormat \<Rightarrow> bool \<Rightarrow> nat \<Rightarrow> bytes list \<Rightarrow> bytes list \<Rightarrow> bytes \<Rightarrow> bytes \<Rightarrow> openResult" where
  "image_result fmt hashed k items blocks index appData =
    \<lparr>ofile = file_image fmt hashed k items blocks index appData,
      otrailer = image_Trailer fmt hashed k items (length blocks) (length index) (length appData)
        (CRC32C (image_trailer fmt hashed k items (length blocks) (length index) (length appData))),
      ooffsets = block_offsets blocks, oappData = appData, ototalItems = length items,
      oitemsPerRecord = k\<rparr>"

text \<open>Opening a file that ends in a trailer with a valid CRC.\<close>

lemma doOpen_parts:
  assumes env: "read_ok env"
    and disk: "fs path = Some contents" "contents = data @ index @ appData @ body @ PutUint32 (CRC32C body)"
    and body: "length body = 60" "parse_trailer (body @ PutUint32 (CRC32C body)) = Inr t"
      "Checksum t = CRC32C body"
    and fields: "unat (IndexSize t) = length index" "unat (AppDataSize t) = length appData"
  shows "doOpen env fs path =
    (case decodeIndex index (unat (RecordCount t)) (length index) (int (length data)) of
       Inl e \<Rightarrow> Inl e
     | Inr offsets \<Rightarrow>
         (case check_records (unat (TotalItems t)) (unat (ItemsPerRecord t)) (unat (RecordCount t)) of
            Some e \<Rightarrow> Inl e
          | None \<Rightarrow> Inr
              \<lparr>ofile = contents,
                otrailer = (if unat (ItemsPerRecord t) = 0 then t\<lparr>ItemsPerRecord := 1\<rparr> else t),
                ooffsets = offsets, oappData = appData, ototalItems = unat (TotalItems t),
                oitemsPerRecord = (if unat (ItemsPerRecord t) = 0 then 1 else unat (ItemsPerRecord t))\<rparr>))"
proof -
  define tb where "tb = body @ PutUint32 (CRC32C body)"
  have contents: "contents = data @ index @ appData @ tb" "length tb = trailerSize"
    using disk(2) body(1) by (simp_all add: tb_def trailerSize_def)
  define n where "n = min speculativeReadSize (length contents)"
  have le: "n \<le> length contents" by (simp add: n_def)
  have spec: "ReadAt env contents n (int (length contents - n)) = Inr (drop (length contents - n) contents)"
    using ReadAt_ok [OF env, of "int (length contents - n)" n contents] le
    by (simp add: slice_def del: of_nat_diff)
  have n: "trailerSize \<le> n"
    using contents by (simp add: n_def speculativeReadSize_def trailerSize_def)
  have last: "drop (length contents - trailerSize) contents = tb"
    using contents by simp
  have tail: "drop (n - trailerSize) (drop (length contents - n) contents) = tb"
    using n last by (simp add: n_def)
  have base: "int (length contents) - int trailerSize - int (length appData) - int (length index)
      = int (length data)"
    using contents by simp
  have rt: "read_tail env contents (drop (length contents - n) contents) (length index) (length appData)
      = Inr (index, appData)"
    by (rule read_tail_image [OF env contents]) simp
  have "take 60 tb = body" by (simp add: tb_def body(1))
  moreover have "length (drop (length contents - n) contents) = n" by (simp add: n_def)
  moreover have "trailerSize \<le> length contents" using contents by simp
  moreover have "int (length index) \<le> int (length contents) - int trailerSize - int (length appData)"
    using base by linarith
  moreover have "\<not> open_fails env path" "\<not> stat_fails env path" using env by (simp_all add: read_ok_def)
  ultimately show ?thesis
    using disk(1) body(2,3) spec tail rt
    by (simp add: doOpen_def fields base n_def [symmetric] Let_def not_less tb_def
        split: sum.split option.split)
qed

lemma doOpen_image:
  assumes env: "read_ok env" and disk: "fs path = Some (file_image fmt hashed k items blocks index appData)"
    and ok: "image_ok z fmt k items blocks index appData"
  shows "doOpen env fs path = Inr (image_result fmt hashed k items blocks index appData)"
proof -
  let ?body = "image_trailer fmt hashed k items (length blocks) (length index) (length appData)"
  let ?t = "image_Trailer fmt hashed k items (length blocks) (length index) (length appData) (CRC32C ?body)"
  have lens: "unat (of_nat (length blocks) :: uint32) = length blocks"
    "unat (of_nat (length items) :: uint32) = length items" "unat (of_nat k :: uint32) = k"
    "unat (of_nat (length index) :: uint32) = length index"
    "unat (of_nat (length appData) :: uint32) = length appData"
    using ok image_blocks_length length_chunks_le [of k items]
    by (auto simp: image_ok_def unat_of_nat take_bit_nat_eq_self)
  have enc: "encodeIndex (block_offsets blocks) = Inr index" "length (concat blocks) < 2 ^ 63"
    using ok by (simp_all add: image_ok_def)
  have "last (block_offsets blocks) = int (length (concat blocks))"
    by (simp add: block_offsets_def del: length_concat)
  then have index: "decodeIndex index (length blocks) (length index) (int (length (concat blocks)))
      = Inr (block_offsets blocks)"
    using decodeIndex_encodeIndex [OF offset_table_encoded [OF enc] enc(1), of "[]"]
    by (simp del: length_concat)
  have chk: "check_records (length items) k (length blocks) = None"
    using ok check_records_chunks [of k items] image_blocks_length
    by (auto simp: image_ok_def)
  have contents: "file_image fmt hashed k items blocks index appData
      = concat blocks @ index @ appData @ ?body @ PutUint32 (CRC32C ?body)"
    by (simp add: file_image_def Let_def)
  have "parse_trailer (?body @ PutUint32 (CRC32C ?body)) = Inr ?t"
    using ok by (intro parse_trailer_image) (simp add: image_ok_def)
  from doOpen_parts [where fs = fs and path = path, OF env disk contents _ this] show ?thesis
    using index chk ok
    by (simp add: image_Trailer_def lens image_ok_def image_result_def del: length_concat)
qed

section \<open>Opening any file\<close>

lemma slice_drop: "slice (drop m xs) a b = slice xs (m + a) (m + b)"
  by (simp add: slice_def add.commute)

lemma slice_split: "b + n \<le> length xs \<Longrightarrow> xs = take b xs @ slice xs b (b + n) @ drop (b + n) xs"
  by (metis add_diff_cancel_left' append_take_drop_id drop_drop slice_def add.commute)

lemma ReadAt_Inr:
  "ReadAt env contents n off = Inr buf \<Longrightarrow> buf = slice contents (nat off) (nat off + n) \<and> length buf = n"
  by (auto simp: ReadAt_def slice_def split: if_splits)

lemma read_tail_Inr:
  assumes rt: "read_tail env contents (drop m contents) il al = Inr (indexBuf, appData)"
    and m: "m \<le> length contents" and b: "b + il + al + trailerSize = length contents"
  shows "indexBuf = slice contents b (b + il)"
proof -
  have base: "int (length contents) - int trailerSize - int al - int il = int b"
    using b by linarith
  have "m + (length contents - m - (il + al + trailerSize)) = b"
    if "il + al + trailerSize \<le> length contents - m" using that b m by linarith
  then show ?thesis
    using rt m by (auto simp: read_tail_def Let_def slice_drop base slice_def ac_simps dest!: ReadAt_Inr
        split: if_splits sum.splits)
qed

text \<open>What a successful open has checked, whatever the file contains.\<close>

definition open_checked :: "bytes \<Rightarrow> Trailer \<Rightarrow> openResult \<Rightarrow> bool" where
  "open_checked contents t o' \<longleftrightarrow>
    (let tb = drop (length contents - trailerSize) contents;
         indexBase = length contents - trailerSize - unat (AppDataSize t) - unat (IndexSize t)
     in unat (IndexSize t) + unat (AppDataSize t) + trailerSize \<le> length contents \<and>
       parse_trailer tb = Inr t \<and> CRC32C (take 60 tb) = Checksum t \<and>
       decodeIndex (slice contents indexBase (indexBase + unat (IndexSize t)))
         (unat (RecordCount t)) (unat (IndexSize t)) (int indexBase) = Inr (ooffsets o') \<and>
       check_records (unat (TotalItems t)) (unat (ItemsPerRecord t)) (unat (RecordCount t)) = None \<and>
       ofile o' = contents \<and> ototalItems o' = unat (TotalItems t) \<and>
       oitemsPerRecord o' = (if ItemsPerRecord t = 0 then 1 else unat (ItemsPerRecord t)))"

lemma doOpen_Inr:
  assumes "doOpen env fs path = Inr o'"
  shows "\<exists>contents t. fs path = Some contents \<and> open_checked contents t o'"
proof -
  from assms obtain contents where c: "fs path = Some contents" "\<not> open_fails env path"
    "\<not> stat_fails env path" "trailerSize \<le> length contents"
    by (auto simp: doOpen_def Let_def split: if_splits option.splits)
  define n where "n = min speculativeReadSize (length contents)"
  have n: "n \<le> length contents" "trailerSize \<le> n"
    using c(4) by (simp_all add: n_def speculativeReadSize_def trailerSize_def)
  obtain spec where "ReadAt env contents n (int (length contents - n)) = Inr spec"
    using assms c by (auto simp: doOpen_def Let_def n_def split: sum.splits)
  note spec = this
  have spec_eq: "spec = drop (length contents - n) contents"
    using ReadAt_Inr [OF spec] n by (simp add: slice_def del: of_nat_diff)
  have tb: "drop (length spec - trailerSize) spec = drop (length contents - trailerSize) contents"
    using n by (simp add: spec_eq)
  obtain t where t: "parse_trailer (drop (length contents - trailerSize) contents) = Inr t"
    using assms c spec tb by (auto simp: doOpen_def Let_def not_less simp flip: n_def split: sum.splits)
  define b where "b = length contents - trailerSize - unat (AppDataSize t) - unat (IndexSize t)"
  let ?base = "int (length contents) - int trailerSize - int (unat (AppDataSize t)) - int (unat (IndexSize t))"
  have base0: "0 \<le> ?base"
    using assms c spec tb t by (auto simp: doOpen_def Let_def not_less simp flip: n_def split: if_splits)
  then have base: "?base = int b" and sum: "b + unat (IndexSize t) + unat (AppDataSize t) + trailerSize = length contents"
    unfolding b_def by linarith+
  obtain ib ad where rt: "read_tail env contents spec (unat (IndexSize t)) (unat (AppDataSize t)) = Inr (ib, ad)"
    using assms c spec tb t base
    by (auto simp: doOpen_def Let_def not_less simp flip: n_def split: sum.splits)
  have ib: "ib = slice contents b (b + unat (IndexSize t))"
    by (rule read_tail_Inr [OF rt [unfolded spec_eq] _ sum]) simp
  have rest: "CRC32C (take 60 (drop (length contents - trailerSize) contents)) = Checksum t"
    "decodeIndex ib (unat (RecordCount t)) (unat (IndexSize t)) (int b) = Inr (ooffsets o')"
    "check_records (unat (TotalItems t)) (unat (ItemsPerRecord t)) (unat (RecordCount t)) = None"
    "ofile o' = contents" "ototalItems o' = unat (TotalItems t)"
    "oitemsPerRecord o' = (if ItemsPerRecord t = 0 then 1 else unat (ItemsPerRecord t))"
    using assms c spec tb t base rt
    by (auto simp: doOpen_def Let_def not_less unat_eq_zero simp flip: n_def
        split: sum.splits option.splits if_splits)
  have "open_checked contents t o'"
    unfolding open_checked_def Let_def b_def [symmetric] using t rest ib sum by simp
  then show ?thesis using c(1) by blast
qed

text \<open>
  Every position below the item count then has a record in the offset table:
  unless the trailer's \<open>ItemsPerRecord\<close> is zero, when the code skips the check.
\<close>

lemma open_checked_table:
  assumes "open_checked contents t o'"
  shows "offset_table (ooffsets o')" "length (ooffsets o') = Suc (unat (RecordCount t))"
    "last (ooffsets o') \<le> int (length contents)" "0 < oitemsPerRecord o'"
    "ItemsPerRecord t \<noteq> 0 \<Longrightarrow> pos < ototalItems o' \<Longrightarrow> Suc (pos div oitemsPerRecord o') < length (ooffsets o')"
proof -
  define b where "b = length contents - trailerSize - unat (AppDataSize t) - unat (IndexSize t)"
  have dec: "decodeIndex (slice contents b (b + unat (IndexSize t))) (unat (RecordCount t))
      (unat (IndexSize t)) (int b) = Inr (ooffsets o')"
    using assms unfolding open_checked_def Let_def b_def by blast
  have n: "unat (RecordCount t) < 2 ^ 32" using unsigned_less [of "RecordCount t"] by simp
  note tab = decodeIndex_table [OF dec n]
  show "offset_table (ooffsets o')" using tab(1) by simp
  show len: "length (ooffsets o') = Suc (unat (RecordCount t))" using tab(2) by simp
  show "last (ooffsets o') \<le> int (length contents)" using tab(3) by (simp add: b_def)
  have o': "oitemsPerRecord o' = (if ItemsPerRecord t = 0 then 1 else unat (ItemsPerRecord t))"
    "ototalItems o' = unat (TotalItems t)"
    "check_records (unat (TotalItems t)) (unat (ItemsPerRecord t)) (unat (RecordCount t)) = None"
    using assms by (simp_all add: open_checked_def Let_def)
  show pos: "0 < oitemsPerRecord o'" using o'(1) by (simp add: word_gt_0 unat_gt_0)
  show "Suc (pos div oitemsPerRecord o') < length (ooffsets o')"
    if "ItemsPerRecord t \<noteq> 0" "pos < ototalItems o'"
  proof -
    let ?k = "oitemsPerRecord o'"
    have k: "?k = unat (ItemsPerRecord t)" using o'(1) that(1) by simp
    then have rc: "unat (RecordCount t) = (ototalItems o' + ?k - 1) div ?k"
      using o'(2,3) that pos by (auto simp: check_records_def Let_def split: if_splits)
    have "pos div ?k * ?k \<le> pos" by simp
    then have "pos div ?k * ?k < ototalItems o'" using that(2) by linarith
    then have "pos div ?k < unat (RecordCount t)"
      using ceil_div_le [OF pos] rc by simp
    then show ?thesis using len by simp
  qed
qed

section \<open>Reading any file\<close>

lemma is_panic_zstd: "is_panic (zstd_to_pf e) \<longleftrightarrow> (\<exists>m. e = ZPanic m)"
  by (cases e) auto

lemma DecodeGroup_length: "DecodeGroup buf (int n) dst = Inr (vs, c) \<Longrightarrow> length vs = n"
  using DecodeGroup_InrD(2) [of buf "int n" dst vs c] by simp

text \<open>
  Whatever the bytes of a record are, decoding it ends in an error value or in items,
  unless a compressed record claims a content that cannot be allocated.
\<close>

definition harmless :: "RecordFormat \<Rightarrow> pf_error \<Rightarrow> bool" where
  "harmless fmt e \<longleftrightarrow> \<not> is_panic e \<or> fmt = Compressed \<and> e = Panic ''makeslice: len out of range''"

lemma Decode_harmless:
  assumes rd: "open_decoder rd" and k: "0 < ditemsPerRecord rd"
    and r: "r * ditemsPerRecord rd < dtotalItems rd"
    and n: "n = min (ditemsPerRecord rd) (dtotalItems rd - r * ditemsPerRecord rd)"
  shows "case Decode z rd data r of
      (Some e, rd') \<Rightarrow> harmless (dformat rd) e
    | (None, rd') \<Rightarrow> length (sizes rd') = n \<and> item_offsets rd' = size_sums 0 (sizes rd') \<and>
        (ditemsPerRecord rd = 1 \<longrightarrow> sizes rd' = [of_nat (length (decompressed rd'))]) \<and>
        (ditemsPerRecord rd \<noteq> 1 \<longrightarrow> sum_list (map unat (sizes rd')) = length (decompressed rd'))"
proof -
  have items: "itemsInRecord (dtotalItems rd) (ditemsPerRecord rd) r = Inr n"
    using itemsInRecord_chunk [OF k, of r "replicate (dtotalItems rd) (0::nat)"] r n
    by (simp add: nth_chunks k)
  have payload: "decode_payload z rd body = Inl e \<Longrightarrow> harmless (dformat rd) e" for body e
  proof (cases "dformat rd = Compressed \<or> dformat rd = Raw")
    case True
    assume "decode_payload z rd body = Inl e"
    then show ?thesis
      using rd True
      by (auto simp: decode_payload_def open_decoder_def harmless_def is_panic_zstd
          split: sum.splits dest!: Decompressor_Decode_panic)
  qed (auto simp: decode_payload_crc harmless_def split: if_splits)
  have strip: "strip_item_index n data = Inl e \<Longrightarrow> harmless (dformat rd) e" for e
    by (simp add: harmless_def strip_item_index_no_panic)
  have grp: "DecodeGroup buf i dst = Inl e \<Longrightarrow> harmless (dformat rd) (intpack_to_pf ErrIntpack e)" for buf i dst e
    using DecodeGroup_no_panic [of buf i dst] by (auto simp: harmless_def intpack_to_pf_wrap)
  have n1: "ditemsPerRecord rd = 1 \<Longrightarrow> n = 1" using r n by simp
  have np: "\<not> is_panic e \<Longrightarrow> harmless fmt e" for fmt e by (simp add: harmless_def)
  show ?thesis
    using items payload strip n1 k
    by (auto simp: np Decode_def Let_def build_offsets_def split: sum.splits if_splits dest: DecodeGroup_length grp)
qed

lemma span_table:
  assumes "offset_table offs" "i \<le> j" "j < length offs"
  shows "span offs i j = Inr (offs ! j - offs ! i)" "0 \<le> offs ! j - offs ! i"
proof -
  have "offs ! i \<le> offs ! j" using offset_table_mono assms by blast
  moreover have "0 \<le> offs ! i" "offs ! j \<le> last offs"
    using offset_table_nonneg offset_table_le_last assms by auto
  moreover have "last offs < 2 ^ 63" using assms(1) by (simp add: offset_table_def)
  ultimately show "span offs i j = Inr (offs ! j - offs ! i)" "0 \<le> offs ! j - offs ! i"
    using assms(2,3) by (auto simp: span_def int64_nonneg)
qed

definition pool_ok :: "decoder option \<Rightarrow> bool" where
  "pool_ok pool \<longleftrightarrow> (\<forall>rd. pool = Some rd \<longrightarrow> open_decoder rd)"

lemma pool_ok_putDecoder [simp]: "pool_ok (Some (putDecoder rd)) \<longleftrightarrow> open_decoder rd"
  by (simp add: pool_ok_def putDecoder_def open_decoder_def)

lemma pool_ok_None [simp]: "pool_ok None"
  by (simp add: pool_ok_def)

lemma reader_getDecoder_ok:
  assumes "createDCtx z" "pool_ok pool"
  shows "\<exists>rd. reader_getDecoder z pool o' = Inr rd \<and> open_decoder rd \<and>
    dformat rd = Format (otrailer o') \<and> dtotalItems rd = ototalItems o' \<and>
    ditemsPerRecord rd = oitemsPerRecord o'"
  using assms
  by (cases pool)
    (auto simp: reader_getDecoder_def newDecoder_def NewDecompressor_def pool_ok_def open_decoder_def)

lemma Decode_keeps:
  assumes "Decode z rd data r = (err, rd')"
  shows "dformat rd' = dformat rd" "dtotalItems rd' = dtotalItems rd"
    "ditemsPerRecord rd' = ditemsPerRecord rd" "decompressor rd' = decompressor rd"
  using assms
  by (auto simp: Decode_def Let_def build_offsets_def split: sum.splits if_splits)

lemma reader_ReadAt_no_panic: "reader_ReadAt env r contents n off = Inl e \<Longrightarrow> \<not> is_panic e"
  by (auto simp: reader_ReadAt_def ReadAt_def split: if_splits)

text \<open>Every item of a decoded record can be taken.\<close>

lemma Item_decoded:
  assumes "item_offsets rd = size_sums 0 (sizes rd)" "sum_list (map unat (sizes rd)) \<le> length (decompressed rd)"
    and "i < length (sizes rd)"
  shows "\<exists>x. Item rd (int i) = Inr x"
proof -
  have "sizes rd = take (Suc i) (sizes rd) @ drop (Suc i) (sizes rd)" by simp
  then have "sum_list (map unat (take (Suc i) (sizes rd))) \<le> sum_list (map unat (sizes rd))"
    by (metis le_add1 map_append sum_list_append)
  then show ?thesis
    using assms Item_slice [of rd i] by simp
qed

lemma Decode_Item:
  assumes "open_decoder rd" "0 < ditemsPerRecord rd" "pos < dtotalItems rd"
    and dec: "Decode z rd data (pos div ditemsPerRecord rd) = (None, rd')"
  shows "\<exists>x. Item rd' (int (pos mod ditemsPerRecord rd)) = Inr x"
proof -
  let ?k = "ditemsPerRecord rd" let ?r = "pos div ?k"
  have pos: "?r * ?k + pos mod ?k = pos" "pos mod ?k < ?k" using assms(2) by simp_all
  then have "?r * ?k < dtotalItems rd" using assms(3) by linarith
  from Decode_harmless [OF assms(1,2) this refl, of z data] dec
  have d: "length (sizes rd') = min ?k (dtotalItems rd - ?r * ?k)" "item_offsets rd' = size_sums 0 (sizes rd')"
    "?k = 1 \<longrightarrow> sizes rd' = [of_nat (length (decompressed rd'))]"
    "?k \<noteq> 1 \<longrightarrow> sum_list (map unat (sizes rd')) = length (decompressed rd')"
    by auto
  have "unat (of_nat (length (decompressed rd')) :: uint32) \<le> length (decompressed rd')"
    by (simp add: unat_of_nat take_bit_nat_less_eq_self)
  then have "sum_list (map unat (sizes rd')) \<le> length (decompressed rd')"
    using d(3,4) by (cases "?k = 1") auto
  moreover have "pos mod ?k < length (sizes rd')" using d(1) pos assms(3) by linarith
  ultimately show ?thesis using Item_decoded d(2) by blast
qed

lemma ReadItem_robust:
  assumes r: "rresult r = Inr o'" "open_checked contents t o'" "ItemsPerRecord t \<noteq> 0"
    and env: "createDCtx z" "pool_ok pool"
    and fn: "\<And>item s e. fst (fn item s) = Some e \<Longrightarrow> \<not> is_panic e"
    and run: "ReadItem env z pool r pos fn s = (err, pool', s')"
  shows "err = Some e \<Longrightarrow> harmless (Format (otrailer o')) e" "pool_ok pool'"
proof -
  have fn': "fn item s = (Some e, s'') \<Longrightarrow> harmless (Format (otrailer o')) e" for item s e s''
    using fn [of item s e] by (simp add: harmless_def)
  have "(\<forall>e. err = Some e \<longrightarrow> harmless (Format (otrailer o')) e) \<and> pool_ok pool'"
  proof (cases "pos < 0 \<or> int (ototalItems o') \<le> pos")
    case True
    then show ?thesis using run r(1) env by (auto simp: ReadItem_def harmless_def)
  next
    case False
    let ?k = "oitemsPerRecord o'" let ?rec = "nat pos div ?k"
    obtain rd where rd: "reader_getDecoder z pool o' = Inr rd" "open_decoder rd"
      "dtotalItems rd = ototalItems o'" "ditemsPerRecord rd = ?k" "dformat rd = Format (otrailer o')"
      using reader_getDecoder_ok [OF env] by blast
    note tab = open_checked_table [OF r(2)]
    have lt: "nat pos < ototalItems o'" using False by linarith
    have rec: "Suc ?rec < length (ooffsets o')" using tab(5) [OF r(3) lt] by simp
    note sp = span_table [OF tab(1), of ?rec "?rec + 1"]
    have pos: "?rec * ?k < ototalItems o'"
      using lt div_times_less_eq_dividend [of "nat pos" ?k] by linarith
    show ?thesis
    proof (cases "reader_ReadAt env r (ofile o') (nat (ooffsets o' ! (?rec + 1) - ooffsets o' ! ?rec)) (ooffsets o' ! ?rec)")
      case (Inl e)
      then show ?thesis
        using run r(1) False rd(1,2) sp rec reader_ReadAt_no_panic [OF Inl]
        by (auto simp: ReadItem_def harmless_def)
    next
      case (Inr buf)
      let ?rd = "rd\<lparr>scratch := buf\<rparr>"
      obtain e' rd' where dec: "Decode z ?rd buf ?rec = (e', rd')" by fastforce
      have rd1: "open_decoder ?rd" "0 < ditemsPerRecord ?rd" "?rec * ditemsPerRecord ?rd < dtotalItems ?rd"
        using rd(2,3,4) tab(4) pos by (simp_all add: open_decoder_def)
      have keep: "open_decoder rd'" using Decode_keeps [OF dec] rd1(1) by (simp add: open_decoder_def)
      have ex: "e' = None \<Longrightarrow> \<exists>x. Item rd' (int (nat pos mod ?k)) = Inr x"
        using Decode_Item [OF rd1(1,2), of "nat pos" z buf rd'] rd(3,4) dec lt by simp
      have np: "e' = Some e \<Longrightarrow> harmless (Format (otrailer o')) e" for e
        using Decode_harmless [OF rd1 refl, of z buf] dec rd(5) by simp
      show ?thesis
        using run r(1) False rd(1) sp rec Inr dec ex keep np
        by (cases e') (auto simp: ReadItem_def split: prod.splits dest: fn')
    qed
  qed
  then show "err = Some e \<Longrightarrow> harmless (Format (otrailer o')) e" "pool_ok pool'" by auto
qed

end
