(* ===== verification/Read_Back.thy ===== *)
theory Read_Back
  imports Read_File
begin

text \<open>
  Reading back: a reader whose file holds the records of a list of items returns
  these items, one by one (\<open>ReadItem\<close>) and in order (\<open>ReadRange\<close>), and \<open>Verify\<close>
  accepts the file. \<open>feed\<close> is the specification of an iterator: the consumer is fed
  the items in order until it stops.
\<close>

section \<open>Stored records\<close>

definition stored_blocks :: "libzstd \<Rightarrow> openResult \<Rightarrow> bytes list \<Rightarrow> bytes list \<Rightarrow> bool" where
  "stored_blocks z o' items blocks \<longleftrightarrow>
    0 < oitemsPerRecord o' \<and> ototalItems o' = length items \<and>
    image_blocks z (Format (otrailer o')) (oitemsPerRecord o') items blocks \<and>
    ooffsets o' = block_offsets blocks \<and> offset_table (ooffsets o') \<and>
    (\<exists>rest. ofile o' = concat blocks @ rest) \<and>
    (\<forall>c \<in> set (chunks (oitemsPerRecord o') items). decodable (Format (otrailer o')) c)"

definition readable :: "os_env \<Rightarrow> libzstd \<Rightarrow> Reader \<Rightarrow> openResult \<Rightarrow> bytes list \<Rightarrow> bool" where
  "readable env z r o' items \<longleftrightarrow> read_ok env \<and> zstd_contract z \<and> rresult r = Inr o' \<and>
    rclosed r = None \<and> (\<exists>blocks. stored_blocks z o' items blocks)"

lemma nth_chunks_nth:
  assumes "0 < k" "pos < length xs"
  shows "chunks k xs ! (pos div k) ! (pos mod k) = xs ! pos"
    "pos mod k < length (chunks k xs ! (pos div k))"
proof -
  define q m where "q = pos div k * k" and "m = pos mod k"
  have pos: "q + m = pos" "m < k" using assms(1) by (simp_all add: q_def m_def)
  then have q: "q < length xs" using assms(2) by linarith
  then have "chunks k xs ! (pos div k) = take k (drop q xs)"
    using nth_chunks assms(1) unfolding q_def by blast
  then show "chunks k xs ! (pos div k) ! (pos mod k) = xs ! pos"
    "pos mod k < length (chunks k xs ! (pos div k))"
    using pos q assms(2) unfolding m_def [symmetric] by auto
qed

lemma chunks_index: "0 < k \<Longrightarrow> j * k < length xs \<longleftrightarrow> j < length (chunks k xs)"
  using ceil_div_le [of k j "length xs"] length_chunks [of k xs] by simp

lemma stored_read:
  assumes s: "stored_blocks z o' items blocks" and env: "read_ok env" and r: "rclosed r = None"
    and ij: "i \<le> j" "j \<le> length blocks"
  shows "span (ooffsets o') i j = Inr (ooffsets o' ! j - ooffsets o' ! i)"
    "0 \<le> ooffsets o' ! i" "ooffsets o' ! i \<le> ooffsets o' ! j"
    "reader_ReadAt env r (ofile o') (nat (ooffsets o' ! j - ooffsets o' ! i)) (ooffsets o' ! i) =
      Inr (concat (take (j - i) (drop i blocks)))"
proof -
  have tab: "offset_table (ooffsets o')" and len: "length (ooffsets o') = Suc (length blocks)"
    using s by (auto simp: stored_blocks_def)
  have at: "ooffsets o' ! m = int (length (concat (take m blocks)))" if "m \<le> length blocks" for m
    using s that by (simp add: stored_blocks_def nth_block_offsets del: length_concat)
  obtain rest where rest: "ofile o' = concat blocks @ rest" using s by (auto simp: stored_blocks_def)
  show "span (ooffsets o') i j = Inr (ooffsets o' ! j - ooffsets o' ! i)"
    using span_table(1) [OF tab ij(1)] ij len by simp
  show "0 \<le> ooffsets o' ! i" using at ij by simp
  show le: "ooffsets o' ! i \<le> ooffsets o' ! j" using span_table(2) [OF tab ij(1)] ij len by simp
  define mid where "mid = take (j - i) (drop i blocks)"
  have split: "blocks = take i blocks @ mid @ drop j blocks"
    using ij by (metis append_take_drop_id drop_drop le_add_diff_inverse mid_def add.commute)
  have take_j: "take j blocks = take i blocks @ mid"
    using ij by (metis le_add_diff_inverse mid_def take_add)
  have n: "nat (ooffsets o' ! j - ooffsets o' ! i) = length (concat mid)"
    using at ij by (simp add: take_j)
  have disk: "ofile o' = concat (take i blocks) @ concat mid @ concat (drop j blocks) @ rest"
    using arg_cong [OF split, of concat] rest by simp
  have "reader_ReadAt env r (ofile o') n (ooffsets o' ! i) = ReadAt env (ofile o') n (ooffsets o' ! i)" for n
    using at ij r by (simp add: reader_ReadAt_def)
  then show "reader_ReadAt env r (ofile o') (nat (ooffsets o' ! j - ooffsets o' ! i)) (ooffsets o' ! i) =
      Inr (concat (take (j - i) (drop i blocks)))"
    unfolding n mid_def [symmetric]
    using at [of i] ij disk ReadAt_ok [OF env, of "ooffsets o' ! i" "length (concat mid)" "ofile o'"]
    by (simp add: slice_def del: length_concat)
qed

lemma stored_span:
  assumes s: "stored_blocks z o' items blocks" and ij: "i \<le> j" "j \<le> length blocks"
  shows "span (ooffsets o') i j = Inr (ooffsets o' ! j - ooffsets o' ! i)"
    "0 \<le> ooffsets o' ! i" "ooffsets o' ! i \<le> ooffsets o' ! j"
    "ooffsets o' ! i = int (length (concat (take i blocks)))"
proof -
  have tab: "offset_table (ooffsets o')" and len: "length (ooffsets o') = Suc (length blocks)"
    using s by (auto simp: stored_blocks_def)
  show "span (ooffsets o') i j = Inr (ooffsets o' ! j - ooffsets o' ! i)"
    using span_table(1) [OF tab ij(1)] ij len by simp
  show "ooffsets o' ! i \<le> ooffsets o' ! j" using span_table(2) [OF tab ij(1)] ij len by simp
  show at: "ooffsets o' ! i = int (length (concat (take i blocks)))"
    using s ij by (simp add: stored_blocks_def nth_block_offsets del: length_concat)
  show "0 \<le> ooffsets o' ! i" using at by simp
qed

lemma length_take_drop_concat:
  assumes "i \<le> j"
  shows "int (length (concat (take (j - i) (drop i blocks)))) =
    int (length (concat (take j blocks))) - int (length (concat (take i blocks)))"
proof -
  have "take j blocks = take i blocks @ take (j - i) (drop i blocks)"
    using assms by (metis le_add_diff_inverse take_add)
  then show ?thesis by simp
qed

section \<open>A record\<close>

definition configured :: "openResult \<Rightarrow> decoder \<Rightarrow> bool" where
  "configured o' rd \<longleftrightarrow> open_decoder rd \<and> dformat rd = Format (otrailer o') \<and>
    dtotalItems rd = ototalItems o' \<and> ditemsPerRecord rd = oitemsPerRecord o'"

lemma reader_getDecoder_configured:
  "zstd_contract z \<Longrightarrow> pool_ok pool \<Longrightarrow> \<exists>rd. reader_getDecoder z pool o' = Inr rd \<and> configured o' rd"
  using reader_getDecoder_ok [of z pool o'] by (auto simp: configured_def zstd_contract_def)

lemma configured_open: "configured o' rd \<Longrightarrow> open_decoder rd"
  by (simp add: configured_def)

lemma configured_scratch [simp]: "configured o' (rd\<lparr>scratch := buf\<rparr>) = configured o' rd"
  by (simp add: configured_def open_decoder_def)

lemma stored_length_blocks: "stored_blocks z o' items blocks \<Longrightarrow> length blocks = length (chunks (oitemsPerRecord o') items)"
  by (auto simp: stored_blocks_def dest: image_blocks_length)

lemma Decode_stored:
  assumes z: "zstd_contract z" and s: "stored_blocks z o' items blocks" and rd: "configured o' rd"
    and j: "j < length blocks"
  shows "\<exists>rd'. Decode z rd (blocks ! j) j = (None, rd') \<and>
    holds_items rd' (chunks (oitemsPerRecord o') items ! j) \<and> configured o' rd'"
proof -
  let ?k = "oitemsPerRecord o'" let ?c = "chunks ?k items ! j"
  have len: "j < length (chunks ?k items)" using j stored_length_blocks [OF s] by simp
  then have mem: "?c \<in> set (chunks ?k items)" by simp
  have k: "0 < ?k" "j * ?k < length items"
    using s len chunks_index by (auto simp: stored_blocks_def)
  have b: "block_of z (Format (otrailer o')) ?k ?c = Inr (blocks ! j)" "decodable (Format (otrailer o')) ?c"
    using s len mem by (auto simp: stored_blocks_def image_blocks_def list_all2_conv_all_nth)
  obtain rd' where dec: "Decode z rd (blocks ! j) j = (None, rd')" "holds_items rd' ?c"
    using Decode_block [OF z, of rd j items ?c "blocks ! j"] rd k b s
    by (auto simp: configured_def stored_blocks_def)
  moreover have "configured o' rd'"
    using Decode_keeps [OF dec(1)] rd by (simp add: configured_def open_decoder_def)
  ultimately show ?thesis by blast
qed

lemma ReadItem_stored:
  assumes r: "readable env z r o' items" and pool: "pool_ok pool" and pos: "pos < length items"
  shows "\<exists>pool'. ReadItem env z pool r (int pos) fn s =
      (fst (fn (items ! pos) s), pool', snd (fn (items ! pos) s)) \<and> pool_ok pool'"
proof -
  let ?k = "oitemsPerRecord o'" let ?j = "pos div ?k" let ?c = "chunks ?k items ! ?j"
  obtain blocks where st: "stored_blocks z o' items blocks" using r by (auto simp: readable_def)
  have env: "read_ok env" "zstd_contract z" "rclosed r = None" "rresult r = Inr o'"
    using r by (simp_all add: readable_def)
  have k: "0 < ?k" "ototalItems o' = length items" using st by (simp_all add: stored_blocks_def)
  note c = nth_chunks_nth [OF k(1) pos]
  have "?j * ?k < length items" using div_times_less_eq_dividend [of pos ?k] pos by linarith
  then have j: "?j < length blocks"
    using chunks_index [OF k(1), of ?j items] stored_length_blocks [OF st] by simp
  obtain rd where rd: "reader_getDecoder z pool o' = Inr rd" "configured o' rd"
    using reader_getDecoder_configured [OF env(2) pool] by blast
  have rd1: "configured o' (rd\<lparr>scratch := blocks ! ?j\<rparr>)" using rd(2) by simp
  obtain rd' where dec: "Decode z (rd\<lparr>scratch := blocks ! ?j\<rparr>) (blocks ! ?j) ?j = (None, rd')"
    "holds_items rd' ?c" "configured o' rd'"
    using Decode_stored [OF env(2) st rd1 j] by blast
  have "Item rd' (int (pos mod ?k)) = Inr (items ! pos)"
    using Item_holds [OF dec(2) c(2)] c(1) by simp
  moreover have "take (Suc ?j - ?j) (drop ?j blocks) = [blocks ! ?j]"
    using j by (simp add: take_Suc_conv_app_nth)
  then have "concat (take (Suc ?j - ?j) (drop ?j blocks)) = blocks ! ?j" by simp
  ultimately show ?thesis
    using env(4) k(2) pos rd(1) dec(1,3) stored_read [OF st env(1,3), of ?j "Suc ?j"] j
    by (auto simp: ReadItem_def nat_div_distrib nat_mod_distrib configured_open split: prod.splits)
qed

section \<open>Ranges\<close>

fun feed :: "(('e + 'a) \<Rightarrow> 's \<Rightarrow> bool \<times> 's) \<Rightarrow> 'a list \<Rightarrow> 's \<Rightarrow> bool \<times> 's" where
  "feed yield [] s = (True, s)"
| "feed yield (x # xs) s =
    (case yield (Inr x) s of (True, s) \<Rightarrow> feed yield xs s | (False, s) \<Rightarrow> (False, s))"

lemma feed_append:
  "feed yield (xs @ ys) s = (case feed yield xs s of (True, s) \<Rightarrow> feed yield ys s | (False, s) \<Rightarrow> (False, s))"
  by (induction xs arbitrary: s) (auto split: prod.splits bool.splits)

text \<open>How a loop goes on after feeding: at the next item, or not at all.\<close>

definition after_feed :: "nat \<Rightarrow> decoder \<Rightarrow> bool \<times> 's \<Rightarrow> flow \<times> decoder \<times> 's" where
  "after_feed g rd fs = (if fst fs then Next g else Return, rd, snd fs)"

lemma yield_items_holds:
  assumes "holds_items rd c" "hi \<le> length c" "lo \<le> hi"
  shows "yield_items yield rd [int lo..int hi - 1] g s =
    (let fs = feed yield (slice c lo hi) s in (if fst fs then Next (g + (hi - lo)) else Return, snd fs))"
  using assms(3)
proof (induction "hi - lo" arbitrary: lo g s)
  case 0
  then show ?case by (simp add: slice_def Let_def)
next
  case (Suc n)
  then have lt: "lo < hi" by simp
  have "slice c lo hi = c ! lo # slice c (Suc lo) hi"
    using lt assms(2) by (simp add: slice_def Cons_nth_drop_Suc [symmetric] take_Cons')
  moreover have "[int lo..int hi - 1] = int lo # [int (Suc lo)..int hi - 1]"
    using lt by (subst upto_rec1) (simp_all add: add.commute)
  moreover have "Item rd (int lo) = Inr (c ! lo)"
    using Item_holds [OF assms(1)] lt assms(2) by simp
  moreover have "n = hi - Suc lo" "Suc lo \<le> hi" using Suc.hyps(2) lt by auto
  note Suc.hyps(1) [OF this]
  ultimately show ?case
    using lt by (auto simp: Let_def split: prod.splits bool.splits)
qed

text \<open>The end of record \<open>j - 1\<close> within a range that ends at \<open>endIdx\<close>.\<close>

definition stop :: "nat \<Rightarrow> nat \<Rightarrow> nat \<Rightarrow> nat" where
  "stop k endIdx j = min endIdx (j * k)"

lemma slice_chunk:
  assumes "0 < k" "j * k \<le> g" "g < stop k e (Suc j)" "e \<le> length items"
  shows "slice (chunks k items ! j) (g - j * k) (stop k e (Suc j) - j * k) = slice items g (stop k e (Suc j))"
    "stop k e (Suc j) - j * k \<le> length (chunks k items ! j)"
    "j < length (chunks k items)"
proof -
  have lt: "j * k < length items" using assms by (simp add: stop_def)
  then have c: "chunks k items ! j = take k (drop (j * k) items)" using nth_chunks assms(1) by blast
  have le: "stop k e (Suc j) - j * k \<le> k" by (simp add: stop_def)
  show "slice (chunks k items ! j) (g - j * k) (stop k e (Suc j) - j * k) = slice items g (stop k e (Suc j))"
    using assms(2,3) le unfolding c by (simp add: slice_def drop_take min_def)
  show "stop k e (Suc j) - j * k \<le> length (chunks k items ! j)"
    using lt le assms(4) unfolding c by (auto simp: stop_def)
  show "j < length (chunks k items)" using chunks_index [OF assms(1)] lt by blast
qed

lemma window_end:
  fixes e k q :: nat
  assumes "l = min k (n - q)" "q \<le> g" "g < min e (k + q)" "e \<le> n"
  shows "min (int l) (int e - int q) = int (min e (k + q) - q)"
  using assms by (cases "e \<le> k + q"; cases "k \<le> n - q") auto

lemma yieldRecord_stored:
  assumes z: "zstd_contract z" and s: "stored_blocks z o' items blocks" and rd: "configured o' rd"
    and e: "e \<le> length items" and g: "j * k \<le> g" "g < stop k e (Suc j)" and k: "k = oitemsPerRecord o'"
  shows "\<exists>rd'. configured o' rd' \<and> yieldRecord z o' yield e rd (blocks ! j) j g st =
    after_feed (stop k e (Suc j)) rd' (feed yield (slice items g (stop k e (Suc j))) st)"
proof -
  have kpos: "0 < k" using s k by (simp add: stored_blocks_def)
  note c = slice_chunk [OF kpos g e]
  have j: "j < length blocks" using c(3) stored_length_blocks [OF s] k by simp
  obtain rd' where dec: "Decode z rd (blocks ! j) j = (None, rd')"
    "holds_items rd' (chunks k items ! j)" "configured o' rd'"
    using Decode_stored [OF z s rd j] k by blast
  have len: "length (sizes rd') = length (chunks k items ! j)" by (rule length_sizes_holds [OF dec(2)])
  have "j * k < length items" using g e by (simp add: stop_def)
  then have "length (chunks k items ! j) = min k (length items - j * k)"
    by (simp add: nth_chunks kpos)
  then have "min (int (length (sizes rd'))) (int e - int (j * k)) = int (stop k e (Suc j) - j * k)"
    using len g e window_end [of _ k "length items" "j * k" g e] by (simp add: stop_def)
  then have hi: "min (int (length (sizes rd'))) (int e - int j * int k) = int (stop k e (Suc j) - j * k)"
    by simp
  have lo: "int g - int j * int k = int (g - j * k)" using g by simp
  have "g + (stop k e (Suc j) - j * k - (g - j * k)) = stop k e (Suc j)" using g by simp
  then show ?thesis
    using dec c g k hi lo yield_items_holds [OF dec(2) c(2), of "g - j * k" yield g st]
    by (intro exI [of _ rd']) (simp add: yieldRecord_def Let_def after_feed_def)
qed

lemma slice_batch:
  assumes "b \<le> j" "j < e" "e \<le> length blocks"
  shows "slice (concat (take (e - b) (drop b blocks)))
      (length (concat (take j blocks)) - length (concat (take b blocks)))
      (length (concat (take (Suc j) blocks)) - length (concat (take b blocks))) = blocks ! j"
proof -
  let ?L = "take (e - b) (drop b blocks)"
  have pre: "length (concat (take m blocks)) - length (concat (take b blocks)) = sum_list (map length (take (m - b) ?L))"
    if "b \<le> m" "m \<le> e" for m
  proof -
    have "take m blocks = take b blocks @ take (m - b) (drop b blocks)"
      using that by (metis le_add_diff_inverse take_add)
    moreover have "take (m - b) ?L = take (m - b) (drop b blocks)" using that by simp
    ultimately show ?thesis by (simp add: length_concat)
  qed
  have "?L ! (j - b) = blocks ! j" "j - b < length ?L" using assms by simp_all
  then show ?thesis
    using slice_concat [of "j - b" ?L] assms pre [of j] pre [of "Suc j"] by (simp add: Suc_diff_le)
qed

lemma yield_records_stored:
  assumes z: "zstd_contract z" and s: "stored_blocks z o' items blocks"
    and e: "e \<le> length items" and k: "k = oitemsPerRecord o'"
    and be: "b < be" "be \<le> length blocks" "(be - 1) * k < e"
    and buf: "readBuf = concat (take (be - b) (drop b blocks))"
  shows "b \<le> j \<Longrightarrow> j \<le> be \<Longrightarrow> configured o' rd \<Longrightarrow>
    (j < be \<longrightarrow> j * k \<le> g \<and> g < stop k e (Suc j)) \<Longrightarrow> (j = be \<longrightarrow> g = stop k e be) \<Longrightarrow>
    \<exists>rd'. configured o' rd' \<and> yield_records z o' yield e b readBuf [j..<be] rd g st =
      after_feed (stop k e be) rd' (feed yield (slice items g (stop k e be)) st)"
proof (induction "be - j" arbitrary: j rd g st)
  case 0
  then show ?case by (auto simp: after_feed_def slice_def)
next
  case (Suc n)
  then have j: "b \<le> j" "j < be" "j < length blocks" and g: "j * k \<le> g" "g < stop k e (Suc j)"
    using be by auto
  have at: "ooffsets o' ! m = int (length (concat (take m blocks)))" if "m \<le> length blocks" for m
    using s that by (simp add: stored_blocks_def nth_block_offsets del: length_concat)
  note sp = stored_span [OF s]
  have span: "span (ooffsets o') b j = Inr (ooffsets o' ! j - ooffsets o' ! b)"
    "span (ooffsets o') b (Suc j) = Inr (ooffsets o' ! Suc j - ooffsets o' ! b)"
    using sp(1) [of b j] sp(1) [of b "Suc j"] j by simp_all
  have buflen: "int (length readBuf) = ooffsets o' ! be - ooffsets o' ! b"
    using at be j(1) length_take_drop_concat [of b be blocks] by (simp add: buf)
  have le: "ooffsets o' ! b \<le> ooffsets o' ! j" "ooffsets o' ! j \<le> ooffsets o' ! Suc j"
    "ooffsets o' ! Suc j - ooffsets o' ! b \<le> int (length readBuf)"
    using sp(3) [of b j] sp(3) [of j "Suc j"] sp(3) [of "Suc j" be] j be buflen by simp_all
  have data: "slice readBuf (nat (ooffsets o' ! j - ooffsets o' ! b)) (nat (ooffsets o' ! Suc j - ooffsets o' ! b)) = blocks ! j"
    using slice_batch [of b j be blocks] j be(2) at by (simp add: buf nat_diff_distrib')
  obtain rd1 where rd1: "configured o' rd1" "yieldRecord z o' yield e rd (blocks ! j) j g st =
      after_feed (stop k e (Suc j)) rd1 (feed yield (slice items g (stop k e (Suc j))) st)"
    using yieldRecord_stored [OF z s Suc.prems(3) e g k, of yield st] by (elim exE conjE) (rule that)
  have mono: "stop k e (Suc j) \<le> stop k e be"
    unfolding stop_def using j by (intro min.mono mult_le_mono1) simp_all
  have split: "slice items g (stop k e be) = slice items g (stop k e (Suc j)) @ slice items (stop k e (Suc j)) (stop k e be)"
    using g mono by (intro slice_join) simp_all
  have next_j: "Suc j < be \<longrightarrow> Suc j * k \<le> stop k e (Suc j) \<and> stop k e (Suc j) < stop k e (Suc (Suc j))"
  proof
    assume lt: "Suc j < be"
    then have "Suc j * k \<le> (be - 1) * k" by (intro mult_le_mono1) simp
    then have "Suc j * k < e" using be(3) by linarith
    moreover have "0 < k" using s k by (simp add: stored_blocks_def)
    ultimately show "Suc j * k \<le> stop k e (Suc j) \<and> stop k e (Suc j) < stop k e (Suc (Suc j))"
      by (simp add: stop_def)
  qed
  have "n = be - Suc j" "b \<le> Suc j" "Suc j \<le> be" using Suc.hyps(2) j by simp_all
  note IH = Suc.hyps(1) [OF this rd1(1) next_j]
  have upt: "[j..<be] = j # [Suc j..<be]" using j(2) by (rule upt_conv_Cons)
  show ?case
  proof (cases "feed yield (slice items g (stop k e (Suc j))) st")
    case (Pair ok st')
    obtain rd2 where "configured o' rd2" "yield_records z o' yield e b readBuf [Suc j..<be] rd1 (stop k e (Suc j)) st' =
        after_feed (stop k e be) rd2 (feed yield (slice items (stop k e (Suc j)) (stop k e be)) st')"
      using IH [of st'] by auto
    then show ?thesis
      using Pair rd1 span le data
      by (cases ok) (auto simp: upt split feed_append after_feed_def simp del: upt_Suc)
  qed
qed

lemma batch_end_stored:
  assumes s: "stored_blocks z o' items blocks" and l: "lastRecord < length blocks"
  shows "b \<le> e \<Longrightarrow> e \<le> Suc lastRecord \<Longrightarrow> ooffsets o' ! e - ooffsets o' ! b \<le> int readBufSize \<or> e = e0 \<Longrightarrow>
    \<exists>e'. batch_end (ooffsets o') b lastRecord e = Inr e' \<and> e \<le> e' \<and> e' \<le> Suc lastRecord \<and>
      (e' = e0 \<or> ooffsets o' ! e' - ooffsets o' ! b \<le> int readBufSize)"
proof (induction "Suc lastRecord - e" arbitrary: e)
  case 0
  then have "\<not> e \<le> lastRecord" "e = Suc lastRecord" by simp_all
  then show ?case using "0.prems" by (subst batch_end.simps) auto
next
  case (Suc n)
  then have e: "e \<le> lastRecord" by simp
  have sp: "span (ooffsets o') b (Suc e) = Inr (ooffsets o' ! Suc e - ooffsets o' ! b)"
    using stored_span(1) [OF s, of b "Suc e"] e l Suc.prems(1) by simp
  show ?case
  proof (cases "ooffsets o' ! Suc e - ooffsets o' ! b \<le> int readBufSize")
    case True
    have "n = Suc lastRecord - Suc e" "b \<le> Suc e" "Suc e \<le> Suc lastRecord"
      using Suc.hyps(2) Suc.prems(1) e by simp_all
    from Suc.hyps(1) [OF this] True obtain e' where
      "batch_end (ooffsets o') b lastRecord (Suc e) = Inr e'" "Suc e \<le> e'" "e' \<le> Suc lastRecord"
      "e' = e0 \<or> ooffsets o' ! e' - ooffsets o' ! b \<le> int readBufSize" by blast
    then show ?thesis
      using True e sp by (subst batch_end.simps) (auto simp del: batch_end.simps)
  next
    case False
    then show ?thesis
      using Suc.prems e sp by (subst batch_end.simps) auto
  qed
qed

lemma after_feed_split:
  "after_feed g rd (feed yield (xs @ ys) s) =
    (case feed yield xs s of (True, s) \<Rightarrow> after_feed g rd (feed yield ys s) | (False, s) \<Rightarrow> (Return, rd, s))"
  by (simp add: feed_append after_feed_def split: prod.split bool.split)

text \<open>
  The batching loop yields the items up to the end of the range, whatever the
  sizes of the records, in one or in many reads.
\<close>

lemma read_batches_stored:
  assumes r: "readable env z r o' items" and s: "stored_blocks z o' items blocks"
    and e: "e \<le> length items" and k: "k = oitemsPerRecord o'"
    and l: "lastRecord < length blocks" "lastRecord * k < e" "e \<le> Suc lastRecord * k"
  shows "b \<le> Suc lastRecord \<Longrightarrow> configured o' rd \<Longrightarrow>
    (b \<le> lastRecord \<longrightarrow> b * k \<le> g \<and> g < stop k e (Suc b)) \<Longrightarrow> (b = Suc lastRecord \<longrightarrow> g = e) \<Longrightarrow>
    \<exists>rd'. configured o' rd' \<and> read_batches env z r o' yield e lastRecord b rd g st =
      (None, rd', snd (feed yield (slice items g e) st))"
proof (induction "Suc lastRecord - b" arbitrary: b rd g st rule: less_induct)
  case less
  have env: "read_ok env" "zstd_contract z" "rclosed r = None" using r by (simp_all add: readable_def)
  have kpos: "0 < k" using s k by (simp add: stored_blocks_def)
  show ?case
  proof (cases "b = Suc lastRecord")
    case True
    then show ?thesis using less.prems by (subst read_batches.simps) auto
  next
    case False
    then have b: "b \<le> lastRecord" "b < length blocks" "\<not> lastRecord < b" and g: "b * k \<le> g" "g < stop k e (Suc b)"
      using less.prems l by auto
    obtain be where be: "batch_end (ooffsets o') b lastRecord (Suc b) = Inr be" "Suc b \<le> be"
      "be \<le> Suc lastRecord" "be = Suc b \<or> ooffsets o' ! be - ooffsets o' ! b \<le> int readBufSize"
      using batch_end_stored [OF s l(1), of b "Suc b" "Suc b"] b by auto
    have stop_be: "stop k e be = e" if "be = Suc lastRecord" for be
      using l(3) that by (simp add: stop_def)
    have step: "\<exists>rd2. configured o' rd2 \<and>
        (case after_feed (stop k e c) rd1 (feed yield (slice items g (stop k e c)) st) of
           (Next g, rd, s) \<Rightarrow> read_batches env z r o' yield e lastRecord c rd g s
         | (Return, rd, s) \<Rightarrow> (None, rd, s)
         | (Raise e, rd, s) \<Rightarrow> (Some e, rd, s))
        = (None, rd2, snd (feed yield (slice items g e) st))"
      if c: "Suc b \<le> c" "c \<le> Suc lastRecord" and rd1: "configured o' rd1" for c rd1
    proof (cases "feed yield (slice items g (stop k e c)) st")
      case (Pair ok st')
      have ck: "c * k < e" if "c \<le> lastRecord"
        using mult_le_mono1 [OF that, of k] l(2) by linarith
      have n: "Suc lastRecord - c < Suc lastRecord - b" using b c by simp
      have gc: "(c \<le> lastRecord \<longrightarrow> c * k \<le> stop k e c \<and> stop k e c < stop k e (Suc c)) \<and>
          (c = Suc lastRecord \<longrightarrow> stop k e c = e)"
        using ck kpos stop_be by (auto simp: stop_def)
      obtain rd2 where rd2: "configured o' rd2" "read_batches env z r o' yield e lastRecord c rd1 (stop k e c) st' =
          (None, rd2, snd (feed yield (slice items (stop k e c) e) st'))"
        using less.hyps [OF n c(2) rd1, of "stop k e c" st'] gc by blast
      have "stop k e (Suc b) \<le> stop k e c"
        unfolding stop_def using c(1) by (intro min.mono mult_le_mono1) simp_all
      then have "slice items g e = slice items g (stop k e c) @ slice items (stop k e c) e"
        using g(2) by (intro slice_join) (linarith, simp add: stop_def)
      then show ?thesis
        using Pair rd1 rd2 by (cases ok) (auto simp: after_feed_def feed_append)
    qed
    have sp: "span (ooffsets o') b (Suc b) = Inr (ooffsets o' ! Suc b - ooffsets o' ! b)"
      "span (ooffsets o') b be = Inr (ooffsets o' ! be - ooffsets o' ! b)"
      "ooffsets o' ! b \<le> ooffsets o' ! be"
      using stored_span [OF s, of b "Suc b"] stored_span [OF s, of b be] b be l(1) by auto
    show ?thesis
    proof (cases "ooffsets o' ! Suc b - ooffsets o' ! b > int readBufSize")
      case True
      have one: "concat (take (Suc b - b) (drop b blocks)) = blocks ! b"
        using b(2) by (simp add: take_Suc_conv_app_nth)
      have rd: "reader_ReadAt env r (ofile o') (nat (ooffsets o' ! Suc b - ooffsets o' ! b)) (ooffsets o' ! b) = Inr (blocks ! b)"
        using stored_read(4) [OF s env(1,3), of b "Suc b"] b(2) unfolding one by simp
      obtain rd1 where rd1: "configured o' rd1" "yieldRecord z o' yield e rd (blocks ! b) b g st =
          after_feed (stop k e (Suc b)) rd1 (feed yield (slice items g (stop k e (Suc b))) st)"
        using yieldRecord_stored [OF env(2) s less.prems(2) e g k, of yield st] by (elim exE conjE) (rule that)
      from step [OF _ _ rd1(1), of "Suc b"] show ?thesis
        using b True be(1) sp(1) rd rd1(2) by (subst read_batches.simps, unfold Suc_eq_plus1 [symmetric]) simp
    next
      case False
      then have small: "ooffsets o' ! be - ooffsets o' ! b \<le> int readBufSize" using be(4) by auto
      have rd: "reader_ReadAt env r (ofile o') (nat (ooffsets o' ! be - ooffsets o' ! b)) (ooffsets o' ! b) =
          Inr (concat (take (be - b) (drop b blocks)))"
        using stored_read(4) [OF s env(1,3), of b be] b be l(1) by simp
      have "(be - 1) * k \<le> lastRecord * k" using be(3) by (intro mult_le_mono1) simp
      then have bek: "(be - 1) * k < e" using l(2) by linarith
      have bb: "b < be" "be \<le> length blocks" using be l(1) by simp_all
      obtain rd1 where rd1: "configured o' rd1"
        "yield_records z o' yield e b (concat (take (be - b) (drop b blocks))) [b..<be] rd g st =
          after_feed (stop k e be) rd1 (feed yield (slice items g (stop k e be)) st)"
        using yield_records_stored [OF env(2) s e k bb bek refl, of b rd g yield st] g bb less.prems(2) by auto
      from step [OF be(2,3) rd1(1)] show ?thesis
        using b False small sp be(1) rd rd1(2) by (subst read_batches.simps) simp
    qed
  qed
qed

lemma ReadRange_stored:
  assumes r: "readable env z r o' items" and pool: "pool_ok pool" and n: "start + cnt \<le> length items"
  shows "\<exists>pool'. ReadRange env z pool r (int start) (int cnt) yield st =
      (None, pool', snd (feed yield (slice items start (start + cnt)) st)) \<and> pool_ok pool'"
proof (cases "cnt = 0")
  case True
  then show ?thesis using pool by (auto simp: ReadRange_def)
next
  case False
  obtain blocks where s: "stored_blocks z o' items blocks" using r by (auto simp: readable_def)
  have env: "zstd_contract z" "rresult r = Inr o'" using r by (simp_all add: readable_def)
  define k where "k = oitemsPerRecord o'"
  define e where "e = start + cnt"
  define l where "l = (e - 1) div k"
  have k: "0 < k" "ototalItems o' = length items" using s by (simp_all add: stored_blocks_def k_def)
  have e: "0 < e" "e \<le> length items" "start < e" using n False by (simp_all add: e_def)
  have le: "l * k \<le> e - 1" by (simp add: l_def)
  have lt: "e - 1 < Suc l * k"
    using k(1) unfolding l_def by (metis dividend_less_times_div mult.commute mult_Suc_right)
  have lk: "l * k < e" "e \<le> Suc l * k" using le lt e(1) by linarith+
  have "l * k < length items" using lk(1) e(2) by linarith
  then have ll: "l < length blocks"
    using chunks_index [OF k(1), of l items] stored_length_blocks [OF s] by (simp add: k_def)
  have "start div k * k + start mod k = start" "start mod k < k" using k(1) by simp_all
  then have first: "start div k * k \<le> start" "start < Suc (start div k) * k"
    unfolding mult_Suc by linarith+
  have fl: "start div k \<le> l" unfolding l_def using e by (intro div_le_mono) simp
  have first2: "(start div k \<le> l \<longrightarrow> start div k * k \<le> start \<and> start < stop k e (Suc (start div k))) \<and>
      (start div k = Suc l \<longrightarrow> start = e)"
    using first e fl by (simp add: stop_def)
  obtain rd where rd: "reader_getDecoder z pool o' = Inr rd" "configured o' rd"
    using reader_getDecoder_configured [OF env(1) pool] by blast
  obtain rd' where run: "configured o' rd'" "read_batches env z r o' yield e l (start div k) rd start st =
      (None, rd', snd (feed yield (slice items start e) st))"
    using read_batches_stored [OF r s e(2) k_def ll lk le_SucI [OF fl] rd(2), of start yield st] first2
    by blast
  have "nat (int start + int cnt - 1) div k = l" "nat (int start + int cnt) = e"
    using False by (simp_all add: l_def e_def nat_diff_distrib nat_add_distrib)
  moreover have "\<not> length items < start" "\<not> int (length items) - int start < int cnt"
    using n by linarith+
  ultimately show ?thesis
    using run rd(1) env(2) False k configured_open [OF run(1)]
    by (simp add: ReadRange_def Let_def k_def [symmetric] e_def [symmetric])
qed

section \<open>Verify\<close>

lemma feed_verify:
  assumes "\<And>i. ctx i = None"
  shows "feed (verify_yield ctx k) items (h, i, None) = (True, (hasher_Add_all h items, i + length items, None))"
  by (induction items arbitrary: h i) (simp_all add: verify_yield_def assms Let_def)

lemma Verify_stored:
  assumes r: "readable env z r o' items" and pool: "pool_ok pool" and ctx: "\<And>i. ctx i = None"
    and hash: "HasContentHash (otrailer o')"
  shows "\<exists>pool'. Verify env z pool r ctx =
      (if ContentHash (otrailer o') = content_hash (oitemsPerRecord o') items then None
       else Some ErrContentHashMismatch, pool') \<and> pool_ok pool'"
proof -
  obtain blocks where s: "stored_blocks z o' items blocks" using r by (auto simp: readable_def)
  have k: "0 < oitemsPerRecord o'" "ototalItems o' = length items" and res: "rresult r = Inr o'"
    using s r by (simp_all add: stored_blocks_def readable_def)
  obtain h where h: "newContentHasher (int (oitemsPerRecord o')) = Inr h" "hasher_inv (oitemsPerRecord o') [] h"
    using hasher_inv_new [OF k(1)] by blast
  have "fst (hasher_Sum (hasher_Add_all h items)) = content_hash (oitemsPerRecord o') items"
    using hasher_inv_Sum [OF hasher_inv_Add_all [OF h(2)]] by simp
  then show ?thesis
    using res hash h(1) k(2)
      ReadRange_stored [OF r pool, of 0 "length items" "verify_yield ctx (oitemsPerRecord o')" "(h, 0, None)"]
    by (auto simp: Verify_def feed_verify [OF ctx] slice_all)
qed

end
