(* ===== verification/Store_Interface.thy ===== *)
theory Store_Interface
  imports Read_Back
begin

text \<open>
  eventstore/iface.go: what the users of an event store rely on, as locales over the
  operations of \<open>StoreReader\<close> and \<open>StoreWriter\<close>. \<open>holds r xs\<close> says that the reader \<open>r\<close> is
  open on a store of the events \<open>xs\<close>. A panic of an operation is an error value, and
  \<open>read_positions\<close> relates the consumer's state before and after, since the parallel
  reads behind it are not deterministic. The locales are interpreted for the packfile
  store in \<open>Event_Store\<close> and for the RocksDB store in \<open>Rocks_Store\<close>.
\<close>

locale event_reader =
  fixes holds :: "'r \<Rightarrow> bytes list \<Rightarrow> bool"
    and event_count :: "'r \<Rightarrow> 'e + nat"
    and read_event :: "'r \<Rightarrow> int \<Rightarrow> 'e + bytes"
    and read_events :: "'r \<Rightarrow> int \<Rightarrow> int \<Rightarrow> (('e + bytes) \<Rightarrow> 's \<Rightarrow> bool \<times> 's) \<Rightarrow> 's \<Rightarrow> 'e option \<times> 's"
    and read_positions :: "'r \<Rightarrow> int list \<Rightarrow> (('e + bytes) \<Rightarrow> 's \<Rightarrow> bool \<times> 's) \<Rightarrow> 's \<Rightarrow> 's \<Rightarrow> bool"
    and range_error :: 'e
  assumes count_holds: "holds r xs \<Longrightarrow> event_count r = Inr (length xs)"
    and read_holds: "holds r xs \<Longrightarrow> 0 \<le> i \<Longrightarrow> i < int (length xs) \<Longrightarrow> read_event r i = Inr (xs ! nat i)"
    and read_outside: "holds r xs \<Longrightarrow> i < 0 \<or> int (length xs) \<le> i \<Longrightarrow> read_event r i = Inl range_error"
    and events_holds: "holds r xs \<Longrightarrow> start + n \<le> length xs \<Longrightarrow>
      read_events r (int start) (int n) yield s = (None, snd (feed yield (slice xs start (start + n)) s))"
    and positions_holds: "holds r xs \<Longrightarrow> sorted_wrt (<) ps \<Longrightarrow> \<forall>p \<in> set ps. 0 \<le> p \<and> p < int (length xs) \<Longrightarrow>
      read_positions r ps yield s s' \<Longrightarrow> s' = snd (feed yield (map (\<lambda>p. xs ! nat p) ps) s)"
begin

text \<open>The events of a store are determined by what its reads return.\<close>

lemma holds_unique:
  assumes "holds r xs" "holds r ys"
  shows "xs = ys"
proof (rule nth_equalityI)
  show len: "length xs = length ys" using count_holds [OF assms(1)] count_holds [OF assms(2)] by simp
  fix i assume "i < length xs"
  then show "xs ! i = ys ! i"
    using read_holds [OF assms(1), of "int i"] read_holds [OF assms(2), of "int i"] len by simp
qed

text \<open>A full scan passes every event to a consumer that goes on.\<close>

lemma scan_all:
  assumes "holds r xs" "event_count r = Inr n"
  shows "read_events r 0 (int n) yield s = (None, snd (feed yield xs s))"
  using events_holds [OF assms(1), of 0 "length xs" yield s] count_holds [OF assms(1)] assms(2)
  by (simp add: slice_def)

text \<open>Reading all positions is a full scan.\<close>

lemma positions_all:
  assumes "holds r xs" "read_positions r (map int [0..<length xs]) yield s s'"
  shows "read_events r 0 (int (length xs)) yield s = (None, s')"
proof -
  have "sorted_wrt (<) (map int [0..<length xs])" by (simp add: sorted_wrt_map)
  moreover have "map (\<lambda>p. xs ! nat p) (map int [0..<length xs]) = xs"
    by (simp add: comp_def map_nth)
  ultimately show ?thesis
    using positions_holds [OF assms(1) _ _ assms(2)] scan_all [OF assms(1) count_holds [OF assms(1)], of yield s]
    by simp
qed

end

text \<open>A store that can also be written: what a successful session leaves holds its events.\<close>

locale event_log = event_reader holds event_count read_event read_events read_positions range_error
  for holds :: "'r \<Rightarrow> bytes list \<Rightarrow> bool"
    and event_count :: "'r \<Rightarrow> 'e + nat"
    and read_event :: "'r \<Rightarrow> int \<Rightarrow> 'e + bytes"
    and read_events :: "'r \<Rightarrow> int \<Rightarrow> int \<Rightarrow> (('e + bytes) \<Rightarrow> 's \<Rightarrow> bool \<times> 's) \<Rightarrow> 's \<Rightarrow> 'e option \<times> 's"
    and read_positions :: "'r \<Rightarrow> int list \<Rightarrow> (('e + bytes) \<Rightarrow> 's \<Rightarrow> bool \<times> 's) \<Rightarrow> 's \<Rightarrow> 's \<Rightarrow> bool"
    and range_error :: 'e +
  fixes accepts :: "'w \<Rightarrow> bytes list \<Rightarrow> bool"
    and write_events :: "'w \<Rightarrow> bytes list \<Rightarrow> 'e option \<times> 'w"
    and reopen :: "'w \<Rightarrow> 'r"
  assumes written_holds: "accepts w xs \<Longrightarrow> write_events w xs = (None, w') \<Longrightarrow> holds (reopen w') xs"
begin

lemma write_then_read:
  assumes "accepts w xs" "write_events w xs = (None, w')"
  shows "event_count (reopen w') = Inr (length xs)"
    "i < length xs \<Longrightarrow> read_event (reopen w') (int i) = Inr (xs ! i)"
    "read_events (reopen w') 0 (int (length xs)) yield s = (None, snd (feed yield xs s))"
proof -
  note h = written_holds [OF assms]
  show "event_count (reopen w') = Inr (length xs)" by (rule count_holds [OF h])
  then show "read_events (reopen w') 0 (int (length xs)) yield s = (None, snd (feed yield xs s))"
    by (rule scan_all [OF h])
  show "i < length xs \<Longrightarrow> read_event (reopen w') (int i) = Inr (xs ! i)"
    using read_holds [OF h, of "int i"] by simp
qed

end

end
