(* ===== verification/Read_Items.thy ===== *)
theory Read_Items
  imports Reader
begin

text \<open>
  \<open>ReadItems\<close> of packfile/reader.go: scattered positions are checked, grouped into
  batches of consecutive records, and the batches are read by concurrent workers
  that share an atomic batch counter, a cancelled flag and the first error. A
  worker's program counter is a value of \<open>phase\<close>; \<open>worker_step\<close> is one step of one
  worker between two accesses to the shared state, and \<open>items_step\<close> lets any worker
  that has not returned take the next one, with any outcome of polling the context.
\<close>

record ioBatch =
  idxStart :: nat
  idxEnd :: nat
  firstRecord :: nat
  lastRecord :: nat

section \<open>Checking and partitioning the positions\<close>

fun check_positions :: "int \<Rightarrow> int option \<Rightarrow> int list \<Rightarrow> pf_error option" where
  "check_positions totalItems prev [] = None"
| "check_positions totalItems prev (pos # rest) =
    (if pos < 0 \<or> pos \<ge> totalItems then Some (Panic ''ReadItems position out of range'')
     else if (case prev of None \<Rightarrow> False | Some p \<Rightarrow> pos \<le> p)
     then Some (Panic ''ReadItems positions not sorted/unique'')
     else check_positions totalItems (Some pos) rest)"

fun partition_loop ::
  "int list \<Rightarrow> nat \<Rightarrow> nat \<Rightarrow> nat \<Rightarrow> int list \<Rightarrow> ioBatch list \<Rightarrow> nat \<Rightarrow> nat \<Rightarrow> nat \<Rightarrow> int
    \<Rightarrow> pf_error + ioBatch list" where
  "partition_loop offs k maxPerBatch i [] batches batchIdxStart firstRec lastRec batchBytes =
    Inr (batches @ [\<lparr>idxStart = batchIdxStart, idxEnd = i, firstRecord = firstRec, lastRecord = lastRec\<rparr>])"
| "partition_loop offs k maxPerBatch i (pos # rest) batches batchIdxStart firstRec lastRec batchBytes =
    (let rec = nat pos div k
     in if rec = lastRec
        then partition_loop offs k maxPerBatch (i + 1) rest batches batchIdxStart firstRec lastRec batchBytes
        else case span offs rec (rec + 1) of
          Inl e \<Rightarrow> Inl e
        | Inr recBytes \<Rightarrow>
            if rec = lastRec + 1 \<and> int64 (batchBytes + recBytes) \<le> int readBufSize \<and>
               i - batchIdxStart < maxPerBatch
            then partition_loop offs k maxPerBatch (i + 1) rest batches batchIdxStart firstRec rec
                   (int64 (batchBytes + recBytes))
            else partition_loop offs k maxPerBatch (i + 1) rest
                   (batches @ [\<lparr>idxStart = batchIdxStart, idxEnd = i, firstRecord = firstRec, lastRecord = lastRec\<rparr>])
                   i rec rec recBytes)"

definition partition_positions :: "openResult \<Rightarrow> int \<Rightarrow> int list \<Rightarrow> pf_error + ioBatch list" where
  "partition_positions o' concurrency positions =
    (let maxPerBatch = max 1 ((length positions + nat concurrency - 1) div nat concurrency);
         firstRec = nat (hd positions) div oitemsPerRecord o'
     in case span (ooffsets o') firstRec (firstRec + 1) of
          Inl e \<Rightarrow> Inl e
        | Inr batchBytes \<Rightarrow>
            partition_loop (ooffsets o') (oitemsPerRecord o') maxPerBatch 1 (tl positions) [] 0
              firstRec firstRec batchBytes)"

section \<open>Workers\<close>

datatype phase =
    Idle
  | Claimed nat
  | Polling nat
  | Working nat bytes nat int
  | Failing pf_error
  | Cancelling
  | Finished
  | Crashed pf_error

record items_state =
  nextBatch :: nat
  cancelled :: bool
  firstErr :: "pf_error option"
  workers :: "(phase \<times> decoder) list"
  fnCalls :: "(nat \<times> bytes) list"

text \<open>What does not change while the workers run.\<close>

record items_env =
  ienv :: os_env
  izstd :: libzstd
  ireader :: Reader
  iopen :: openResult
  ipositions :: "int list"
  ibatches :: "ioBatch list"
  ifn :: "nat \<Rightarrow> bytes \<Rightarrow> pf_error option"

text \<open>
  The program counter after reading a batch. The worker's read fills a buffer of
  the size of the batch, its own pooled one when that is large enough.
\<close>

definition read_batch :: "items_env \<Rightarrow> nat \<Rightarrow> phase" where
  "read_batch E bi =
    (let batch = ibatches E ! bi; offs = ooffsets (iopen E)
     in case span offs (firstRecord batch) (lastRecord batch + 1) of
          Inl e \<Rightarrow> Crashed e
        | Inr readSize \<Rightarrow>
            if readSize < 0 then Crashed (Panic ''slice bounds out of range'')
            else case reader_ReadAt (ienv E) (ireader E) (ofile (iopen E)) (nat readSize)
                        (offs ! firstRecord batch) of
              Inl e \<Rightarrow> Failing e
            | Inr readBuf \<Rightarrow> Working bi readBuf (idxStart batch) (- 1))"

text \<open>
  One position of a batch: decode its record unless it is the one decoded last,
  and call \<open>fn\<close>. The result is the call made, if any, the next phase and the decoder.
\<close>

definition work_item ::
  "items_env \<Rightarrow> nat \<Rightarrow> bytes \<Rightarrow> nat \<Rightarrow> int \<Rightarrow> decoder \<Rightarrow> (nat \<times> bytes) list \<times> phase \<times> decoder" where
  "work_item E bi readBuf k prevRec rd =
    (let offs = ooffsets (iopen E); ipr = oitemsPerRecord (iopen E);
         pos = nat (ipositions E ! k); rec = pos div ipr; localIdx = pos mod ipr;
         readStart = firstRecord (ibatches E ! bi);
         decoded =
           (if int rec \<noteq> prevRec
            then case span offs readStart rec of
                   Inl e \<Rightarrow> (Some e, rd)
                 | Inr recOff \<Rightarrow>
                     (case span offs readStart (rec + 1) of
                        Inl e \<Rightarrow> (Some e, rd)
                      | Inr recEnd \<Rightarrow>
                          if recOff < 0 \<or> recEnd < recOff \<or> recEnd > int (length readBuf)
                          then (Some (Panic ''slice bounds out of range''), rd)
                          else Decode (izstd E) rd (slice readBuf (nat recOff) (nat recEnd)) rec)
            else (None, rd))
     in case decoded of
          (Some e, rd) \<Rightarrow> ([], if is_panic e then Crashed e else Failing e, rd)
        | (None, rd) \<Rightarrow>
            (case Item rd (int localIdx) of
               Inl e \<Rightarrow> ([], Crashed e, rd)
             | Inr item \<Rightarrow>
                 (case ifn E k item of
                    Some e \<Rightarrow> ([(k, item)], Failing e, rd)
                  | None \<Rightarrow> ([(k, item)], Working bi readBuf (k + 1) (int rec), rd))))"

definition worker_step :: "items_env \<Rightarrow> pf_error option \<Rightarrow> items_state \<Rightarrow> nat \<Rightarrow> items_state" where
  "worker_step E ctxErr st w =
    (case workers st ! w of (ph, rd) \<Rightarrow>
       case ph of
         Idle \<Rightarrow>
           st\<lparr>nextBatch := nextBatch st + 1, workers := (workers st)[w := (Claimed (nextBatch st), rd)]\<rparr>
       | Claimed bi \<Rightarrow>
           if bi \<ge> length (ibatches E) \<or> cancelled st
           then st\<lparr>workers := (workers st)[w := (Finished, putDecoder rd)]\<rparr>
           else st\<lparr>workers := (workers st)[w := (Polling bi, rd)]\<rparr>
       | Polling bi \<Rightarrow>
           (case ctxErr of
              Some e \<Rightarrow> st\<lparr>workers := (workers st)[w := (Failing e, rd)]\<rparr>
            | None \<Rightarrow> st\<lparr>workers := (workers st)[w := (read_batch E bi, rd)]\<rparr>)
       | Working bi readBuf k prevRec \<Rightarrow>
           if k < idxEnd (ibatches E ! bi)
           then case work_item E bi readBuf k prevRec rd of
                  (called, ph, rd) \<Rightarrow>
                    st\<lparr>fnCalls := fnCalls st @ called, workers := (workers st)[w := (ph, rd)]\<rparr>
           else st\<lparr>workers := (workers st)[w := (Idle, rd)]\<rparr>
       | Failing e \<Rightarrow>
           st\<lparr>firstErr := (case firstErr st of None \<Rightarrow> Some e | Some e' \<Rightarrow> Some e'),
              workers := (workers st)[w := (Cancelling, rd)]\<rparr>
       | Cancelling \<Rightarrow> st\<lparr>cancelled := True, workers := (workers st)[w := (Finished, putDecoder rd)]\<rparr>
       | Finished \<Rightarrow> st
       | Crashed e \<Rightarrow> st)"

text \<open>
  \<open>polls\<close> are the possible results of \<open>ctx.Err()\<close>. A panic of a worker ends the
  program: nothing steps once a worker has crashed.
\<close>

definition items_crashed :: "items_state \<Rightarrow> bool" where
  "items_crashed st \<longleftrightarrow> (\<exists>w \<in> set (workers st). case fst w of Crashed e \<Rightarrow> True | _ \<Rightarrow> False)"

inductive items_step :: "items_env \<Rightarrow> pf_error option set \<Rightarrow> items_state \<Rightarrow> items_state \<Rightarrow> bool"
  for E polls where
  step: "\<not> items_crashed st \<Longrightarrow> w < length (workers st) \<Longrightarrow> fst (workers st ! w) \<noteq> Finished \<Longrightarrow>
    c \<in> polls \<Longrightarrow> items_step E polls st (worker_step E c st w)"

text \<open>Up to the start of the workers: an early return, or the initial state.\<close>

definition start_workers :: "libzstd \<Rightarrow> openResult \<Rightarrow> nat \<Rightarrow> pf_error + items_state" where
  "start_workers z o' numWorkers =
    (case reader_getDecoder z None o' of
       Inl e \<Rightarrow> Inl e
     | Inr rd \<Rightarrow> Inr \<lparr>nextBatch = 0, cancelled = False, firstErr = None,
         workers = replicate numWorkers (Idle, rd), fnCalls = []\<rparr>)"

definition ReadItems_start ::
  "os_env \<Rightarrow> libzstd \<Rightarrow> Reader \<Rightarrow> pf_error option \<Rightarrow> int list \<Rightarrow> (nat \<Rightarrow> bytes \<Rightarrow> pf_error option)
    \<Rightarrow> pf_error option + items_env \<times> items_state" where
  "ReadItems_start env z r ctxErr positions fn =
    (if positions = [] then Inl None
     else case rresult r of
       Inl e \<Rightarrow> Inl (Some e)
     | Inr o' \<Rightarrow>
         (case check_positions (int (ototalItems o')) None positions of
            Some e \<Rightarrow> Inl (Some e)
          | None \<Rightarrow>
              (case partition_positions o' (rconcurrency r) positions of
                 Inl e \<Rightarrow> Inl (Some e)
               | Inr batches \<Rightarrow>
                   (case ctxErr of
                      Some e \<Rightarrow> Inl (Some e)
                    | None \<Rightarrow>
                        (case start_workers z o' (min (length batches) (nat (rconcurrency r))) of
                           Inl e \<Rightarrow> Inl (Some e)
                         | Inr st \<Rightarrow>
                             Inr (\<lparr>ienv = env, izstd = z, ireader = r, iopen = o', ipositions = positions,
                                   ibatches = batches, ifn = fn\<rparr>, st))))))"

text \<open>All workers have returned: \<open>wg.Wait\<close> lets \<open>ReadItems\<close> return \<open>firstErr\<close>.\<close>

definition items_done :: "items_state \<Rightarrow> bool" where
  "items_done st \<longleftrightarrow> (\<forall>w \<in> set (workers st). fst w = Finished)"

section \<open>Termination\<close>

text \<open>
  Every step of every worker lowers \<open>items_measure\<close>, so no schedule runs forever.
\<close>

definition phase_weight :: "ioBatch list \<Rightarrow> phase \<Rightarrow> nat" where
  "phase_weight batches ph =
    (let len = (\<lambda>bi. idxEnd (batches ! bi) - idxStart (batches ! bi))
     in case ph of
          Idle \<Rightarrow> 4
        | Claimed bi \<Rightarrow> if bi < length batches then len bi + 7 else 3
        | Polling bi \<Rightarrow> len bi + 6
        | Working bi buf k prev \<Rightarrow> idxEnd (batches ! bi) - k + 5
        | Failing e \<Rightarrow> 2
        | Cancelling \<Rightarrow> 1
        | Finished \<Rightarrow> 0
        | Crashed e \<Rightarrow> 0)"

definition items_measure :: "items_env \<Rightarrow> items_state \<Rightarrow> nat" where
  "items_measure E st =
    sum_list (map (\<lambda>b. idxEnd b - idxStart b + 4) (drop (nextBatch st) (ibatches E))) +
    sum_list (map (\<lambda>w. phase_weight (ibatches E) (fst w)) (workers st))"

lemma phase_weight_simps [simp]:
  "phase_weight bs Idle = 4" "phase_weight bs (Failing e) = 2" "phase_weight bs Cancelling = 1"
  "phase_weight bs Finished = 0" "phase_weight bs (Crashed e) = 0"
  "phase_weight bs (Polling bi) = idxEnd (bs ! bi) - idxStart (bs ! bi) + 6"
  "phase_weight bs (Working bi buf k prev) = idxEnd (bs ! bi) - k + 5"
  "phase_weight bs (Claimed bi) = (if bi < length bs then idxEnd (bs ! bi) - idxStart (bs ! bi) + 7 else 3)"
  by (simp_all add: phase_weight_def)

lemma read_batch_weight:
  "phase_weight (ibatches E) (read_batch E bi) < idxEnd (ibatches E ! bi) - idxStart (ibatches E ! bi) + 6"
  by (auto simp: read_batch_def Let_def split: sum.split)

lemma work_item_weight:
  assumes "k < idxEnd (ibatches E ! bi)" "work_item E bi buf k prev rd = (called, ph, rd')"
  shows "phase_weight (ibatches E) ph < idxEnd (ibatches E ! bi) - k + 5"
  using assms
  by (auto simp: work_item_def Let_def split: prod.splits option.splits sum.splits if_splits)

lemma sum_list_worker:
  assumes "w < length ws"
  shows "sum_list (map f (ws[w := x])) + f (ws ! w) = sum_list (map f ws) + (f x :: nat)"
  using elem_le_sum_list [of w "map f ws"] assms by (simp add: map_update sum_list_update)

lemma items_step_measure:
  assumes "items_step E polls st st'"
  shows "items_measure E st' < items_measure E st"
  using assms
proof cases
  case (step w c)
  let ?f = "\<lambda>w. phase_weight (ibatches E) (fst w)"
  obtain ph rd where w: "workers st ! w = (ph, rd)" by fastforce
  have ncr: "ph \<noteq> Crashed e" for e
    using step(2,3) w nth_mem [OF step(3)] by (auto simp: items_crashed_def split: phase.splits)
  have upd: "sum_list (map ?f ((workers st)[w := x])) < sum_list (map ?f (workers st))"
    if "?f x < phase_weight (ibatches E) ph" for x
    using sum_list_worker [OF step(3), of ?f x] that w by simp
  show ?thesis
  proof (cases ph)
    case Idle
    let ?n = "nextBatch st"
    have sum: "sum_list (map ?f ((workers st)[w := x])) + 4 = sum_list (map ?f (workers st)) + ?f x" for x
      using sum_list_worker [OF step(3), of ?f x] w Idle by simp
    show ?thesis
    proof (cases "?n < length (ibatches E)")
      case True
      then have "drop ?n (ibatches E) = ibatches E ! ?n # drop (Suc ?n) (ibatches E)"
        by (simp add: Cons_nth_drop_Suc)
      then show ?thesis
        using step(1) w Idle True sum [of "(Claimed ?n, rd)"]
        by (simp add: worker_step_def items_measure_def)
    next
      case False
      then show ?thesis
        using step(1) w Idle sum [of "(Claimed ?n, rd)"]
        by (simp add: worker_step_def items_measure_def)
    qed
  next
    case (Working bi buf k prev)
    obtain called ph' rd' where it: "work_item E bi buf k prev rd = (called, ph', rd')"
      by (cases "work_item E bi buf k prev rd") auto
    show ?thesis
      using step(1) w Working work_item_weight [OF _ it] upd [of "(ph', rd')"] upd [of "(Idle, rd)"] it
      by (simp add: worker_step_def items_measure_def)
  next
    case (Polling bi)
    then show ?thesis
      using step(1) w upd [of "(read_batch E bi, rd)"] read_batch_weight [of E bi] upd
      by (cases c) (simp_all add: worker_step_def items_measure_def)
  qed (use step(1) w ncr upd step(4) in \<open>auto simp: worker_step_def items_measure_def\<close>)
qed

end
