(* ===== verification/Read_Items_Correct.thy ===== *)
theory Read_Items_Correct
  imports Read_Items Read_Back
begin

text \<open>
  Correctness of the concurrent \<open>ReadItems\<close>: the batches tile the positions, and under
  every schedule each position is passed to \<open>fn\<close> at most once, with its item; when
  the workers are done without an error, exactly once.
\<close>

section \<open>The batches\<close>

definition ixs :: "ioBatch \<Rightarrow> nat list" where
  "ixs b = [idxStart b..<idxEnd b]"

definition rec_at :: "nat \<Rightarrow> int list \<Rightarrow> nat \<Rightarrow> nat" where
  "rec_at k ps m = nat (ps ! m) div k"

definition batch_ok :: "int list \<Rightarrow> nat \<Rightarrow> int list \<Rightarrow> ioBatch \<Rightarrow> bool" where
  "batch_ok offs k ps b \<longleftrightarrow> idxStart b < idxEnd b \<and>
    (\<forall>m \<in> set (ixs b). firstRecord b \<le> rec_at k ps m \<and> rec_at k ps m \<le> lastRecord b) \<and>
    firstRecord b \<le> lastRecord b \<and> Suc (lastRecord b) < length offs"

definition batches_ok :: "int list \<Rightarrow> nat \<Rightarrow> int list \<Rightarrow> ioBatch list \<Rightarrow> bool" where
  "batches_ok offs k ps bs \<longleftrightarrow> concat (map ixs bs) = [0..<length ps] \<and> (\<forall>b \<in> set bs. batch_ok offs k ps b)"

lemma upt_join: "a \<le> b \<Longrightarrow> b \<le> c \<Longrightarrow> [a..<b] @ [b..<c] = [a..<c]"
  by (metis le_add_diff_inverse upt_add_eq_append)

lemma partition_loop_ok:
  assumes recs: "\<And>m. m < length ps \<Longrightarrow> Suc (rec_at k ps m) < length offs"
  shows "rest = drop i ps \<Longrightarrow> i \<le> length ps \<Longrightarrow> concat (map ixs bs) = [0..<start] \<Longrightarrow>
    (\<forall>b \<in> set bs. batch_ok offs k ps b) \<Longrightarrow>
    batch_ok offs k ps \<lparr>idxStart = start, idxEnd = i, firstRecord = fr, lastRecord = lr\<rparr> \<Longrightarrow>
    \<exists>bs'. partition_loop offs k maxPer i rest bs start fr lr bytes = Inr bs' \<and> batches_ok offs k ps bs'"
proof (induction rest arbitrary: i bs start fr lr bytes)
  case Nil
  then have "i = length ps" by simp
  moreover have "concat (map ixs (bs @ [\<lparr>idxStart = start, idxEnd = i, firstRecord = fr, lastRecord = lr\<rparr>])) = [0..<i]"
    using Nil.prems(5) by (simp add: Nil.prems(3)) (simp add: ixs_def batch_ok_def upt_join)
  ultimately show ?case
    using Nil.prems(4,5) by (simp add: batches_ok_def)
next
  case (Cons pos rest)
  let ?cur = "\<lambda>i lr. \<lparr>idxStart = start, idxEnd = i, firstRecord = fr, lastRecord = lr\<rparr>"
  have i: "i < length ps" using Cons.prems(1) by (metis drop_eq_Nil list.distinct(1) not_le)
  have pos: "pos = ps ! i" "rest = drop (Suc i) ps"
    using Cons.prems(1) i by (metis Cons_nth_drop_Suc list.inject)+
  let ?rec = "nat pos div k"
  have r: "?rec = rec_at k ps i" "Suc ?rec < length offs" using recs [OF i] pos by (simp_all add: rec_at_def)
  then obtain n where sp: "span offs ?rec (?rec + 1) = Inr n" by (simp add: span_def)
  note cur = Cons.prems(5)
  have set_ixs: "set (ixs (?cur (Suc i) lr')) = insert i (set (ixs (?cur i lr)))" for lr'
    using cur by (auto simp: ixs_def batch_ok_def)
  have same: "batch_ok offs k ps (?cur (Suc i) lr)" if "?rec = lr"
    using cur that r set_ixs [of lr] by (auto simp: batch_ok_def)
  have more: "batch_ok offs k ps (?cur (Suc i) ?rec)" if "?rec = lr + 1"
    using cur that r set_ixs [of ?rec] by (auto simp: batch_ok_def)
  have new: "batch_ok offs k ps \<lparr>idxStart = i, idxEnd = Suc i, firstRecord = ?rec, lastRecord = ?rec\<rparr>"
    using r by (auto simp: batch_ok_def ixs_def)
  have tiled: "concat (map ixs (bs @ [?cur i lr])) = [0..<i]"
    using cur by (simp add: Cons.prems(3)) (simp add: ixs_def batch_ok_def upt_join)
  have ok: "\<forall>b \<in> set (bs @ [?cur i lr]). batch_ok offs k ps b"
    using Cons.prems(4) cur by auto
  have le: "Suc i \<le> length ps" using i by simp
  show ?case
    using Cons.IH [OF pos(2) le Cons.prems(3,4) same] Cons.IH [OF pos(2) le Cons.prems(3,4) more]
      Cons.IH [OF pos(2) le tiled ok new] sp
    by (auto simp: Let_def)
qed

lemma check_positions_None:
  "check_positions t prev ps = None \<Longrightarrow>
    (\<forall>p \<in> set ps. 0 \<le> p \<and> p < t) \<and> sorted_wrt (<) ((case prev of None \<Rightarrow> [] | Some p \<Rightarrow> [p]) @ ps)"
proof (induction t prev ps rule: check_positions.induct)
  case (2 t prev pos rest)
  then show ?case by (auto split: if_splits option.splits)
qed (auto split: option.splits)

lemma partition_positions_ok:
  assumes ps: "ps \<noteq> []" "\<forall>p \<in> set ps. 0 \<le> p \<and> p < int (ototalItems o')"
    and recs: "\<And>pos. pos < ototalItems o' \<Longrightarrow> Suc (pos div oitemsPerRecord o') < length (ooffsets o')"
  shows "\<exists>bs. partition_positions o' conc ps = Inr bs \<and> batches_ok (ooffsets o') (oitemsPerRecord o') ps bs"
proof -
  let ?k = "oitemsPerRecord o'"
  obtain p rest where p: "ps = p # rest" using ps(1) by (cases ps) auto
  have recs': "Suc (rec_at ?k ps m) < length (ooffsets o')" if "m < length ps" for m
    using ps(2) nth_mem [OF that] recs [of "nat (ps ! m)"] by (auto simp: rec_at_def)
  have first: "Suc (nat p div ?k) < length (ooffsets o')" using recs' [of 0] p by (simp add: rec_at_def)
  then obtain n where sp: "span (ooffsets o') (nat p div ?k) (Suc (nat p div ?k)) = Inr n"
    by (simp add: span_def)
  have "batch_ok (ooffsets o') ?k ps
      \<lparr>idxStart = 0, idxEnd = 1, firstRecord = nat p div ?k, lastRecord = nat p div ?k\<rparr>"
    using first p by (auto simp: batch_ok_def ixs_def rec_at_def)
  then have "\<exists>bs'. partition_loop (ooffsets o') ?k maxPer 1 rest [] 0 (nat p div ?k) (nat p div ?k) n = Inr bs' \<and>
      batches_ok (ooffsets o') ?k ps bs'" for maxPer
    using p by (intro partition_loop_ok [OF recs']) simp_all
  then show ?thesis
    using sp p by (simp add: partition_positions_def Let_def)
qed

text \<open>The index ranges of the batches are disjoint and cover all positions.\<close>

lemma batches_cover:
  assumes "batches_ok offs k ps bs"
  shows "m < length ps \<longleftrightarrow> (\<exists>i < length bs. m \<in> set (ixs (bs ! i)))"
    "i < length bs \<Longrightarrow> j < length bs \<Longrightarrow> i \<noteq> j \<Longrightarrow> set (ixs (bs ! i)) \<inter> set (ixs (bs ! j)) = {}"
proof -
  have c: "concat (map ixs bs) = [0..<length ps]" using assms by (simp add: batches_ok_def)
  have "m < length ps \<longleftrightarrow> m \<in> set (concat (map ixs bs))" by (simp add: c)
  also have "\<dots> \<longleftrightarrow> (\<exists>b \<in> set bs. m \<in> set (ixs b))" by simp
  also have "\<dots> \<longleftrightarrow> (\<exists>i < length bs. m \<in> set (ixs (bs ! i)))" by (metis in_set_conv_nth)
  finally show "m < length ps \<longleftrightarrow> (\<exists>i < length bs. m \<in> set (ixs (bs ! i)))" .
  have dist: "distinct (concat (map ixs bs))" by (simp add: c)
  have less: "set (ixs (bs ! i)) \<inter> set (ixs (bs ! j)) = {}" if ij: "i < j" "j < length bs" for i j
  proof -
    have "bs = take j bs @ bs ! j # drop (Suc j) bs" by (rule id_take_nth_drop [OF ij(2)])
    then have "distinct (concat (map ixs (take j bs)) @ ixs (bs ! j) @ concat (map ixs (drop (Suc j) bs)))"
      using dist by (metis concat.simps(2) concat_append list.simps(9) map_append)
    then have "set (concat (map ixs (take j bs))) \<inter> set (ixs (bs ! j)) = {}" by auto
    moreover have "bs ! i \<in> set (take j bs)"
      using ij by (auto simp: in_set_conv_nth intro!: exI [of _ i])
    ultimately show ?thesis by auto
  qed
  assume "i < length bs" "j < length bs" "i \<noteq> j"
  then show "set (ixs (bs ! i)) \<inter> set (ixs (bs ! j)) = {}"
    using less [of i j] less [of j i] by (cases "i < j") auto
qed

section \<open>One step of a worker\<close>

definition items_setup :: "items_env \<Rightarrow> bytes list \<Rightarrow> bytes list \<Rightarrow> bool" where
  "items_setup E items blocks \<longleftrightarrow>
    readable (ienv E) (izstd E) (ireader E) (iopen E) items \<and>
    stored_blocks (izstd E) (iopen E) items blocks \<and>
    batches_ok (ooffsets (iopen E)) (oitemsPerRecord (iopen E)) (ipositions E) (ibatches E) \<and>
    (\<forall>p \<in> set (ipositions E). 0 \<le> p \<and> p < int (length items))"

definition item_at :: "items_env \<Rightarrow> bytes list \<Rightarrow> nat \<Rightarrow> bytes" where
  "item_at E items k = items ! nat (ipositions E ! k)"

definition batch_buf :: "items_env \<Rightarrow> bytes list \<Rightarrow> nat \<Rightarrow> bytes" where
  "batch_buf E blocks bi =
    (let b = ibatches E ! bi
     in concat (take (Suc (lastRecord b) - firstRecord b) (drop (firstRecord b) blocks)))"

lemma setup_batch:
  assumes "items_setup E items blocks" "bi < length (ibatches E)"
  shows "batch_ok (ooffsets (iopen E)) (oitemsPerRecord (iopen E)) (ipositions E) (ibatches E ! bi)"
    "lastRecord (ibatches E ! bi) < length blocks"
proof -
  show b: "batch_ok (ooffsets (iopen E)) (oitemsPerRecord (iopen E)) (ipositions E) (ibatches E ! bi)"
    using assms by (simp add: items_setup_def batches_ok_def)
  then show "lastRecord (ibatches E ! bi) < length blocks"
    using assms(1) by (simp add: batch_ok_def items_setup_def stored_blocks_def)
qed

lemma read_batch_ok:
  assumes su: "items_setup E items blocks" and bi: "bi < length (ibatches E)"
  shows "read_batch E bi = Working bi (batch_buf E blocks bi) (idxStart (ibatches E ! bi)) (- 1)"
proof -
  let ?b = "ibatches E ! bi"
  have st: "stored_blocks (izstd E) (iopen E) items blocks" "read_ok (ienv E)" "rclosed (ireader E) = None"
    using su by (auto simp: items_setup_def readable_def)
  have r: "firstRecord ?b \<le> Suc (lastRecord ?b)" "Suc (lastRecord ?b) \<le> length blocks"
    using setup_batch [OF su bi] by (simp_all add: batch_ok_def)
  note sr = stored_read [OF st r]
  show ?thesis
    using sr by (simp add: read_batch_def Let_def batch_buf_def)
qed

lemma work_item_ok:
  assumes su: "items_setup E items blocks" and bi: "bi < length (ibatches E)"
    and k: "k \<in> set (ixs (ibatches E ! bi))" and rd: "configured (iopen E) rd"
    and prev: "prev = - 1 \<or> (\<exists>p. prev = int p \<and> holds_items rd (chunks (oitemsPerRecord (iopen E)) items ! p))"
  shows "\<exists>rd' p. configured (iopen E) rd' \<and> holds_items rd' (chunks (oitemsPerRecord (iopen E)) items ! p) \<and>
    work_item E bi (batch_buf E blocks bi) k prev rd =
      ([(k, item_at E items k)],
       case ifn E k (item_at E items k) of
         Some e \<Rightarrow> Failing e
       | None \<Rightarrow> Working bi (batch_buf E blocks bi) (Suc k) (int p), rd')"
proof -
  let ?b = "ibatches E ! bi" let ?ipr = "oitemsPerRecord (iopen E)"
  define pos where "pos = nat (ipositions E ! k)"
  define rec where "rec = pos div ?ipr"
  have st: "stored_blocks (izstd E) (iopen E) items blocks" "zstd_contract (izstd E)"
    using su by (auto simp: items_setup_def readable_def)
  have ipr: "0 < ?ipr" using st(1) by (simp add: stored_blocks_def)
  have "batches_ok (ooffsets (iopen E)) ?ipr (ipositions E) (ibatches E)"
    using su by (simp add: items_setup_def)
  then have klt: "k < length (ipositions E)"
    using batches_cover(1) [of _ _ _ "ibatches E" k] bi k by blast
  then have "ipositions E ! k \<in> set (ipositions E)" by simp
  then have pos: "pos < length items" using su by (force simp: items_setup_def pos_def)
  have rec: "firstRecord ?b \<le> rec" "rec \<le> lastRecord ?b" "rec < length blocks" "lastRecord ?b < length blocks"
    using setup_batch [OF su bi] k by (auto simp: batch_ok_def rec_at_def rec_def pos_def)
  let ?c = "chunks ?ipr items ! rec"
  have item: "?c ! (pos mod ?ipr) = item_at E items k" "pos mod ?ipr < length ?c"
    using nth_chunks_nth [OF ipr pos] by (simp_all add: rec_def item_at_def pos_def)
  have at: "ooffsets (iopen E) ! m = int (length (concat (take m blocks)))" if "m \<le> length blocks" for m
    using st(1) that by (simp add: stored_blocks_def nth_block_offsets del: length_concat)
  note sp = stored_span [OF st(1)]
  have span: "span (ooffsets (iopen E)) (firstRecord ?b) rec = Inr (ooffsets (iopen E) ! rec - ooffsets (iopen E) ! firstRecord ?b)"
    "span (ooffsets (iopen E)) (firstRecord ?b) (Suc rec) = Inr (ooffsets (iopen E) ! Suc rec - ooffsets (iopen E) ! firstRecord ?b)"
    using sp(1) [of "firstRecord ?b" rec] sp(1) [of "firstRecord ?b" "Suc rec"] rec by simp_all
  let ?buf = "batch_buf E blocks bi"
  have buflen: "int (length ?buf) = ooffsets (iopen E) ! Suc (lastRecord ?b) - ooffsets (iopen E) ! firstRecord ?b"
    using at [of "Suc (lastRecord ?b)"] at [of "firstRecord ?b"] rec
      length_take_drop_concat [of "firstRecord ?b" "Suc (lastRecord ?b)" blocks]
    by (simp add: batch_buf_def Let_def)
  have le: "ooffsets (iopen E) ! firstRecord ?b \<le> ooffsets (iopen E) ! rec"
    "ooffsets (iopen E) ! rec \<le> ooffsets (iopen E) ! Suc rec"
    "ooffsets (iopen E) ! Suc rec - ooffsets (iopen E) ! firstRecord ?b \<le> int (length ?buf)"
    using sp(3) [of "firstRecord ?b" rec] sp(3) [of rec "Suc rec"] sp(3) [of "Suc rec" "Suc (lastRecord ?b)"] rec buflen
    by simp_all
  have data: "slice ?buf (nat (ooffsets (iopen E) ! rec - ooffsets (iopen E) ! firstRecord ?b))
      (nat (ooffsets (iopen E) ! Suc rec - ooffsets (iopen E) ! firstRecord ?b)) = blocks ! rec"
    using slice_batch [of "firstRecord ?b" rec "Suc (lastRecord ?b)" blocks] rec at [of rec] at [of "Suc rec"] at [of "firstRecord ?b"]
    by (simp add: batch_buf_def Let_def nat_diff_distrib')
  have "\<exists>rd'. configured (iopen E) rd' \<and> holds_items rd' ?c \<and>
      (if int rec \<noteq> prev then Decode (izstd E) rd (blocks ! rec) rec else (None, rd)) = (None, rd')"
    using Decode_stored [OF st(2,1) rd rec(3)] rd prev by auto
  then obtain rd' where rd': "configured (iopen E) rd'" "holds_items rd' ?c"
    "(if int rec \<noteq> prev then Decode (izstd E) rd (blocks ! rec) rec else (None, rd)) = (None, rd')" by blast
  have it: "Item rd' (int (pos mod ?ipr)) = Inr (item_at E items k)"
    using Item_holds [OF rd'(2) item(2)] item(1) by simp
  have "work_item E bi ?buf k prev rd = ([(k, item_at E items k)],
       case ifn E k (item_at E items k) of
         Some e \<Rightarrow> Failing e
       | None \<Rightarrow> Working bi ?buf (Suc k) (int rec), rd')"
    using span le data rd'(3) it
    by (auto simp: work_item_def Let_def pos_def [symmetric] rec_def [symmetric]
        split: if_splits option.splits)
  then show ?thesis using rd' by blast
qed

section \<open>The invariant of the workers\<close>

definition logged :: "items_state \<Rightarrow> nat set" where
  "logged st = fst ` set (fnCalls st)"

text \<open>The errors the caller or the context supplied.\<close>

definition genuine :: "items_env \<Rightarrow> bytes list \<Rightarrow> pf_error option set \<Rightarrow> pf_error \<Rightarrow> bool" where
  "genuine E items polls e \<longleftrightarrow> Some e \<in> polls \<or>
    (\<exists>k < length (ipositions E). ifn E k (item_at E items k) = Some e)"

abbreviation batch_set :: "items_env \<Rightarrow> nat \<Rightarrow> nat set" where
  "batch_set E bi \<equiv> set (ixs (ibatches E ! bi))"

text \<open>The batch a worker has claimed and not given up.\<close>

fun owned :: "phase \<Rightarrow> nat option" where
  "owned (Claimed bi) = Some bi"
| "owned (Polling bi) = Some bi"
| "owned (Working bi buf k prev) = Some bi"
| "owned _ = None"

fun phase_ok ::
  "items_env \<Rightarrow> bytes list \<Rightarrow> bytes list \<Rightarrow> pf_error option set \<Rightarrow> items_state \<Rightarrow> decoder \<Rightarrow> phase \<Rightarrow> bool" where
  "phase_ok E items blocks polls st rd Idle \<longleftrightarrow> True"
| "phase_ok E items blocks polls st rd (Claimed bi) \<longleftrightarrow> bi < nextBatch st \<and>
    (bi < length (ibatches E) \<longrightarrow> logged st \<inter> batch_set E bi = {})"
| "phase_ok E items blocks polls st rd (Polling bi) \<longleftrightarrow> bi < nextBatch st \<and> bi < length (ibatches E) \<and>
    logged st \<inter> batch_set E bi = {}"
| "phase_ok E items blocks polls st rd (Working bi buf k prev) \<longleftrightarrow> bi < nextBatch st \<and>
    bi < length (ibatches E) \<and> buf = batch_buf E blocks bi \<and>
    idxStart (ibatches E ! bi) \<le> k \<and> k \<le> idxEnd (ibatches E ! bi) \<and>
    logged st \<inter> batch_set E bi = {idxStart (ibatches E ! bi)..<k} \<and>
    (prev = - 1 \<or> (\<exists>p. prev = int p \<and> holds_items rd (chunks (oitemsPerRecord (iopen E)) items ! p)))"
| "phase_ok E items blocks polls st rd (Failing e) \<longleftrightarrow> genuine E items polls e"
| "phase_ok E items blocks polls st rd Cancelling \<longleftrightarrow> firstErr st \<noteq> None"
| "phase_ok E items blocks polls st rd Finished \<longleftrightarrow> cancelled st \<or> length (ibatches E) \<le> nextBatch st"
| "phase_ok E items blocks polls st rd (Crashed e) \<longleftrightarrow> False"

definition no_failure :: "items_state \<Rightarrow> bool" where
  "no_failure st \<longleftrightarrow> firstErr st = None \<and> (\<forall>w \<in> set (workers st). \<forall>e. fst w \<noteq> Failing e)"

definition unowned :: "items_state \<Rightarrow> nat \<Rightarrow> bool" where
  "unowned st bi \<longleftrightarrow> (\<forall>w < length (workers st). owned (fst (workers st ! w)) \<noteq> Some bi)"

definition items_inv ::
  "items_env \<Rightarrow> bytes list \<Rightarrow> bytes list \<Rightarrow> pf_error option set \<Rightarrow> items_state \<Rightarrow> bool" where
  "items_inv E items blocks polls st \<longleftrightarrow>
    (\<forall>w < length (workers st).
      phase_ok E items blocks polls st (snd (workers st ! w)) (fst (workers st ! w)) \<and>
      (fst (workers st ! w) \<noteq> Finished \<longrightarrow> configured (iopen E) (snd (workers st ! w)))) \<and>
    (\<forall>v < length (workers st). \<forall>w < length (workers st). \<forall>bi. v \<noteq> w \<longrightarrow>
      owned (fst (workers st ! v)) = Some bi \<longrightarrow> owned (fst (workers st ! w)) \<noteq> Some bi) \<and>
    distinct (map fst (fnCalls st)) \<and>
    (\<forall>(k, d) \<in> set (fnCalls st). k < length (ipositions E) \<and> d = item_at E items k) \<and>
    (\<forall>bi < length (ibatches E). nextBatch st \<le> bi \<longrightarrow> logged st \<inter> batch_set E bi = {}) \<and>
    (no_failure st \<longrightarrow> (\<forall>bi < length (ibatches E). bi < nextBatch st \<longrightarrow> unowned st bi \<longrightarrow>
      batch_set E bi \<subseteq> logged st)) \<and>
    (no_failure st \<longrightarrow> (\<forall>(k, d) \<in> set (fnCalls st). ifn E k d = None)) \<and>
    (cancelled st \<longrightarrow> firstErr st \<noteq> None) \<and>
    (\<forall>e. firstErr st = Some e \<longrightarrow> genuine E items polls e)"

text \<open>Steps of other workers keep a worker's assertion.\<close>

lemma phase_ok_frame:
  assumes "phase_ok E items blocks polls st rd ph"
    and "nextBatch st \<le> nextBatch st'" "cancelled st \<longrightarrow> cancelled st'" "firstErr st \<noteq> None \<longrightarrow> firstErr st' \<noteq> None"
    and "\<And>bi. owned ph = Some bi \<Longrightarrow> bi < length (ibatches E) \<Longrightarrow> logged st' \<inter> batch_set E bi = logged st \<inter> batch_set E bi"
  shows "phase_ok E items blocks polls st' rd ph"
  using assms by (cases ph) auto

lemma items_inv_update:
  assumes inv: "items_inv E items blocks polls st" and w: "w < length (workers st)" "workers st ! w = (ph, rd)"
    and ws: "workers st' = (workers st)[w := (ph', rd')]"
    and mono: "nextBatch st \<le> nextBatch st'" "cancelled st \<longrightarrow> cancelled st'" "firstErr st \<noteq> None \<longrightarrow> firstErr st' \<noteq> None"
    and ok: "phase_ok E items blocks polls st' rd' ph'" "ph' \<noteq> Finished \<longrightarrow> configured (iopen E) rd'"
    and own: "\<And>bi. owned ph' = Some bi \<Longrightarrow> owned ph = Some bi \<or> bi = nextBatch st"
    and log: "\<And>bi. owned ph \<noteq> Some bi \<Longrightarrow> bi < length (ibatches E) \<Longrightarrow>
      logged st' \<inter> batch_set E bi = logged st \<inter> batch_set E bi" "logged st \<subseteq> logged st'"
    and calls: "distinct (map fst (fnCalls st'))"
      "\<forall>(k, d) \<in> set (fnCalls st'). k < length (ipositions E) \<and> d = item_at E items k"
    and new: "\<And>bi. nextBatch st \<le> bi \<Longrightarrow> bi < nextBatch st' \<Longrightarrow> owned ph' = Some bi"
    and dropped: "\<And>bi. owned ph = Some bi \<Longrightarrow> owned ph' \<noteq> Some bi \<Longrightarrow> bi < length (ibatches E) \<Longrightarrow>
      no_failure st' \<Longrightarrow> batch_set E bi \<subseteq> logged st'"
    and fails: "\<And>e. no_failure st' \<Longrightarrow> ph \<noteq> Failing e"
    and oks: "no_failure st' \<Longrightarrow> \<forall>(k, d) \<in> set (fnCalls st). ifn E k d = None \<Longrightarrow>
      \<forall>(k, d) \<in> set (fnCalls st'). ifn E k d = None"
    and errs: "cancelled st' \<longrightarrow> firstErr st' \<noteq> None" "\<forall>e. firstErr st' = Some e \<longrightarrow> genuine E items polls e"
  shows "items_inv E items blocks polls st'"
proof -
  let ?ws = "workers st" let ?n = "length (ibatches E)"
  have I: "\<And>v. v < length ?ws \<Longrightarrow> phase_ok E items blocks polls st (snd (?ws ! v)) (fst (?ws ! v)) \<and>
      (fst (?ws ! v) \<noteq> Finished \<longrightarrow> configured (iopen E) (snd (?ws ! v)))"
    "\<And>u v bi. u < length ?ws \<Longrightarrow> v < length ?ws \<Longrightarrow> u \<noteq> v \<Longrightarrow> owned (fst (?ws ! u)) = Some bi \<Longrightarrow>
      owned (fst (?ws ! v)) \<noteq> Some bi"
    "\<And>bi. bi < ?n \<Longrightarrow> nextBatch st \<le> bi \<Longrightarrow> logged st \<inter> batch_set E bi = {}"
    "\<And>bi. no_failure st \<Longrightarrow> bi < ?n \<Longrightarrow> bi < nextBatch st \<Longrightarrow> unowned st bi \<Longrightarrow> batch_set E bi \<subseteq> logged st"
    using inv unfolding items_inv_def by blast+
  have owned_lt: "bi < nextBatch st" if "v < length ?ws" "owned (fst (?ws ! v)) = Some bi" for v bi
    using I(1) [OF that(1)] that(2) by (cases "fst (?ws ! v)") auto
  have at: "workers st' ! v = (if v = w then (ph', rd') else ?ws ! v)" if "v < length ?ws" for v
    using that w(1) by (simp add: ws)
  have len: "length (workers st') = length ?ws" by (simp add: ws)
  have other: "owned ph \<noteq> Some bi" if "v < length ?ws" "v \<noteq> w" "owned (fst (?ws ! v)) = Some bi" for v bi
    using I(2) [OF that(1) w(1) that(2,3)] w(2) by simp
  have phases: "phase_ok E items blocks polls st' (snd (workers st' ! v)) (fst (workers st' ! v)) \<and>
      (fst (workers st' ! v) \<noteq> Finished \<longrightarrow> configured (iopen E) (snd (workers st' ! v)))"
    if v: "v < length ?ws" for v
  proof (cases "v = w")
    case True
    then show ?thesis using at [OF v] ok by simp
  next
    case False
    have "phase_ok E items blocks polls st' (snd (?ws ! v)) (fst (?ws ! v))"
      using I(1) [OF v] by (intro phase_ok_frame [OF _ mono] log(1) other [OF v False]) auto
    then show ?thesis using at [OF v] False I(1) [OF v] by simp
  qed
  have owners: "owned (fst (workers st' ! v)) \<noteq> Some bi"
    if uv: "u < length ?ws" "v < length ?ws" "u \<noteq> v" "owned (fst (workers st' ! u)) = Some bi" for u v bi
  proof
    assume v: "owned (fst (workers st' ! v)) = Some bi"
    consider "u = w" "v \<noteq> w" | "u \<noteq> w" "v = w" | "u \<noteq> w" "v \<noteq> w" using uv(3) by blast
    then show False
    proof cases
      case 1
      then show ?thesis
        using uv v at own [of bi] owned_lt [of v bi] other [of v bi] by auto
    next
      case 2
      then show ?thesis
        using uv v at own [of bi] owned_lt [of u bi] other [of u bi] by auto
    next
      case 3
      then show ?thesis using uv v at I(2) [of u v bi] by auto
    qed
  qed
  have unclaimed: "logged st' \<inter> batch_set E bi = {}" if "bi < ?n" "nextBatch st' \<le> bi" for bi
    using log(1) [of bi] I(3) [of bi] owned_lt [OF w(1), of bi] w(2) that mono(1) by force
  have nf: "no_failure st" if nf': "no_failure st'"
  proof -
    have "fst (?ws ! v) \<noteq> Failing e" if v: "v < length ?ws" for v e
    proof (cases "v = w")
      case True
      then show ?thesis using fails [OF nf'] w(2) by simp
    next
      case False
      have "workers st' ! v \<in> set (workers st')" using v len by simp
      then show ?thesis using nf' at [OF v] False by (auto simp: no_failure_def)
    qed
    then have "\<forall>w \<in> set ?ws. \<forall>e. fst w \<noteq> Failing e" by (metis in_set_conv_nth)
    then show ?thesis using nf' mono(3) by (auto simp: no_failure_def)
  qed
  have complete: "batch_set E bi \<subseteq> logged st'"
    if bi: "no_failure st'" "bi < ?n" "bi < nextBatch st'" "unowned st' bi" for bi
  proof -
    have ph': "owned ph' \<noteq> Some bi" using bi(4) w(1) at [OF w(1)] len by (auto simp: unowned_def)
    then have old: "bi < nextBatch st" using new [of bi] bi(3) by (meson not_le)
    show ?thesis
    proof (cases "owned ph = Some bi")
      case True
      then show ?thesis using dropped ph' bi(1,2) by blast
    next
      case False
      have "unowned st bi"
        unfolding unowned_def
      proof (intro allI impI)
        fix v assume v: "v < length ?ws"
        show "owned (fst (?ws ! v)) \<noteq> Some bi"
          using bi(4) v at [OF v] len False w(2) by (cases "v = w") (auto simp: unowned_def)
      qed
      then show ?thesis using I(4) [OF nf [OF bi(1)] bi(2) old] log(2) by blast
    qed
  qed
  have fine: "\<forall>(k, d) \<in> set (fnCalls st'). ifn E k d = None" if nf': "no_failure st'"
  proof (rule oks [OF nf'])
    show "\<forall>(k, d) \<in> set (fnCalls st). ifn E k d = None"
      using inv nf [OF nf'] unfolding items_inv_def by blast
  qed
  show ?thesis
    unfolding items_inv_def len
    using phases owners calls unclaimed complete fine errs by blast
qed

lemma Failing_fails:
  "workers st' = ws[w := (Failing e, rd)] \<Longrightarrow> w < length ws \<Longrightarrow> \<not> no_failure st'"
  using set_update_memI [of w ws "(Failing e, rd)"] by (force simp: no_failure_def)

lemma items_step_inv:
  assumes su: "items_setup E items blocks" and inv: "items_inv E items blocks polls st"
    and step: "items_step E polls st st'"
  shows "items_inv E items blocks polls st'"
  using step
proof cases
  case (step w c)
  obtain ph rd where w: "workers st ! w = (ph, rd)" by fastforce
  note lt = \<open>w < length (workers st)\<close>
  have pre: "phase_ok E items blocks polls st rd ph" "ph \<noteq> Finished \<longrightarrow> configured (iopen E) rd"
    using inv lt w unfolding items_inv_def by auto
  have old: "distinct (map fst (fnCalls st))"
      "\<forall>(k, d) \<in> set (fnCalls st). k < length (ipositions E) \<and> d = item_at E items k"
      "cancelled st \<longrightarrow> firstErr st \<noteq> None" "\<forall>e. firstErr st = Some e \<longrightarrow> genuine E items polls e"
      "\<forall>bi < length (ibatches E). nextBatch st \<le> bi \<longrightarrow> logged st \<inter> batch_set E bi = {}"
    using inv unfolding items_inv_def by blast+
  have ph: "ph \<noteq> Finished" using step w by simp
  note upd = items_inv_update [OF inv lt w]
  have st': "st' = worker_step E c st w" by (rule step)
  show ?thesis
  proof (cases ph)
    case Idle
    then show ?thesis
      using st' w pre old ph
      by (intro upd [where ph' = "Claimed (nextBatch st)" and rd' = rd])
        (auto simp: worker_step_def logged_def)
  next
    case (Claimed bi)
    show ?thesis
    proof (cases "bi \<ge> length (ibatches E) \<or> cancelled st")
      case True
      then show ?thesis
        using st' w pre old ph Claimed
        by (intro upd [where ph' = Finished and rd' = "putDecoder rd"])
          (auto simp: worker_step_def logged_def no_failure_def)
    next
      case False
      then show ?thesis
        using st' w pre old ph Claimed
        by (intro upd [where ph' = "Polling bi" and rd' = rd])
          (auto simp: worker_step_def logged_def)
    qed
  next
    case (Polling bi)
    show ?thesis
    proof (cases c)
      case None
      have bi: "bi < length (ibatches E)" using pre(1) Polling by simp
      have se: "idxStart (ibatches E ! bi) \<le> idxEnd (ibatches E ! bi)"
        using setup_batch(1) [OF su bi] by (simp add: batch_ok_def)
      from None show ?thesis
        using st' w pre old ph Polling read_batch_ok [OF su bi] se
        by (intro upd [where ph' = "Working bi (batch_buf E blocks bi) (idxStart (ibatches E ! bi)) (- 1)" and rd' = rd])
          (auto simp: worker_step_def logged_def)
    next
      case (Some e)
      then have "workers st' = (workers st)[w := (Failing e, rd)]"
        using st' w Polling by (simp add: worker_step_def)
      then have "\<not> no_failure st'" using lt by (rule Failing_fails)
      then show ?thesis
        using Some st' w pre old ph Polling \<open>c \<in> polls\<close>
        by (intro upd [where ph' = "Failing e" and rd' = rd])
          (auto simp: worker_step_def logged_def genuine_def)
    qed
  next
    case (Working bi buf k prev)
    let ?b = "ibatches E ! bi"
    have wk: "bi < length (ibatches E)" "buf = batch_buf E blocks bi" "idxStart ?b \<le> k" "k \<le> idxEnd ?b"
      "logged st \<inter> batch_set E bi = {idxStart ?b..<k}" "bi < nextBatch st"
      "prev = - 1 \<or> (\<exists>p. prev = int p \<and> holds_items rd (chunks (oitemsPerRecord (iopen E)) items ! p))"
      using pre(1) Working by simp_all
    have rd: "configured (iopen E) rd" using pre(2) ph by simp
    show ?thesis
    proof (cases "k < idxEnd ?b")
      case True
      then have k: "k \<in> batch_set E bi" using wk(3) by (simp add: ixs_def)
      have cover: "batches_ok (ooffsets (iopen E)) (oitemsPerRecord (iopen E)) (ipositions E) (ibatches E)"
        using su by (simp add: items_setup_def)
      have klt: "k < length (ipositions E)" using batches_cover(1) [OF cover] wk(1) k by blast
      have fresh: "k \<notin> logged st" using wk(5) k by auto
      have others: "bi' \<noteq> bi \<Longrightarrow> bi' < length (ibatches E) \<Longrightarrow> k \<notin> batch_set E bi'" for bi'
        using batches_cover(2) [OF cover wk(1), of bi'] k by blast
      have grow: "insert k (logged st) \<inter> batch_set E bi = {idxStart ?b..<Suc k}"
        using wk(3,5) k by auto
      obtain rd' p where it: "configured (iopen E) rd'" "holds_items rd' (chunks (oitemsPerRecord (iopen E)) items ! p)"
        "work_item E bi buf k prev rd = ([(k, item_at E items k)],
          case ifn E k (item_at E items k) of
            Some e \<Rightarrow> Failing e
          | None \<Rightarrow> Working bi buf (Suc k) (int p), rd')"
        using work_item_ok [OF su wk(1) k rd wk(7)] wk(2) by blast
      have log: "logged st' = insert k (logged st)" "fnCalls st' = fnCalls st @ [(k, item_at E items k)]"
        using st' w Working True it(3) by (simp_all add: worker_step_def logged_def)
      have dist: "distinct (map fst (fnCalls st'))" "\<forall>(k, d) \<in> set (fnCalls st'). k < length (ipositions E) \<and> d = item_at E items k"
        using old(1,2) fresh klt by (auto simp: log(2) logged_def)
      show ?thesis
      proof (cases "ifn E k (item_at E items k)")
        case None
        then show ?thesis
          using st' w Working True it old ph wk dist log grow others
          by (intro upd [where ph' = "Working bi buf (Suc k) (int p)" and rd' = rd'])
            (auto simp: worker_step_def)
      next
        case (Some e)
        then have "workers st' = (workers st)[w := (Failing e, rd')]"
          using st' w Working True it by (simp add: worker_step_def)
        then have "\<not> no_failure st'" using lt by (rule Failing_fails)
        then show ?thesis
          using Some st' w Working True it old ph wk dist log others klt
          by (intro upd [where ph' = "Failing e" and rd' = rd'])
            (auto simp: worker_step_def genuine_def)
      qed
    next
      case False
      then have "batch_set E bi \<subseteq> logged st" using wk(3-5) by (auto simp: ixs_def)
      then show ?thesis
        using False st' w Working pre old ph rd
        by (intro upd [where ph' = Idle and rd' = rd]) (auto simp: worker_step_def logged_def)
    qed
  next
    case (Failing e)
    then show ?thesis
      using st' w pre old ph
      by (intro upd [where ph' = Cancelling and rd' = rd])
        (auto simp: worker_step_def logged_def no_failure_def split: option.splits)
  next
    case Cancelling
    then show ?thesis
      using st' w pre old ph
      by (intro upd [where ph' = Finished and rd' = "putDecoder rd"])
        (auto simp: worker_step_def logged_def)
  qed (use pre ph in auto)
qed

section \<open>Runs\<close>

definition items_reachable ::
  "items_env \<Rightarrow> pf_error option set \<Rightarrow> items_state \<Rightarrow> items_state \<Rightarrow> bool" where
  "items_reachable E polls st st' \<longleftrightarrow> (items_step E polls)\<^sup>*\<^sup>* st st'"

lemma items_reachable_inv:
  assumes "items_setup E items blocks" "items_reachable E polls st st'" "items_inv E items blocks polls st"
  shows "items_inv E items blocks polls st'"
  using assms(2,3) unfolding items_reachable_def
  by (induction rule: rtranclp_induct) (auto intro: items_step_inv [OF assms(1)])

lemma items_step_workers: "items_step E polls st st' \<Longrightarrow> length (workers st') = length (workers st)"
  by (erule items_step.cases) (auto simp: worker_step_def split: prod.splits phase.splits option.splits)

lemma items_reachable_workers:
  "items_reachable E polls st st' \<Longrightarrow> length (workers st') = length (workers st)"
  unfolding items_reachable_def
  by (induction rule: rtranclp_induct) (auto dest: items_step_workers)

text \<open>No worker panics, and a run ends only when all workers have returned.\<close>

lemma items_inv_phase:
  "items_inv E items blocks polls st \<Longrightarrow> w < length (workers st) \<Longrightarrow>
    phase_ok E items blocks polls st (snd (workers st ! w)) (fst (workers st ! w))"
  by (simp add: items_inv_def)

lemma crashed_iff: "(case ph of Crashed e \<Rightarrow> True | _ \<Rightarrow> False) \<longleftrightarrow> (\<exists>e. ph = Crashed e)"
  by (cases ph) auto

lemma items_inv_not_crashed: "items_inv E items blocks polls st \<Longrightarrow> \<not> items_crashed st"
proof
  assume inv: "items_inv E items blocks polls st" and "items_crashed st"
  then obtain v e where v: "v < length (workers st)" "fst (workers st ! v) = Crashed e"
    by (auto simp: items_crashed_def crashed_iff in_set_conv_nth)
  from items_inv_phase [OF inv v(1)] show False by (simp add: v(2))
qed

lemma items_progress:
  assumes "items_inv E items blocks polls st" "polls \<noteq> {}" "\<not> items_done st"
  shows "\<exists>st'. items_step E polls st st'"
proof -
  obtain w where "w < length (workers st)" "fst (workers st ! w) \<noteq> Finished"
    using assms(3) by (auto simp: items_done_def in_set_conv_nth)
  moreover obtain c where "c \<in> polls" using assms(2) by blast
  ultimately show ?thesis
    using items_step.step [of st w c polls E] items_inv_not_crashed [OF assms(1)] by blast
qed

lemma items_run_bounded: "(items_step E polls ^^ n) st st' \<Longrightarrow> n + items_measure E st' \<le> items_measure E st"
proof (induction n arbitrary: st')
  case (Suc n)
  then obtain st1 where "(items_step E polls ^^ n) st st1" "items_step E polls st1 st'" by auto
  then show ?case using Suc.IH [of st1] items_step_measure [of E polls st1 st'] by simp
qed simp

lemma items_complete:
  assumes inv: "items_inv E items blocks polls st" and cover: "batches_ok offs k (ipositions E) (ibatches E)"
    and fin: "items_done st" "workers st \<noteq> []" "firstErr st = None"
  shows "set (fnCalls st) = (\<lambda>k. (k, item_at E items k)) ` {..<length (ipositions E)}"
    "\<forall>(k, d) \<in> set (fnCalls st). ifn E k d = None"
proof -
  have finished: "fst (workers st ! v) = Finished" if "v < length (workers st)" for v
    using fin(1) that by (simp add: items_done_def)
  have nf: "no_failure st" using fin by (auto simp: no_failure_def items_done_def)
  then show "\<forall>(k, d) \<in> set (fnCalls st). ifn E k d = None"
    using inv unfolding items_inv_def by blast
  have pos: "0 < length (workers st)" using fin(2) by simp
  then have "phase_ok E items blocks polls st (snd (workers st ! 0)) Finished"
    using items_inv_phase [OF inv pos] by (simp only: finished [OF pos])
  moreover have "\<not> cancelled st" using inv fin(3) unfolding items_inv_def by blast
  ultimately have all: "length (ibatches E) \<le> nextBatch st" by simp
  have "unowned st bi" for bi using finished by (simp add: unowned_def)
  moreover have "\<forall>bi < length (ibatches E). bi < nextBatch st \<longrightarrow> unowned st bi \<longrightarrow> batch_set E bi \<subseteq> logged st"
    using inv nf unfolding items_inv_def by blast
  ultimately have sub: "batch_set E bi \<subseteq> logged st" if "bi < length (ibatches E)" for bi
    using that all by auto
  have "k < length (ipositions E) \<Longrightarrow> k \<in> logged st" for k
    using batches_cover(1) [OF cover] sub by blast
  moreover have old: "\<forall>(k, d) \<in> set (fnCalls st). k < length (ipositions E) \<and> d = item_at E items k"
    using inv unfolding items_inv_def by blast
  ultimately show "set (fnCalls st) = (\<lambda>k. (k, item_at E items k)) ` {..<length (ipositions E)}"
    by (fastforce simp: logged_def)
qed

section \<open>The whole call\<close>

lemma ReadItems_start_ok:
  assumes r: "readable env z r o' items" and conc: "1 \<le> rconcurrency r"
    and ps: "ps \<noteq> []" "sorted_wrt (<) ps" "\<forall>p \<in> set ps. 0 \<le> p \<and> p < int (length items)"
  shows "\<exists>E st blocks. ReadItems_start env z r None ps fn = Inr (E, st) \<and> items_setup E items blocks \<and>
    items_inv E items blocks polls st \<and> workers st \<noteq> [] \<and> ipositions E = ps \<and> ifn E = fn"
proof -
  obtain blocks where st: "stored_blocks z o' items blocks" using r by (auto simp: readable_def)
  have k: "0 < oitemsPerRecord o'" "ototalItems o' = length items" and res: "rresult r = Inr o'"
    and z: "zstd_contract z"
    using st r by (auto simp: stored_blocks_def readable_def)
  have recs: "Suc (pos div oitemsPerRecord o') < length (ooffsets o')" if "pos < ototalItems o'" for pos
  proof -
    have "pos div oitemsPerRecord o' * oitemsPerRecord o' < length items"
      using div_times_less_eq_dividend [of pos "oitemsPerRecord o'"] that k(2) by linarith
    then show ?thesis
      using chunks_index [OF k(1), of "pos div oitemsPerRecord o'" items] stored_length_blocks [OF st] st
      by (simp add: stored_blocks_def)
  qed
  have chk: "check_positions (int (ototalItems o')) prev ps = None"
    if "sorted_wrt (<) ((case prev of None \<Rightarrow> [] | Some p \<Rightarrow> [p]) @ ps)" for prev
    using that ps(3) k(2) by (induction ps arbitrary: prev) (auto split: option.splits)
  obtain bs where bs: "partition_positions o' (rconcurrency r) ps = Inr bs"
    "batches_ok (ooffsets o') (oitemsPerRecord o') ps bs"
    using partition_positions_ok [OF ps(1) _ recs] ps(3) k(2) by auto
  have "length (concat (map ixs bs)) = length ps" using bs(2) by (simp add: batches_ok_def)
  then have "bs \<noteq> []" using ps(1) by auto
  obtain rd where rd: "reader_getDecoder z None o' = Inr rd" "configured o' rd"
    using reader_getDecoder_configured [OF z pool_ok_None] by blast
  let ?E = "\<lparr>ienv = env, izstd = z, ireader = r, iopen = o', ipositions = ps, ibatches = bs, ifn = fn\<rparr>"
  let ?st = "\<lparr>nextBatch = 0, cancelled = False, firstErr = None,
    workers = replicate (min (length bs) (nat (rconcurrency r))) (Idle, rd), fnCalls = []\<rparr>"
  have "ReadItems_start env z r None ps fn = Inr (?E, ?st)"
    using ps chk [of None] res bs(1) rd(1) by (simp add: ReadItems_start_def start_workers_def)
  moreover have "items_setup ?E items blocks"
    using r st bs(2) ps(3) by (simp add: items_setup_def)
  moreover have "items_inv ?E items blocks polls ?st"
    using rd(2) by (auto simp: items_inv_def logged_def)
  moreover have "workers ?st \<noteq> []" using \<open>bs \<noteq> []\<close> conc by simp
  ultimately show ?thesis by (metis items_env.select_convs(5,7))
qed

lemma items_run_ends:
  assumes "items_setup E items blocks" "polls \<noteq> {}" "items_inv E items blocks polls st"
  shows "\<exists>st'. items_reachable E polls st st' \<and> items_done st'"
  using assms(3)
proof (induction "items_measure E st" arbitrary: st rule: less_induct)
  case less
  show ?case
  proof (cases "items_done st")
    case False
    from items_progress [OF less.prems assms(2)] False obtain st1 where st1: "items_step E polls st st1" by blast
    from less.hyps [OF items_step_measure [OF st1] items_step_inv [OF assms(1) less.prems st1]]
    obtain st' where "items_reachable E polls st1 st'" "items_done st'" by blast
    then show ?thesis
      using st1 unfolding items_reachable_def by (blast intro: converse_rtranclp_into_rtranclp)
  qed (auto simp: items_reachable_def)
qed

end
