(* ===== verification/Round_Trip.thy ===== *)
theory Round_Trip
  imports Read_Back
begin

text \<open>
  From the writer to the reader: the file a session leaves is one that opens, and
  whose reader returns the appended items.
\<close>

lemma encodeIndex_length:
  assumes "offset_table offs" "encodeIndex offs = Inr buf"
  shows "length buf \<le> 517 * group_count (length offs - 1) + 4"
proof (rule encodeIndex_groups [OF assms(1)])
  fix es
  assume es: "encodeIndex offs = Inr (concat es @ PutUint32 (CRC32C (concat es)))"
    "length es = group_count (length offs - 1)"
    "\<And>k. k < length es \<Longrightarrow> EncodeGroup (group_of (deltas_of offs) k) = Inr (es ! k)"
  have "length e \<le> 517" if "e \<in> set es" for e
  proof -
    from that obtain k where k: "k < length es" "e = es ! k" by (auto simp: in_set_conv_nth)
    have "length (group_of (deltas_of offs) k) \<le> 128"
      by (simp add: length_group_of groupSize_def)
    then show ?thesis using length_EncodeGroup(3) [OF es(3) [OF k(1)]] k(2) by simp
  qed
  then have "length (concat es) \<le> 517 * length es"
  proof (induction es)
    case (Cons e es)
    then have "length e \<le> 517" "length (concat es) \<le> 517 * length es" by simp_all
    then show ?case by simp
  qed simp
  then show ?thesis using es(1,2) assms(2) by simp
qed

lemma image_readable:
  assumes env: "read_ok env" "zstd_contract z"
    and disk: "fs path = Some (file_image fmt hashed k items blocks index appData)"
    and ok: "image_ok z fmt k items blocks index appData" "\<forall>c \<in> set (chunks k items). decodable fmt c"
  shows "readable env z (Open env fs path conc) (image_result fmt hashed k items blocks index appData) items"
proof -
  let ?o = "image_result fmt hashed k items blocks index appData"
  have enc: "encodeIndex (block_offsets blocks) = Inr index" "length (concat blocks) < 2 ^ 63"
    using ok(1) by (simp_all add: image_ok_def)
  have "stored_blocks z ?o items blocks"
    using ok offset_table_encoded [OF enc]
    by (simp add: stored_blocks_def image_result_def image_ok_def image_Trailer_def file_image_def Let_def)
  then show ?thesis
    using env doOpen_image [where fs = fs and path = path, OF env(1) disk ok(1)]
    by (auto simp: readable_def Open_def recover_open_def Let_def)
qed

text \<open>The sizes for which no 32-bit field of the file wraps, and every record reads back.\<close>

definition session_sized :: "WriterOptions \<Rightarrow> bytes list list \<Rightarrow> bool" where
  "session_sized opts calls \<longleftrightarrow> items_per_record opts < 2 ^ 32 \<and> length calls \<le> 10 ^ 9"

definition records_filled :: "WriterOptions \<Rightarrow> bytes list list \<Rightarrow> bool" where
  "records_filled opts calls \<longleftrightarrow>
    (\<forall>c \<in> set (chunks (items_per_record opts) (map concat calls)). concat c \<noteq> [])"

definition session_fits :: "WriterOptions \<Rightarrow> bytes list list \<Rightarrow> bool" where
  "session_fits opts calls \<longleftrightarrow>
    session_sized opts calls \<and> (optFormat opts = Uncompressed \<longrightarrow> records_filled opts calls)"

lemmas session_fits_simps = session_fits_def session_sized_def records_filled_def

definition session_result ::
  "WriterOptions \<Rightarrow> bytes list list \<Rightarrow> bytes \<Rightarrow> bytes list \<Rightarrow> bytes \<Rightarrow> openResult" where
  "session_result opts calls appData blocks index =
    image_result (optFormat opts) (optContentHash opts) (items_per_record opts) (map concat calls)
      blocks index appData"

lemma in_chunks: "c \<in> set (chunks k xs) \<Longrightarrow> set c \<subseteq> set xs"
proof (induction k xs rule: chunks.induct)
  case (1 k xs)
  then show ?case
    by (subst (asm) (2) chunks.simps) (auto split: if_splits dest: in_set_takeD in_set_dropD)
qed

lemma length_concat_chunk:
  assumes "0 < k" "c \<in> set (chunks k items)"
  shows "length (concat c) \<le> length (concat items)"
proof -
  obtain as bs where "chunks k items = as @ c # bs" using split_list [OF assms(2)] by blast
  then have "items = concat as @ c @ concat bs" using concat_chunks [OF assms(1), of items] by simp
  then show ?thesis by simp
qed

text \<open>What a successful session leaves on disk is a file image within the trailer's fields.\<close>

lemma session_image:
  assumes ok: "session_ok env z fs path opts calls appData" and fits: "session_sized opts calls"
    and run: "write_file env z fs path opts calls appData = (None, fs')"
    and small: "length (os_contents fs' path) < 2 ^ 63"
  obtains blocks index where
    "fs' path = Some (file_image (optFormat opts) (optContentHash opts) (items_per_record opts) (map concat calls)
      blocks index appData)"
    "image_ok z (optFormat opts) (items_per_record opts) (map concat calls) blocks index appData"
proof -
  let ?items = "map concat calls" let ?k = "items_per_record opts"
  obtain blocks where blocks: "image_blocks z (optFormat opts) ?k ?items blocks"
    and good: "\<And>index. encodeIndex (block_offsets blocks) = Inr index \<Longrightarrow>
      (\<exists>fs'. write_file env z fs path opts calls appData = (None, fs') \<and>
        fs' path = Some (file_image (optFormat opts) (optContentHash opts) ?k ?items blocks index appData))"
    and bad: "\<And>e. encodeIndex (block_offsets blocks) = Inl e \<Longrightarrow>
      (\<exists>fs'. write_file env z fs path opts calls appData = (Some e, fs'))"
    using write_file_image [OF ok] by blast
  obtain index where index: "encodeIndex (block_offsets blocks) = Inr index"
    using bad run by (cases "encodeIndex (block_offsets blocks)") auto
  have disk: "fs' path = Some (file_image (optFormat opts) (optContentHash opts) ?k ?items blocks index appData)"
    using good [OF index] run by auto
  have "length (concat blocks) \<le> length (file_image (optFormat opts) (optContentHash opts) ?k ?items blocks index appData)"
    by (simp add: file_image_def Let_def)
  moreover have "length (os_contents fs' path) = length (file_image (optFormat opts) (optContentHash opts) ?k ?items blocks index appData)"
    by (simp add: os_contents_def disk)
  ultimately have len: "length (concat blocks) < 2 ^ 63" using small by linarith
  have s: "known_format (optFormat opts)" "0 < ?k" "length appData < 2 ^ 32"
    using ok by (auto simp: session_ok_def items_per_record_def)
  have f: "?k < 2 ^ 32" "length calls \<le> 10 ^ 9" using fits by (simp_all add: session_sized_def)
  have "length (chunks ?k ?items) \<le> 10 ^ 9" using length_chunks_le [OF s(2), of ?items] f(2) by simp
  then have lb: "length blocks \<le> 10 ^ 9" using image_blocks_length [OF blocks] by simp
  have "length index \<le> 517 * group_count (length blocks) + 4"
    using encodeIndex_length [OF offset_table_encoded [OF index len] index] by simp
  also have "group_count (length blocks) \<le> 7812500"
    using lb by (simp add: group_count_def groupSize_def)
  finally have il: "length index < 2 ^ 32" by simp
  have "image_ok z (optFormat opts) ?k ?items blocks index appData"
    using s f blocks len index il by (simp add: image_ok_def)
  with disk that show thesis by blast
qed

lemma session_opens:
  assumes "session_ok env z fs path opts calls appData" "session_sized opts calls" "read_ok env"
    and "write_file env z fs path opts calls appData = (None, fs')" "length (os_contents fs' path) < 2 ^ 63"
  shows "\<exists>blocks index. rresult (Open env fs' path conc) = Inr (session_result opts calls appData blocks index)"
proof -
  obtain blocks index where "fs' path = Some (file_image (optFormat opts) (optContentHash opts) (items_per_record opts)
      (map concat calls) blocks index appData)"
    "image_ok z (optFormat opts) (items_per_record opts) (map concat calls) blocks index appData"
    using session_image [OF assms(1,2,4,5)] by blast
  from doOpen_image [where fs = fs' and path = path, OF assms(3) this] show ?thesis
    by (auto simp: Open_def recover_open_def Let_def session_result_def)
qed

lemma session_readable:
  assumes ok: "session_ok env z fs path opts calls appData" and fits: "session_fits opts calls"
    and env: "read_ok env"
    and run: "write_file env z fs path opts calls appData = (None, fs')"
    and small: "length (os_contents fs' path) < 2 ^ 63"
  shows "\<exists>blocks index. readable env z (Open env fs' path conc) (session_result opts calls appData blocks index) (map concat calls)"
proof -
  let ?items = "map concat calls" let ?k = "items_per_record opts"
  have "session_sized opts calls" using fits by (simp add: session_fits_def)
  from session_image [OF ok this run small] obtain blocks index where
    img: "fs' path = Some (file_image (optFormat opts) (optContentHash opts) ?k ?items blocks index appData)"
    "image_ok z (optFormat opts) ?k ?items blocks index appData" by blast
  have s: "known_format (optFormat opts)" "0 < ?k" "zstd_contract z"
    "length (concat ?items) < 2 ^ 46" "\<forall>item \<in> set ?items. length item < 2 ^ 32"
    using ok by (auto simp: session_ok_def items_per_record_def)
  have "\<forall>c \<in> set (chunks ?k ?items). decodable (optFormat opts) c"
  proof
    fix c assume c: "c \<in> set (chunks ?k ?items)"
    have "length (concat c) < 2 ^ 46" using length_concat_chunk [OF s(2) c] s(4) by linarith
    moreover have "\<forall>item \<in> set c. length item < 2 ^ 32" using in_chunks [OF c] s(5) by blast
    ultimately show "decodable (optFormat opts) c"
      using s(1) c fits by (simp add: decodable_def session_fits_simps)
  qed
  from image_readable [where fs = fs' and path = path, OF env s(3) img this] show ?thesis
    unfolding session_result_def by blast
qed

section \<open>A session that succeeds\<close>

text \<open>The records of a list of items are determined, so two sessions write the same blocks.\<close>

lemma image_blocks_unique:
  assumes "image_blocks z fmt k items bs" "image_blocks z fmt k items bs'"
  shows "bs = bs'"
  using assms
  by (auto simp: image_blocks_def list_all2_conv_all_nth intro!: nth_equalityI)

lemma write_file_ok:
  assumes ok: "session_ok env z fs path opts calls appData" and n: "length calls \<le> 10 ^ 9"
    and blocks: "image_blocks z (optFormat opts) (items_per_record opts) (map concat calls) blocks"
    and small: "\<forall>b \<in> set blocks. length b < 2 ^ 32" "length (concat blocks) < 2 ^ 62"
  shows "\<exists>fs' contents. write_file env z fs path opts calls appData = (None, fs') \<and>
    fs' path = Some contents \<and> length contents < 2 ^ 63"
proof -
  let ?items = "map concat calls" let ?k = "items_per_record opts"
  have k: "0 < ?k" "length appData < 2 ^ 32"
    using ok by (auto simp: session_ok_def items_per_record_def)
  have "length (chunks ?k ?items) \<le> 10 ^ 9" using length_chunks_le [OF k(1), of ?items] n by simp
  then have lb: "length blocks \<le> 10 ^ 9" using image_blocks_length [OF blocks] by simp
  have tab: "offset_table (block_offsets blocks)"
    using lb small by (intro offset_table_blocks) (simp_all del: length_concat)
  obtain es where "encodeIndex (block_offsets blocks) = Inr (concat es @ PutUint32 (CRC32C (concat es)))"
    by (rule encodeIndex_groups [OF tab])
  then obtain index where index: "encodeIndex (block_offsets blocks) = Inr index" by blast
  have "length index \<le> 517 * group_count (length blocks) + 4"
    using encodeIndex_length [OF tab index] by simp
  also have "group_count (length blocks) \<le> 7812500"
    using lb by (simp add: group_count_def groupSize_def)
  finally have il: "length index < 2 ^ 32" by simp
  obtain blocks' where b': "image_blocks z (optFormat opts) ?k ?items blocks'"
    "encodeIndex (block_offsets blocks') = Inr index \<Longrightarrow>
      (\<exists>fs'. write_file env z fs path opts calls appData = (None, fs') \<and>
        fs' path = Some (file_image (optFormat opts) (optContentHash opts) ?k ?items blocks' index appData))"
    using write_file_image [OF ok] by blast
  have "blocks' = blocks" by (rule image_blocks_unique [OF b'(1) blocks])
  then obtain fs' where "write_file env z fs path opts calls appData = (None, fs')"
    "fs' path = Some (file_image (optFormat opts) (optContentHash opts) ?k ?items blocks index appData)"
    using b'(2) index by blast
  moreover have "length (file_image (optFormat opts) (optContentHash opts) ?k ?items blocks index appData) < 2 ^ 63"
    using small(2) il k(2) by (simp add: file_image_def Let_def del: length_concat)
  ultimately show ?thesis by blast
qed

end
