(* ===== verification/Event_Store.thy ===== *)
theory Event_Store
  imports Store_Interface Read_Items_Correct Round_Trip
begin

text \<open>
  eventstore/writer.go and eventstore/reader.go: the event store on top of a packfile,
  one event per item. \<open>ReadPositions\<close> runs the parallel \<open>ReadItems\<close>, whose workers
  store copies in a results slice, and then yields the slice in order.
\<close>

section \<open>Writer\<close>

record StoreOptions =
  esItemsPerRecord :: int
  esConcurrency :: int
  esFormat :: RecordFormat
  esContentHash :: bool

definition packfileOpts :: "StoreOptions \<Rightarrow> WriterOptions" where
  "packfileOpts opts = \<lparr>optItemsPerRecord = esItemsPerRecord opts, optFormat = esFormat opts,
    optConcurrency = esConcurrency opts, optContentHash = esContentHash opts,
    optBytesPerSync = 2 ^ 20, optOverwrite = False\<rparr>"

record StoreWriter =
  pw :: Writer

definition Store_Create :: "os_env \<Rightarrow> fs \<Rightarrow> string \<Rightarrow> StoreOptions \<Rightarrow> pf_error + fs \<times> StoreWriter" where
  "Store_Create env fs path opts =
    (case Create env fs path (packfileOpts opts) of
       Inl e \<Rightarrow> Inl e
     | Inr (fs, w) \<Rightarrow> Inr (fs, \<lparr>pw = w\<rparr>))"

definition AppendEvent ::
  "os_env \<Rightarrow> libzstd \<Rightarrow> fs \<Rightarrow> StoreWriter \<Rightarrow> bytes \<Rightarrow> pf_error option \<times> fs \<times> StoreWriter" where
  "AppendEvent env z fs w event =
    (case AppendItem env z fs (pw w) [event] of (err, fs, p) \<Rightarrow> (err, fs, w\<lparr>pw := p\<rparr>))"

definition Store_Finish ::
  "os_env \<Rightarrow> libzstd \<Rightarrow> fs \<Rightarrow> StoreWriter \<Rightarrow> pf_error option \<times> fs \<times> StoreWriter" where
  "Store_Finish env z fs w =
    (case Finish env z fs (pw w) [] of (err, fs, p) \<Rightarrow> (err, fs, w\<lparr>pw := p\<rparr>))"

definition Store_Close ::
  "os_env \<Rightarrow> libzstd \<Rightarrow> fs \<Rightarrow> StoreWriter \<Rightarrow> pf_error list \<times> fs \<times> StoreWriter" where
  "Store_Close env z fs w =
    (case Close env z fs (pw w) of (errs, fs, p) \<Rightarrow> (errs, fs, w\<lparr>pw := p\<rparr>))"

section \<open>Reader\<close>

record StoreReader =
  pr :: Reader

text \<open>Options are applied in order; a concurrency of 0 leaves the packfile's default.\<close>

definition Store_Open :: "os_env \<Rightarrow> fs \<Rightarrow> string \<Rightarrow> int list \<Rightarrow> StoreReader" where
  "Store_Open env fs path withConcurrency =
    (let concurrency = foldl (\<lambda>cfg n. n) 0 withConcurrency
     in \<lparr>pr = Open env fs path (if concurrency \<noteq> 0 then Some concurrency else None)\<rparr>)"

definition EventCount :: "StoreReader \<Rightarrow> pf_error + nat" where
  "EventCount r = Reader_TotalItems (pr r)"

definition ReadEvent ::
  "os_env \<Rightarrow> libzstd \<Rightarrow> decoder option \<Rightarrow> StoreReader \<Rightarrow> int \<Rightarrow> (pf_error + bytes) \<times> decoder option" where
  "ReadEvent env z pool r position =
    (case ReadItem env z pool (pr r) position (\<lambda>data result. (None, data)) [] of
       (Some e, pool, result) \<Rightarrow> (Inl e, pool)
     | (None, pool, result) \<Rightarrow> (Inr result, pool))"

definition ReadEvents ::
  "os_env \<Rightarrow> libzstd \<Rightarrow> decoder option \<Rightarrow> StoreReader \<Rightarrow> int \<Rightarrow> int \<Rightarrow> 's yield \<Rightarrow> 's
    \<Rightarrow> pf_error option \<times> decoder option \<times> 's" where
  "ReadEvents env z pool r start cnt yield s = ReadRange env z pool (pr r) start cnt yield s"

text \<open>The results slice after the calls of \<open>fn\<close>, and the loop that yields it.\<close>

definition fill_results :: "nat \<Rightarrow> (nat \<times> bytes) list \<Rightarrow> bytes option list" where
  "fill_results n called = foldl (\<lambda>results (idx, data). results[idx := Some data]) (replicate n None) called"

fun yield_results :: "'s yield \<Rightarrow> bytes option list \<Rightarrow> 's \<Rightarrow> 's" where
  "yield_results yield [] s = s"
| "yield_results yield (item # rest) s =
    (case yield (Inr (nilable item)) s of (True, s) \<Rightarrow> yield_results yield rest s | (False, s) \<Rightarrow> s)"

text \<open>
  How a call of \<open>ReadPositions\<close> that returns changes the consumer's state: \<open>ctxErr\<close> and
  \<open>polls\<close> are what the context reports before and during the reads.
\<close>

inductive ReadPositions ::
  "os_env \<Rightarrow> libzstd \<Rightarrow> StoreReader \<Rightarrow> pf_error option \<Rightarrow> pf_error option set \<Rightarrow> int list \<Rightarrow> 's yield
    \<Rightarrow> 's \<Rightarrow> 's \<Rightarrow> bool" where
  nothing: "ReadPositions env z r ctxErr polls [] yield s s"
| early: "positions \<noteq> [] \<Longrightarrow>
    ReadItems_start env z (pr r) ctxErr positions (\<lambda>idx data. None) = Inl (Some e) \<Longrightarrow> \<not> is_panic e \<Longrightarrow>
    ReadPositions env z r ctxErr polls positions yield s (snd (yield (Inl e) s))"
| failed: "positions \<noteq> [] \<Longrightarrow>
    ReadItems_start env z (pr r) ctxErr positions (\<lambda>idx data. None) = Inr (E, st0) \<Longrightarrow>
    items_reachable E polls st0 st \<Longrightarrow> items_done st \<Longrightarrow> firstErr st = Some e \<Longrightarrow>
    ReadPositions env z r ctxErr polls positions yield s (snd (yield (Inl e) s))"
| read: "positions \<noteq> [] \<Longrightarrow>
    ReadItems_start env z (pr r) ctxErr positions (\<lambda>idx data. None) = Inr (E, st0) \<Longrightarrow>
    items_reachable E polls st0 st \<Longrightarrow> items_done st \<Longrightarrow> firstErr st = None \<Longrightarrow>
    ReadPositions env z r ctxErr polls positions yield s
      (yield_results yield (fill_results (length positions) (fnCalls st)) s)"

inductive_cases ReadPositionsE: "ReadPositions env z r ctxErr polls positions yield s s'"

definition Store_ContentHash :: "StoreReader \<Rightarrow> pf_error + bytes \<times> bool" where
  "Store_ContentHash r = Reader_ContentHash (pr r)"

definition Store_Verify ::
  "os_env \<Rightarrow> libzstd \<Rightarrow> decoder option \<Rightarrow> StoreReader \<Rightarrow> (nat \<Rightarrow> pf_error option)
    \<Rightarrow> pf_error option \<times> decoder option" where
  "Store_Verify env z pool r ctx = Verify env z pool (pr r) ctx"

definition StoreReader_Close :: "os_env \<Rightarrow> StoreReader \<Rightarrow> pf_error option \<times> StoreReader" where
  "StoreReader_Close env r = (case Reader_Close env (pr r) of (err, p) \<Rightarrow> (err, r\<lparr>pr := p\<rparr>))"

section \<open>Sessions\<close>

fun append_events ::
  "os_env \<Rightarrow> libzstd \<Rightarrow> fs \<Rightarrow> StoreWriter \<Rightarrow> bytes list \<Rightarrow> pf_error option \<times> fs \<times> StoreWriter" where
  "append_events env z fs w [] = (None, fs, w)"
| "append_events env z fs w (event # rest) =
    (case AppendEvent env z fs w event of
       (Some e, fs, w) \<Rightarrow> (Some e, fs, w)
     | (None, fs, w) \<Rightarrow> append_events env z fs w rest)"

definition write_store ::
  "os_env \<Rightarrow> libzstd \<Rightarrow> fs \<Rightarrow> string \<Rightarrow> StoreOptions \<Rightarrow> bytes list \<Rightarrow> pf_error option \<times> fs" where
  "write_store env z fs path opts events =
    (case Store_Create env fs path opts of
       Inl e \<Rightarrow> (Some e, fs)
     | Inr (fs, w) \<Rightarrow>
         (case append_events env z fs w events of
            (Some e, fs, w) \<Rightarrow> (Some e, fs)
          | (None, fs, w) \<Rightarrow> (case Store_Finish env z fs w of (err, fs, w) \<Rightarrow> (err, fs))))"

abbreviation single_parts :: "bytes list \<Rightarrow> bytes list list" where
  "single_parts events \<equiv> map (\<lambda>e. [e]) events"

lemma append_events_all:
  "append_events env z fs w events =
    (case append_all env z fs (pw w) (single_parts events) of (err, fs, p) \<Rightarrow> (err, fs, w\<lparr>pw := p\<rparr>))"
proof (induction events arbitrary: fs w)
  case (Cons event events)
  then show ?case by (simp add: AppendEvent_def split: prod.split option.split)
qed simp

text \<open>A session of the store is a session of the packfile writer.\<close>

lemma write_store_file:
  "write_store env z fs path opts events = write_file env z fs path (packfileOpts opts) (single_parts events) []"
  by (auto simp: write_store_def write_file_def Store_Create_def Store_Finish_def append_events_all
      split: sum.split prod.split option.split)

section \<open>The store keeps its contract\<close>

definition store_holds :: "os_env \<Rightarrow> libzstd \<Rightarrow> decoder option \<times> StoreReader \<Rightarrow> bytes list \<Rightarrow> bool" where
  "store_holds env z = (\<lambda>(pool, r) events. pool_ok pool \<and> 1 \<le> rconcurrency (pr r) \<and>
    (\<exists>o'. readable env z (pr r) o' events))"

lemma fill_results_length [simp]: "length (fill_results n called) = n"
proof -
  have "length (foldl (\<lambda>results (idx, data). results[idx := Some data]) rs called) = length rs"
    for rs :: "bytes option list"
    by (induction called arbitrary: rs) (auto split: prod.split)
  then show ?thesis by (simp add: fill_results_def)
qed

lemma fill_results_nth:
  assumes "distinct (map fst called)" "(k, d) \<in> set called" "k < n"
  shows "fill_results n called ! k = Some d"
proof -
  have "foldl (\<lambda>results (idx, data). results[idx := Some data]) rs called ! k = Some d"
    if "distinct (map fst called)" "k < length rs" "(k, d) \<in> set called \<or> (k \<notin> fst ` set called \<and> rs ! k = Some d)"
    for rs :: "bytes option list"
    using that
    by (induction called arbitrary: rs) (force simp: nth_list_update split: prod.split)+
  from this [of "replicate n None"] assms show ?thesis by (simp add: fill_results_def)
qed

lemma yield_results_feed: "yield_results yield (map Some items) s = snd (feed yield items s)"
  by (induction items arbitrary: s) (auto split: prod.split bool.split)

lemma readable_total: "readable env z r o' items \<Longrightarrow> rresult r = Inr o' \<and> ototalItems o' = length items"
  by (auto simp: readable_def stored_blocks_def)

lemma EventCount_holds: "store_holds env z (pool, r) xs \<Longrightarrow> EventCount r = Inr (length xs)"
  by (auto simp: store_holds_def EventCount_def Reader_TotalItems_def dest!: readable_total)

lemma ReadEvent_holds:
  assumes "store_holds env z (pool, r) xs" "0 \<le> i" "i < int (length xs)"
  shows "fst (ReadEvent env z pool r i) = Inr (xs ! nat i)"
proof -
  from assms(1) obtain o' where o': "pool_ok pool" "readable env z (pr r) o' xs" by (auto simp: store_holds_def)
  have "nat i < length xs" "int (nat i) = i" using assms(2,3) by simp_all
  with ReadItem_stored [OF o'(2,1), of "nat i" "\<lambda>data result. (None, data)" "[]"] show ?thesis
    by (auto simp: ReadEvent_def)
qed

lemma ReadEvent_outside:
  assumes "store_holds env z (pool, r) xs" "i < 0 \<or> int (length xs) \<le> i"
  shows "ReadEvent env z pool r i = (Inl ErrPositionOutOfRange, pool)"
  using assms by (auto simp: store_holds_def ReadEvent_def ReadItem_def dest!: readable_total)

lemma ReadEvents_holds:
  assumes "store_holds env z (pool, r) xs" "start + n \<le> length xs"
  shows "\<exists>pool'. ReadEvents env z pool r (int start) (int n) yield s =
    (None, pool', snd (feed yield (slice xs start (start + n)) s)) \<and> pool_ok pool'"
  using assms ReadRange_stored [of env z "pr r" _ xs pool start n yield s]
  by (auto simp: store_holds_def ReadEvents_def)

lemma ReadPositions_holds:
  assumes holds: "store_holds env z (pool, r) xs" and ps: "sorted_wrt (<) ps" "\<forall>p \<in> set ps. 0 \<le> p \<and> p < int (length xs)"
    and run: "ReadPositions env z r None {None} ps yield s s'"
  shows "s' = snd (feed yield (map (\<lambda>p. xs ! nat p) ps) s)"
proof (cases "ps = []")
  case True
  with run show ?thesis by (auto elim: ReadPositionsE)
next
  case False
  from holds obtain o' where o': "readable env z (pr r) o' xs" "1 \<le> rconcurrency (pr r)"
    by (auto simp: store_holds_def)
  obtain E st0 blocks where E: "ReadItems_start env z (pr r) None ps (\<lambda>idx data. None) = Inr (E, st0)"
    "items_setup E xs blocks" "items_inv E xs blocks {None} st0" "workers st0 \<noteq> []"
    "ipositions E = ps" "ifn E = (\<lambda>idx data. None)"
    using ReadItems_start_ok [OF o' False ps] by blast
  from run False E(1) consider st e where "items_reachable E {None} st0 st" "items_done st" "firstErr st = Some e"
    | st where "items_reachable E {None} st0 st" "items_done st" "firstErr st = None"
      "s' = yield_results yield (fill_results (length ps) (fnCalls st)) s"
    by (auto elim!: ReadPositionsE)
  then show ?thesis
  proof cases
    case 1
    have "items_inv E xs blocks {None} st" by (rule items_reachable_inv [OF E(2) 1(1) E(3)])
    then have "genuine E xs {None} e" using 1(3) unfolding items_inv_def by auto
    then show ?thesis using E(6) by (simp add: genuine_def)
  next
    case 2
    have inv: "items_inv E xs blocks {None} st" by (rule items_reachable_inv [OF E(2) 2(1) E(3)])
    have cover: "batches_ok (ooffsets (iopen E)) (oitemsPerRecord (iopen E)) (ipositions E) (ibatches E)"
      using E(2) by (simp add: items_setup_def)
    have "workers st \<noteq> []" using items_reachable_workers [OF 2(1)] E(4) by auto
    from items_complete(1) [OF inv cover 2(2) this 2(3)]
    have called: "set (fnCalls st) = (\<lambda>k. (k, xs ! nat (ps ! k))) ` {..<length ps}"
      using E(5) by (simp add: item_at_def)
    have dist: "distinct (map fst (fnCalls st))" using inv unfolding items_inv_def by blast
    have "fill_results (length ps) (fnCalls st) = map Some (map (\<lambda>p. xs ! nat p) ps)"
      by (rule nth_equalityI) (use fill_results_nth [OF dist] called in auto)
    then show ?thesis using 2(4) yield_results_feed [of yield "map (\<lambda>p. xs ! nat p) ps" s] by simp
  qed
qed

text \<open>A call of \<open>ReadPositions\<close> can always run to its end.\<close>

lemma ReadPositions_returns:
  assumes holds: "store_holds env z (pool, r) xs" and ps: "sorted_wrt (<) ps" "\<forall>p \<in> set ps. 0 \<le> p \<and> p < int (length xs)"
    and polls: "polls \<noteq> {}"
  shows "\<exists>s'. ReadPositions env z r None polls ps yield s s'"
proof (cases "ps = []")
  case False
  from holds obtain o' where o': "readable env z (pr r) o' xs" "1 \<le> rconcurrency (pr r)"
    by (auto simp: store_holds_def)
  obtain E st0 blocks where E: "ReadItems_start env z (pr r) None ps (\<lambda>idx data. None) = Inr (E, st0)"
    "items_setup E xs blocks" "items_inv E xs blocks polls st0"
    using ReadItems_start_ok [OF o' False ps] by blast
  obtain st where "items_reachable E polls st0 st" "items_done st" using items_run_ends [OF E(2) polls E(3)] by blast
  then show ?thesis
    using E(1) False by (cases "firstErr st") (blast intro: ReadPositions.intros)+
qed (auto intro: ReadPositions.intros)

interpretation pf_reader: event_reader "store_holds env z" "\<lambda>(pool, r). EventCount r"
  "\<lambda>(pool, r) i. fst (ReadEvent env z pool r i)"
  "\<lambda>(pool, r) start n yield s. case ReadEvents env z pool r start n yield s of (err, _, s) \<Rightarrow> (err, s)"
  "\<lambda>(pool, r) ps yield s s'. ReadPositions env z r None {None} ps yield s s'"
  ErrPositionOutOfRange
  for env z
proof (unfold_locales, goal_cases)
  case (1 r xs) then show ?case by (cases r) (simp add: EventCount_holds)
next
  case (2 r xs i) then show ?case by (cases r) (simp add: ReadEvent_holds)
next
  case (3 r xs i) then show ?case by (cases r) (simp add: ReadEvent_outside)
next
  case (4 r xs start n yield s)
  obtain pool r' where r: "r = (pool, r')" by (cases r)
  from ReadEvents_holds [of env z pool r' xs start n yield s] 4 show ?case by (auto simp: r)
next
  case (5 r xs ps yield s s')
  then show ?case by (cases r) (simp add: ReadPositions_holds)
qed

section \<open>Writing and reopening\<close>

text \<open>What the store accepts: its options and the sizes the packfile format allows.\<close>

definition store_accepts ::
  "os_env \<Rightarrow> libzstd \<Rightarrow> string \<Rightarrow> StoreOptions \<Rightarrow> fs \<Rightarrow> bytes list \<Rightarrow> bool" where
  "store_accepts env z path opts fs events \<longleftrightarrow> read_ok env \<and>
    session_ok env z fs path (packfileOpts opts) (single_parts events) [] \<and>
    session_fits (packfileOpts opts) (single_parts events) \<and>
    (\<forall>fs'. write_store env z fs path opts events = (None, fs') \<longrightarrow> length (os_contents fs' path) < 2 ^ 63)"

lemma Open_concurrency: "1 \<le> rconcurrency (Open env fs path c)"
  by (simp add: Open_def Let_def)

lemma write_store_holds:
  assumes "store_accepts env z path opts fs events" "write_store env z fs path opts events = (None, fs')"
  shows "store_holds env z (None, Store_Open env fs' path conc) events"
proof -
  have "map concat (single_parts events) = events" by (simp add: comp_def)
  moreover have "length (os_contents fs' path) < 2 ^ 63"
    using assms by (simp add: store_accepts_def)
  ultimately show ?thesis
    using assms session_readable [of env z fs path "packfileOpts opts" "single_parts events" "[]" fs'
        "if foldl (\<lambda>cfg n. n) 0 conc \<noteq> 0 then Some (foldl (\<lambda>cfg n. n) 0 conc) else None"]
    by (auto simp: store_accepts_def store_holds_def Store_Open_def Let_def Open_concurrency write_store_file)
qed

interpretation pf_log: event_log "store_holds env z" "\<lambda>(pool, r). EventCount r"
  "\<lambda>(pool, r) i. fst (ReadEvent env z pool r i)"
  "\<lambda>(pool, r) start n yield s. case ReadEvents env z pool r start n yield s of (err, _, s) \<Rightarrow> (err, s)"
  "\<lambda>(pool, r) ps yield s s'. ReadPositions env z r None {None} ps yield s s'"
  ErrPositionOutOfRange
  "store_accepts env z path opts" "\<lambda>fs events. write_store env z fs path opts events"
  "\<lambda>fs. (None, Store_Open env fs path conc)"
  for env z path opts conc
  by unfold_locales (rule write_store_holds)

end
