(* ===== verification/Rocks_Store.thy ===== *)
theory Rocks_Store
  imports Rocksdb Event_Store "HOL-Library.Multiset"
begin

text \<open>
  eventstore/rocksdb: the event store on RocksDB. An event's key is its position, big
  endian in four bytes, so that the key order is the position order; the writer fills
  one SST file that Finish ingests into a new database. Errors are those of the package
  \<open>packfile\<close>'s model: the only one with an identity is \<open>ErrPositionOutOfRange\<close>.
\<close>

section \<open>Writer\<close>

record RocksWriterOptions =
  rwoBlockSize :: int
  rwoCompressionThreads :: int
  rwoNoCompression :: bool

record 'sst RocksWriter =
  rwDbPath :: string
  rwSstPath :: string
  rwSfw :: 'sst
  rwCfg :: SSTWriteConfig
  rwCount :: nat
  rwClosed :: bool

definition Rocks_Create ::
  "('w, 'sst, 'db) grocksdb \<Rightarrow> 'w \<Rightarrow> string \<Rightarrow> RocksWriterOptions \<Rightarrow> (pf_error + 'sst RocksWriter) \<times> 'w" where
  "Rocks_Create R world dbPath opts =
    (let cfg = \<lparr>cfgBlockSize = rwoBlockSize opts, cfgBlockRestartInterval = 0, cfgBlockSizeDeviation = 0,
           cfgCompressionThreads = rwoCompressionThreads opts, cfgNoCompression = rwoNoCompression opts\<rparr>;
         sstOpts = NewSSTWriteOptions R cfg;
         sstPath = Join (Dir dbPath) ''ingest.sst''
     in case SST_Open R sstOpts world sstPath of
          (Inl e, world) \<Rightarrow> (Inl (ErrPlain (''rocksdb eventstore: open sst: '' @ e)), world)
        | (Inr sfw, world) \<Rightarrow>
            (Inr \<lparr>rwDbPath = dbPath, rwSstPath = sstPath, rwSfw = sfw, rwCfg = cfg,
               rwCount = 0, rwClosed = False\<rparr>, world))"

definition Rocks_AppendEvent ::
  "('w, 'sst, 'db) grocksdb \<Rightarrow> 'sst RocksWriter \<Rightarrow> bytes \<Rightarrow> pf_error option \<times> 'sst RocksWriter" where
  "Rocks_AppendEvent R w event =
    (if rwClosed w then (Some (ErrPlain ''rocksdb eventstore: writer is closed''), w)
     else if int (rwCount w) > MaxUint32
     then (Some (ErrPlain ''rocksdb eventstore: event count exceeds uint32 max''), w)
     else
       let key = PutUint32BE (of_nat (rwCount w))
       in case SST_Add R (rwSfw w) key event of
            Inl e \<Rightarrow> (Some (ErrPlain (''rocksdb eventstore: sst add: '' @ e)), w)
          | Inr sfw \<Rightarrow> (None, w\<lparr>rwSfw := sfw, rwCount := rwCount w + 1\<rparr>))"

text \<open>\<open>destroySST\<close> only releases memory.\<close>

definition Rocks_Finish ::
  "('w, 'sst, 'db) grocksdb \<Rightarrow> 'w \<Rightarrow> 'sst RocksWriter \<Rightarrow> pf_error option \<times> 'w \<times> 'sst RocksWriter" where
  "Rocks_Finish R world w =
    (if rwClosed w then (Some (ErrPlain ''rocksdb eventstore: writer is closed''), world, w)
     else
       let w = w\<lparr>rwClosed := True\<rparr>
       in if rwCount w = 0
          then
            let world = Remove R world (rwSstPath w)
            in case CreateEmptyDB R world (rwDbPath w) (rwCfg w) of
                 (err, world) \<Rightarrow> (map_option ErrPlain err, world, w)
          else
            case SST_Finish R (rwSfw w) world of
              (Some e, world) \<Rightarrow> (Some (ErrPlain (''rocksdb eventstore: sst finish: '' @ e)), world, w)
            | (None, world) \<Rightarrow>
                (case IngestSST R world (rwDbPath w) (rwSstPath w) (rwCfg w) of
                   (err, world) \<Rightarrow> (map_option ErrPlain err, world, w)))"

definition Rocks_Close ::
  "('w, 'sst, 'db) grocksdb \<Rightarrow> 'w \<Rightarrow> 'sst RocksWriter \<Rightarrow> pf_error option \<times> 'w \<times> 'sst RocksWriter" where
  "Rocks_Close R world w =
    (if rwClosed w then (None, world, w)
     else (None, Remove R world (rwSstPath w), w\<lparr>rwClosed := True\<rparr>))"

section \<open>Reader\<close>

text \<open>
  The outcome of the background open, which every method waits for. The event count is
  computed once; computing it again gives the same value.
\<close>

record 'db RocksReader =
  rrDbPath :: string
  rrConcurrency :: int
  rrOpened :: "pf_error + 'db"
  rrReleased :: bool

definition Rocks_Open ::
  "('w, 'sst, 'db) grocksdb \<Rightarrow> 'w \<Rightarrow> string \<Rightarrow> int list \<Rightarrow> 'db RocksReader" where
  "Rocks_Open R world dbPath withConcurrency =
    (let concurrency = foldl (\<lambda>c n. n) 8 withConcurrency;
         concurrency = (if concurrency < 1 then 1 else concurrency)
     in \<lparr>rrDbPath = dbPath, rrConcurrency = concurrency,
         rrOpened = (case OpenReadOnly R world dbPath of Inl e \<Rightarrow> Inl (ErrPlain e) | Inr db \<Rightarrow> Inr db),
         rrReleased = False\<rparr>)"

definition Rocks_EventCount :: "('w, 'sst, 'db) grocksdb \<Rightarrow> 'db RocksReader \<Rightarrow> pf_error + nat" where
  "Rocks_EventCount R r =
    (case rrOpened r of
       Inl e \<Rightarrow> Inl e
     | Inr db \<Rightarrow>
         (case SeekToLast R (NewReadOptions R) db of
            None \<Rightarrow> Inr 0
          | Some (key, val) \<Rightarrow>
              if length key \<noteq> 4 then Inl (ErrPlain ''rocksdb eventstore: last key has unexpected size'')
              else Inr (unat (Uint32BE key) + 1)))"

definition Rocks_ReadEvent ::
  "('w, 'sst, 'db) grocksdb \<Rightarrow> 'db RocksReader \<Rightarrow> int \<Rightarrow> pf_error + bytes" where
  "Rocks_ReadEvent R r position =
    (case rrOpened r of
       Inl e \<Rightarrow> Inl e
     | Inr db \<Rightarrow>
         (case Rocks_EventCount R r of
            Inl e \<Rightarrow> Inl e
          | Inr n \<Rightarrow>
              if position < 0 \<or> position \<ge> int n then Inl ErrPositionOutOfRange
              else
                let key = PutUint32BE (of_int position)
                in case GetPinned R (NewReadOptions R) db key of
                     Inl e \<Rightarrow> Inl (ErrPlain (''rocksdb eventstore: get: '' @ e))
                   | Inr None \<Rightarrow> Inl ErrPositionOutOfRange
                   | Inr (Some val) \<Rightarrow> Inr val))"

text \<open>The loop over the iterator: \<open>Inl\<close> when the function returns from within it.\<close>

fun rocks_scan :: "'s yield \<Rightarrow> nat \<Rightarrow> entries \<Rightarrow> 's \<Rightarrow> 's + 's" where
  "rocks_scan yield 0 it s = Inr s"
| "rocks_scan yield (Suc n) [] s = Inl (snd (yield (Inl (ErrPlain ''rocksdb eventstore: iterator exhausted'')) s))"
| "rocks_scan yield (Suc n) ((key, val) # it) s =
    (case yield (Inr val) s of (False, s) \<Rightarrow> Inl s | (True, s) \<Rightarrow> rocks_scan yield n it s)"

definition Rocks_ReadEvents ::
  "('w, 'sst, 'db) grocksdb \<Rightarrow> 'db RocksReader \<Rightarrow> int \<Rightarrow> int \<Rightarrow> 's yield \<Rightarrow> 's \<Rightarrow> pf_error option \<times> 's" where
  "Rocks_ReadEvents R r start cnt yield s =
    (if cnt = 0 then (None, s)
     else case rrOpened r of
       Inl e \<Rightarrow> (None, snd (yield (Inl e) s))
     | Inr db \<Rightarrow>
         (case Rocks_EventCount R r of
            Inl e \<Rightarrow> (None, snd (yield (Inl e) s))
          | Inr n \<Rightarrow>
              if start < 0 \<or> cnt < 0 \<or> start > int n \<or> cnt > int n - start
              then (Some (Panic ''rocksdb eventstore: ReadEvents out of range''), s)
              else
                let key = PutUint32BE (of_int start);
                    ro = NewReadOptions R
                in case rocks_scan yield (nat cnt) (SeekFrom R ro db key) s of
                     Inl s \<Rightarrow> (None, s)
                   | Inr s \<Rightarrow>
                       (case IterErr R ro db of
                          Some e \<Rightarrow> (None, snd (yield (Inl (ErrPlain e)) s))
                        | None \<Rightarrow> (None, s))))"

section \<open>Scattered reads\<close>

text \<open>The slices of the keys given to the workers; none starts at or past the end.\<close>

definition worker_ranges :: "nat \<Rightarrow> nat \<Rightarrow> (nat \<times> nat) list" where
  "worker_ranges len concurrency =
    (let perWorker = (len + concurrency - 1) div concurrency
     in takeWhile (\<lambda>(lo, hi). lo < len)
          (map (\<lambda>w. (w * perWorker, min (w * perWorker + perWorker) len)) [0..<concurrency]))"

text \<open>
  One worker's batch: the first error is kept, and found values are copied into its
  part of \<open>results\<close>. \<open>order\<close> is the order in which the workers' reads return.
\<close>

definition store_values :: "bytes option list \<Rightarrow> nat \<Rightarrow> bytes option list \<Rightarrow> bytes option list" where
  "store_values results lo vals =
    foldl (\<lambda>results (i, val). case val of Some v \<Rightarrow> results[lo + i := Some v] | None \<Rightarrow> results)
      results (enumerate 0 vals)"

definition worker_read ::
  "('w, 'sst, 'db) grocksdb \<Rightarrow> read_options \<Rightarrow> 'db \<Rightarrow> bytes list
    \<Rightarrow> string option \<times> bytes option list \<Rightarrow> nat \<times> nat \<Rightarrow> string option \<times> bytes option list" where
  "worker_read R ro db keys = (\<lambda>(firstErr, results) (lo, hi).
    case BatchedMultiGetCF R ro db (slice keys lo hi) of
      Inl e \<Rightarrow> (case firstErr of None \<Rightarrow> Some e | Some e' \<Rightarrow> Some e', results)
    | Inr vals \<Rightarrow> (firstErr, store_values results lo vals))"

text \<open>The yielding loop: \<open>ctx i\<close> is the context's error when polled at \<open>i\<close>.\<close>

fun rocks_yield :: "(nat \<Rightarrow> pf_error option) \<Rightarrow> 's yield \<Rightarrow> nat \<Rightarrow> bytes option list \<Rightarrow> 's \<Rightarrow> 's" where
  "rocks_yield ctx yield i [] s = s"
| "rocks_yield ctx yield i (data # rest) s =
    (case ctx i of
       Some e \<Rightarrow> snd (yield (Inl e) s)
     | None \<Rightarrow>
         (case yield (case data of None \<Rightarrow> Inl (ErrPlain ''rocksdb eventstore: key not found'') | Some d \<Rightarrow> Inr d) s of
            (False, s) \<Rightarrow> s
          | (True, s) \<Rightarrow> rocks_yield ctx yield (i + 1) rest s))"

definition Rocks_ReadPositions ::
  "('w, 'sst, 'db) grocksdb \<Rightarrow> 'db RocksReader \<Rightarrow> (nat \<Rightarrow> pf_error option) \<Rightarrow> (nat \<times> nat) list \<Rightarrow> int list
    \<Rightarrow> 's yield \<Rightarrow> 's \<Rightarrow> pf_error option \<times> 's" where
  "Rocks_ReadPositions R r ctx order positions yield s =
    (if positions = [] then (None, s)
     else case rrOpened r of
       Inl e \<Rightarrow> (None, snd (yield (Inl e) s))
     | Inr db \<Rightarrow>
         (case Rocks_EventCount R r of
            Inl e \<Rightarrow> (None, snd (yield (Inl e) s))
          | Inr n \<Rightarrow>
              (case check_positions (int n) None positions of
                 Some e \<Rightarrow> (Some e, s)
               | None \<Rightarrow>
                   let keys = map (\<lambda>pos. PutUint32BE (of_int pos)) positions;
                       ro = (NewReadOptions R)\<lparr>asyncIO := True\<rparr>;
                       results = replicate (length keys) None;
                       concurrency = min (rrConcurrency r) (int (length keys));
                       (firstErr, results) =
                         (if concurrency \<le> 1 then worker_read R ro db keys (None, results) (0, length keys)
                          else foldl (worker_read R ro db keys) (None, results) order)
                   in case firstErr of
                        Some e \<Rightarrow> (None, snd (yield (Inl (ErrPlain (''rocksdb eventstore: batched multi get: '' @ e))) s))
                      | None \<Rightarrow> (None, rocks_yield ctx yield 0 results s))))"

text \<open>The possible orders are those of the workers that were started.\<close>

definition possible_order :: "'db RocksReader \<Rightarrow> int list \<Rightarrow> (nat \<times> nat) list \<Rightarrow> bool" where
  "possible_order r positions order \<longleftrightarrow>
    mset order = mset (worker_ranges (length positions) (nat (min (rrConcurrency r) (int (length positions)))))"

text \<open>\<open>Close\<close> releases the handles once and never reports an error.\<close>

definition RocksReader_Close :: "'db RocksReader \<Rightarrow> pf_error option \<times> 'db RocksReader" where
  "RocksReader_Close r = (None, if rrReleased r then r else r\<lparr>rrReleased := True\<rparr>)"

section \<open>Sessions\<close>

fun rocks_append_all ::
  "('w, 'sst, 'db) grocksdb \<Rightarrow> 'sst RocksWriter \<Rightarrow> bytes list \<Rightarrow> pf_error option \<times> 'sst RocksWriter" where
  "rocks_append_all R w [] = (None, w)"
| "rocks_append_all R w (event # rest) =
    (case Rocks_AppendEvent R w event of
       (Some e, w) \<Rightarrow> (Some e, w)
     | (None, w) \<Rightarrow> rocks_append_all R w rest)"

definition write_rocks ::
  "('w, 'sst, 'db) grocksdb \<Rightarrow> string \<Rightarrow> RocksWriterOptions \<Rightarrow> 'w \<Rightarrow> bytes list \<Rightarrow> pf_error option \<times> 'w" where
  "write_rocks R dbPath opts world events =
    (case Rocks_Create R world dbPath opts of
       (Inl e, world) \<Rightarrow> (Some e, world)
     | (Inr w, world) \<Rightarrow>
         (case rocks_append_all R w events of
            (Some e, w) \<Rightarrow> (Some e, world)
          | (None, w) \<Rightarrow> (case Rocks_Finish R world w of (err, world, w) \<Rightarrow> (err, world))))"

section \<open>What the database holds\<close>

text \<open>The entries of a list of events: the abstract content of a RocksDB store.\<close>

definition position_entries :: "bytes list \<Rightarrow> entries" where
  "position_entries xs = map (\<lambda>i. (PutUint32BE (of_nat i), xs ! i)) [0..<length xs]"

lemma length_position_entries [simp]: "length (position_entries xs) = length xs"
  by (simp add: position_entries_def)

lemma nth_position_entries [simp]: "i < length xs \<Longrightarrow> position_entries xs ! i = (PutUint32BE (of_nat i), xs ! i)"
  by (simp add: position_entries_def)

lemma position_entries_snoc: "position_entries (xs @ [x]) = position_entries xs @ [(PutUint32BE (of_nat (length xs)), x)]"
  by (simp add: position_entries_def nth_append)

lemma position_keys_less: "i < j \<Longrightarrow> j < 2 ^ 32 \<Longrightarrow> PutUint32BE (of_nat i) < PutUint32BE (of_nat j)"
  by (intro PutUint32BE_less) (simp add: word_less_nat_alt unat_of_nat take_bit_nat_eq_self)

lemma ascending_position_entries: "length xs \<le> 2 ^ 32 \<Longrightarrow> ascending (position_entries xs)"
  by (simp add: ascending_def position_entries_def sorted_wrt_iff_nth_less position_keys_less)

lemma position_entries_get:
  "length xs \<le> 2 ^ 32 \<Longrightarrow> i < length xs \<Longrightarrow>
    map_of (position_entries xs) (PutUint32BE (of_nat i)) = Some (xs ! i)"
  by (intro ascending_get ascending_position_entries) (auto simp: position_entries_def)

text \<open>Each append adds the next entry; the writer's count is the number of events so far.\<close>

lemma Rocks_AppendEvent_entries:
  assumes "sst_contract R V" "Rocks_AppendEvent R w event = (None, w')"
    "sst_file V (rwSfw w) = (p, position_entries xs)" "rwCount w = length xs"
  shows "sst_file V (rwSfw w') = (p, position_entries (xs @ [event]))" "rwCount w' = length (xs @ [event])"
    "rwClosed w' = rwClosed w" "rwDbPath w' = rwDbPath w" "rwSstPath w' = rwSstPath w" "length xs < 2 ^ 32"
proof -
  from assms(2) obtain sfw where s: "\<not> rwClosed w" "int (rwCount w) \<le> MaxUint32"
    "SST_Add R (rwSfw w) (PutUint32BE (of_nat (rwCount w))) event = Inr sfw"
    "w' = w\<lparr>rwSfw := sfw, rwCount := rwCount w + 1\<rparr>"
    by (auto simp: Rocks_AppendEvent_def Let_def split: if_splits sum.splits)
  from assms(1,3) s(3) have "sst_file V sfw = (p, position_entries xs @ [(PutUint32BE (of_nat (rwCount w)), event)])"
    unfolding sst_contract_def by blast
  with s assms(4) show "sst_file V (rwSfw w') = (p, position_entries (xs @ [event]))"
    "rwCount w' = length (xs @ [event])" "rwClosed w' = rwClosed w" "rwDbPath w' = rwDbPath w"
    "rwSstPath w' = rwSstPath w" "length xs < 2 ^ 32"
    by (simp_all add: position_entries_snoc MaxUint32_def)
qed

lemma rocks_append_all_entries:
  assumes "sst_contract R V" "rocks_append_all R w events = (None, w')"
    "sst_file V (rwSfw w) = (p, position_entries xs)" "rwCount w = length xs" "length xs \<le> 2 ^ 32"
  shows "sst_file V (rwSfw w') = (p, position_entries (xs @ events)) \<and> rwCount w' = length (xs @ events) \<and>
    rwClosed w' = rwClosed w \<and> rwDbPath w' = rwDbPath w \<and> rwSstPath w' = rwSstPath w \<and>
    length (xs @ events) \<le> 2 ^ 32"
  using assms(2-)
proof (induction events arbitrary: w xs)
  case (Cons event events)
  from Cons.prems(1) obtain w1 where w1: "Rocks_AppendEvent R w event = (None, w1)"
    "rocks_append_all R w1 events = (None, w')"
    by (auto split: prod.splits option.splits)
  note a = Rocks_AppendEvent_entries [OF assms(1) w1(1) Cons.prems(2,3)]
  from Cons.IH [OF w1(2) a(1,2)] a show ?case by simp
qed simp

lemma write_rocks_entries:
  assumes c: "sst_contract R V" "db_contract R V" and fresh: "db_on_disk V world dbPath = None"
    and run: "write_rocks R dbPath opts world events = (None, world')"
  shows "db_on_disk V world' dbPath = Some (position_entries events)" "length events \<le> 2 ^ 32"
proof -
  from run obtain w world1 w' w'' where s: "Rocks_Create R world dbPath opts = (Inr w, world1)"
    "rocks_append_all R w events = (None, w')" "Rocks_Finish R world1 w' = (None, world', w'')"
    by (auto simp: write_rocks_def split: prod.splits sum.splits option.splits)
  from s(1) have cr: "rwCount w = 0" "\<not> rwClosed w" "rwDbPath w = dbPath"
    "sst_file V (rwSfw w) = (rwSstPath w, [])" "db_on_disk V world1 = db_on_disk V world"
    using c(1) by (auto simp: Rocks_Create_def Let_def sst_contract_def split: prod.splits sum.splits)
  from rocks_append_all_entries [OF c(1) s(2), of "rwSstPath w" "[]"] cr
  have w': "sst_file V (rwSfw w') = (rwSstPath w', position_entries events)" "rwCount w' = length events"
    "\<not> rwClosed w'" "rwDbPath w' = dbPath" "length events \<le> 2 ^ 32"
    by (simp_all add: position_entries_def)
  show "length events \<le> 2 ^ 32" by (rule w')
  show "db_on_disk V world' dbPath = Some (position_entries events)"
  proof (cases "events = []")
    case True
    with s(3) w' have "CreateEmptyDB R (Remove R world1 (rwSstPath w')) dbPath (rwCfg w') = (None, world')"
      by (auto simp: Rocks_Finish_def split: prod.splits option.splits)
    from CreateEmptyDB_fresh [OF c(2) this] show ?thesis
      using db_contractD(3) [OF c(2)] cr(5) fresh True by (simp add: position_entries_def)
  next
    case False
    with s(3) w' obtain world2 where f: "SST_Finish R (rwSfw w') world1 = (None, world2)"
      "IngestSST R world2 dbPath (rwSstPath w') (rwCfg w') = (None, world')"
      by (auto simp: Rocks_Finish_def Let_def split: prod.splits option.splits)
    from f(1) w'(1) c(1) have "sst_on_disk V world2 (rwSstPath w') = Some (position_entries events)"
      "db_on_disk V world2 = db_on_disk V world1"
      unfolding sst_contract_def by blast+
    with IngestSST_fresh [OF c(2) f(2)] cr(5) fresh show ?thesis by simp
  qed
qed

section \<open>The store keeps its contract\<close>

definition rocks_holds ::
  "('w, 'sst, 'db) grocksdb \<Rightarrow> ('w, 'sst, 'db) rocks_view \<Rightarrow> 'db RocksReader \<Rightarrow> bytes list \<Rightarrow> bool" where
  "rocks_holds R V r xs \<longleftrightarrow> read_contract R V \<and> 1 \<le> rrConcurrency r \<and> length xs \<le> 2 ^ 32 \<and>
    (\<exists>db. rrOpened r = Inr db \<and> db_entries V db = position_entries xs)"

lemma Uint32BE_count: "i < 2 ^ 32 \<Longrightarrow> unat (Uint32BE (PutUint32BE (of_nat i))) = i"
  by (simp add: unat_of_nat take_bit_nat_eq_self)

lemma Rocks_EventCount_holds:
  assumes "rocks_holds R V r xs"
  shows "Rocks_EventCount R r = Inr (length xs)"
proof (cases "xs = []")
  case False
  then have "last (position_entries xs) = (PutUint32BE (of_nat (length xs - 1)), last xs)"
    by (simp add: last_conv_nth position_entries_def)
  moreover have "position_entries xs \<noteq> []" using False by (simp add: position_entries_def)
  moreover have "unat (Uint32BE (PutUint32BE (of_nat (length xs - 1)))) = length xs - 1"
    using assms by (intro Uint32BE_count) (auto simp: rocks_holds_def)
  ultimately show ?thesis
    using assms False by (auto simp: rocks_holds_def read_contract_def Rocks_EventCount_def codec_len)
qed (use assms in \<open>auto simp: rocks_holds_def read_contract_def Rocks_EventCount_def position_entries_def\<close>)

lemma Rocks_ReadEvent_holds:
  assumes "rocks_holds R V r xs" "0 \<le> i" "i < int (length xs)"
  shows "Rocks_ReadEvent R r i = Inr (xs ! nat i)"
  using assms position_entries_get [of xs "nat i"] Rocks_EventCount_holds [OF assms(1)]
  by (auto simp: Rocks_ReadEvent_def rocks_holds_def read_contract_def Let_def)

lemma Rocks_ReadEvent_outside:
  "rocks_holds R V r xs \<Longrightarrow> i < 0 \<or> int (length xs) \<le> i \<Longrightarrow> Rocks_ReadEvent R r i = Inl ErrPositionOutOfRange"
  by (auto simp: Rocks_ReadEvent_def Rocks_EventCount_holds rocks_holds_def)

lemma rocks_scan_feed:
  "n \<le> length it \<Longrightarrow> rocks_scan yield n it s =
    (case feed yield (map snd (take n it)) s of (True, s) \<Rightarrow> Inr s | (False, s) \<Rightarrow> Inl s)"
  by (induction yield n it s rule: rocks_scan.induct) (auto split: prod.splits bool.splits)

lemma Rocks_ReadEvents_holds:
  assumes "rocks_holds R V r xs" "start + n \<le> length xs"
  shows "Rocks_ReadEvents R r (int start) (int n) yield s = (None, snd (feed yield (slice xs start (start + n)) s))"
proof (cases "n = 0")
  case False
  from assms(1) obtain db where db: "rrOpened r = Inr db" "db_entries V db = position_entries xs"
    "read_contract R V" "length xs \<le> 2 ^ 32"
    by (auto simp: rocks_holds_def)
  have "start < length xs" using assms(2) False by simp
  then have seek: "SeekFrom R ro db (PutUint32BE (of_nat start)) = drop start (position_entries xs)" for ro
    using ascending_seek [OF ascending_position_entries [OF db(4)], of start] db(2,3)
    by (simp add: read_contract_def)
  have "map snd (position_entries xs) = xs" by (simp add: position_entries_def comp_def map_nth)
  then have "map snd (take n (drop start (position_entries xs))) = slice xs start (start + n)"
    by (simp add: slice_def flip: take_map drop_map)
  then have "rocks_scan yield n (drop start (position_entries xs)) s =
      (case feed yield (slice xs start (start + n)) s of (True, s) \<Rightarrow> Inr s | (False, s) \<Rightarrow> Inl s)"
    using rocks_scan_feed [of n "drop start (position_entries xs)" yield s] assms(2) by simp
  then show ?thesis
    using assms False db(1,3) seek
    by (cases "feed yield (slice xs start (start + n)) s")
      (auto simp: Rocks_ReadEvents_def Rocks_EventCount_holds Let_def read_contract_def split: bool.splits)
qed (simp add: Rocks_ReadEvents_def slice_def)

subsection \<open>Scattered reads\<close>

lemma takeWhile_map_upt:
  assumes "w < c" "\<And>v. v \<le> w \<Longrightarrow> P (f v)"
  shows "f w \<in> set (takeWhile P (map f [0..<c]))"
proof -
  have "[0..<c] = [0..<w] @ [w..<c]" using upt_add_eq_append [of 0 w "c - w"] assms(1) by simp
  then have c: "map f [0..<c] = map f [0..<w] @ f w # map f [Suc w..<c]"
    using assms(1) by (simp add: upt_conv_Cons)
  have "takeWhile P (map f [0..<c]) = map f [0..<w] @ takeWhile P (f w # map f [Suc w..<c])"
    unfolding c by (rule takeWhile_append2) (use assms(2) in auto)
  then show ?thesis using assms(2) by simp
qed

lemma worker_ranges_cover:
  assumes "k < len" "0 < c"
  shows "\<exists>(lo, hi) \<in> set (worker_ranges len c). lo \<le> k \<and> k < hi"
proof -
  define p where "p = (len + c - 1) div c"
  have p: "0 < p" "len \<le> p * c"
    using assms ceil_div_le [of c p len] by (auto simp: p_def div_greater_zero_iff mult.commute)
  let ?f = "\<lambda>w. (w * p, min (w * p + p) len)" let ?w = "k div p"
  have ranges: "worker_ranges len c = takeWhile (\<lambda>(lo, hi). lo < len) (map ?f [0..<c])"
    by (simp only: worker_ranges_def p_def Let_def)
  have "k < c * p" using assms(1) p(2) by (simp add: mult.commute)
  then have "?w < c" using p(1) by (simp add: div_less_iff_less_mult)
  moreover have "v * p < len" if "v \<le> ?w" for v
    using mult_le_mono1 [OF that, of p] div_times_less_eq_dividend [of k p] assms(1) by linarith
  ultimately have "?f ?w \<in> set (takeWhile (\<lambda>(lo, hi). lo < len) (map ?f [0..<c]))"
    by (intro takeWhile_map_upt) auto
  moreover have "?w * p \<le> k" "k < ?w * p + p"
    using p(1) dividend_less_div_times [of p k] by (simp_all add: add.commute)
  ultimately show ?thesis
    using assms(1) ranges by (intro bexI [of _ "?f ?w"]) auto
qed

lemma worker_ranges_bounds: "(lo, hi) \<in> set (worker_ranges len c) \<Longrightarrow> lo < len \<and> hi \<le> len"
  by (auto simp: worker_ranges_def Let_def dest!: set_takeWhileD)

lemma store_values_found:
  assumes "lo + length ds \<le> length results"
  shows "length (store_values results lo (map Some ds)) = length results"
    "k < length results \<Longrightarrow> store_values results lo (map Some ds) ! k =
      (if lo \<le> k \<and> k < lo + length ds then Some (ds ! (k - lo)) else results ! k)"
proof -
  have "length (foldl (\<lambda>results (i, val). case val of Some v \<Rightarrow> results[lo + i := Some v] | None \<Rightarrow> results)
      results (enumerate m (map Some ds))) = length results \<and>
    (k < length results \<longrightarrow> foldl (\<lambda>results (i, val). case val of Some v \<Rightarrow> results[lo + i := Some v] | None \<Rightarrow> results)
      results (enumerate m (map Some ds)) ! k =
    (if lo + m \<le> k \<and> k < lo + m + length ds then Some (ds ! (k - (lo + m))) else results ! k))"
    if "lo + m + length ds \<le> length results" for m
    using that
  proof (induction ds arbitrary: m results)
    case (Cons d ds)
    show ?case
      using Cons.IH [of "Suc m" "results[lo + m := Some d]"] Cons.prems
      by (auto simp: nth_list_update nth_Cons')
  qed auto
  from this [of 0] assms show "length (store_values results lo (map Some ds)) = length results"
    "k < length results \<Longrightarrow> store_values results lo (map Some ds) ! k =
      (if lo \<le> k \<and> k < lo + length ds then Some (ds ! (k - lo)) else results ! k)"
    by (simp_all add: store_values_def)
qed

text \<open>Reading the keys of stored positions fills the results with their events, in any order.\<close>

lemma worker_read_found:
  assumes "read_contract R V" "\<And>k. k < length keys \<Longrightarrow> map_of (db_entries V db) (keys ! k) = Some (vs ! k)"
    and "length vs = length keys" "hi \<le> length keys" "length results = length keys"
  shows "\<exists>results'. worker_read R ro db keys (None, results) (lo, hi) = (None, results') \<and> length results' = length keys \<and>
    (\<forall>k < length keys. results' ! k = (if lo \<le> k \<and> k < hi then Some (vs ! k) else results ! k))"
proof -
  have "map (map_of (db_entries V db)) (slice keys lo hi) = map Some (slice vs lo hi)"
    by (rule nth_equalityI) (use assms(2-4) in \<open>auto simp: length_slice slice_def\<close>)
  then have "worker_read R ro db keys (None, results) (lo, hi) = (None, store_values results lo (map Some (slice vs lo hi)))"
    using assms(1) by (simp add: worker_read_def read_contract_def)
  moreover have "length (slice vs lo hi) = hi - lo" "k < hi - lo \<Longrightarrow> slice vs lo hi ! k = vs ! (lo + k)" for k
    using assms(3,4) by (auto simp: length_slice slice_def)
  ultimately show ?thesis
    using store_values_found [of lo "slice vs lo hi" results] assms(4,5)
    by (cases "lo \<le> hi") (auto simp: store_values_def)
qed

lemma workers_read_found:
  assumes "read_contract R V" "\<And>k. k < length keys \<Longrightarrow> map_of (db_entries V db) (keys ! k) = Some (vs ! k)"
    and "length vs = length keys" "\<forall>(lo, hi) \<in> set order. hi \<le> length keys" "length results = length keys"
  shows "\<exists>results'. foldl (worker_read R ro db keys) (None, results) order = (None, results') \<and>
    length results' = length keys \<and>
    (\<forall>k < length keys. results' ! k =
      (if \<exists>(lo, hi) \<in> set order. lo \<le> k \<and> k < hi then Some (vs ! k) else results ! k))"
  using assms(4,5)
proof (induction order arbitrary: results)
  case (Cons range order)
  obtain lo hi where range: "range = (lo, hi)" by (cases range)
  with worker_read_found [OF assms(1,2,3) _ Cons.prems(2), of hi ro lo] Cons.prems(1)
  obtain r1 where r1: "worker_read R ro db keys (None, results) range = (None, r1)" "length r1 = length keys"
    "\<forall>k < length keys. r1 ! k = (if lo \<le> k \<and> k < hi then Some (vs ! k) else results ! k)"
    by auto
  from Cons.IH [OF _ r1(2)] Cons.prems(1) obtain r2 where
    "foldl (worker_read R ro db keys) (None, r1) order = (None, r2)" "length r2 = length keys"
    "\<forall>k < length keys. r2 ! k = (if \<exists>(lo, hi) \<in> set order. lo \<le> k \<and> k < hi then Some (vs ! k) else r1 ! k)"
    by auto
  with r1 range show ?case by auto
qed simp

lemma rocks_yield_feed:
  "rocks_yield (\<lambda>_. None) yield i (map Some ds) s = snd (feed yield ds s)"
  by (induction ds arbitrary: i s) (auto split: prod.splits bool.splits)

lemma check_positions_sorted:
  assumes "sorted_wrt (<) ((case prev of None \<Rightarrow> [] | Some p \<Rightarrow> [p]) @ ps)" "\<forall>p \<in> set ps. 0 \<le> p \<and> p < n"
  shows "check_positions n prev ps = None"
  using assms by (induction ps arbitrary: prev) (auto split: option.splits)

lemma Rocks_ReadPositions_holds:
  assumes holds: "rocks_holds R V r xs"
    and ps: "sorted_wrt (<) ps" "\<forall>p \<in> set ps. 0 \<le> p \<and> p < int (length xs)" and order: "possible_order r ps order"
  shows "Rocks_ReadPositions R r (\<lambda>_. None) order ps yield s =
    (None, snd (feed yield (map (\<lambda>p. xs ! nat p) ps) s))"
proof (cases "ps = []")
  case False
  from holds obtain db where db: "rrOpened r = Inr db" "db_entries V db = position_entries xs"
    "read_contract R V" "length xs \<le> 2 ^ 32" "1 \<le> rrConcurrency r"
    by (auto simp: rocks_holds_def)
  define keys where "keys = map (\<lambda>pos. PutUint32BE (of_int pos)) ps"
  define vs where "vs = map (\<lambda>p. xs ! nat p) ps"
  define c where "c = min (rrConcurrency r) (int (length keys))"
  have len: "length vs = length keys" "length keys = length ps" by (simp_all add: keys_def vs_def)
  have found: "map_of (db_entries V db) (keys ! k) = Some (vs ! k)" if "k < length keys" for k
  proof -
    have "0 \<le> ps ! k" "ps ! k < int (length xs)" using that ps(2) by (simp_all add: keys_def)
    then show ?thesis
      using that position_entries_get [OF db(4), of "nat (ps ! k)"] by (simp add: keys_def vs_def db(2) nat_less_iff)
  qed
  let ?ro = "(NewReadOptions R)\<lparr>asyncIO := True\<rparr>"
  let ?run = "if c \<le> 1 then worker_read R ?ro db keys (None, replicate (length keys) None) (0, length keys)
    else foldl (worker_read R ?ro db keys) (None, replicate (length keys) None) order"
  have "set order = set (worker_ranges (length keys) (nat c))"
    using order len(2) by (simp add: possible_order_def c_def flip: set_mset_mset)
  then have "\<forall>(lo, hi) \<in> set order. hi \<le> length keys"
    and cover: "1 < c \<Longrightarrow> k < length keys \<Longrightarrow> \<exists>(lo, hi) \<in> set order. lo \<le> k \<and> k < hi" for k
    using worker_ranges_bounds worker_ranges_cover [of k "length keys" "nat c"] by auto
  then obtain results where "?run = (None, results)" "length results = length keys"
    "\<forall>k < length keys. results ! k = Some (vs ! k)"
    using workers_read_found [OF db(3) found len(1), of order "replicate (length keys) None" ?ro]
      worker_read_found [OF db(3) found len(1), of "length keys" "replicate (length keys) None" ?ro 0]
    by (cases "c \<le> 1") auto
  moreover from this have "results = map Some vs" using len by (intro nth_equalityI) auto
  ultimately have run: "?run = (None, map Some vs)" by simp
  have chk: "check_positions (int (length xs)) None ps = None"
    using ps by (intro check_positions_sorted) auto
  show ?thesis
    using False db(1) Rocks_EventCount_holds [OF holds] chk run rocks_yield_feed [of yield 0 vs s]
    by (simp add: Rocks_ReadPositions_def Let_def vs_def [symmetric] keys_def [symmetric] c_def [symmetric])
qed (simp add: Rocks_ReadPositions_def)

interpretation rocks_reader: event_reader "rocks_holds R V" "Rocks_EventCount R" "Rocks_ReadEvent R"
  "Rocks_ReadEvents R"
  "\<lambda>r ps yield s s'. \<exists>order. possible_order r ps order \<and> Rocks_ReadPositions R r (\<lambda>_. None) order ps yield s = (None, s')"
  ErrPositionOutOfRange
  for R V
  by unfold_locales
    (auto simp: Rocks_EventCount_holds Rocks_ReadEvent_holds Rocks_ReadEvent_outside Rocks_ReadEvents_holds
      Rocks_ReadPositions_holds)

definition rocks_accepts ::
  "('w, 'sst, 'db) grocksdb \<Rightarrow> ('w, 'sst, 'db) rocks_view \<Rightarrow> string \<Rightarrow> 'w \<Rightarrow> bytes list \<Rightarrow> bool" where
  "rocks_accepts R V dbPath world events \<longleftrightarrow> rocks_contract R V \<and> db_on_disk V world dbPath = None \<and>
    (\<forall>opts world'. db_on_disk V world' dbPath \<noteq> None \<longrightarrow> (\<exists>db. OpenDbForReadOnly R opts world' dbPath = Inr db))"

lemma write_rocks_holds:
  assumes "rocks_accepts R V dbPath world events" "write_rocks R dbPath opts world events = (None, world')"
  shows "rocks_holds R V (Rocks_Open R world' dbPath conc) events"
proof -
  have c: "sst_contract R V" "db_contract R V" "read_contract R V" "db_on_disk V world dbPath = None"
    using assms(1) by (simp_all add: rocks_accepts_def rocks_contract_def)
  note e = write_rocks_entries [OF c(1,2,4) assms(2)]
  then obtain db where db: "OpenDbForReadOnly R (read_only_options R) world' dbPath = Inr db"
    using assms(1) by (fastforce simp: rocks_accepts_def)
  from db_contractD(4) [OF c(2) this] e(1) have "db_entries V db = position_entries events" by simp
  then show ?thesis using c(3) e(2) db by (simp add: rocks_holds_def Rocks_Open_def OpenReadOnly_def Let_def)
qed

interpretation rocks_log: event_log "rocks_holds R V" "Rocks_EventCount R" "Rocks_ReadEvent R"
  "Rocks_ReadEvents R"
  "\<lambda>r ps yield s s'. \<exists>order. possible_order r ps order \<and> Rocks_ReadPositions R r (\<lambda>_. None) order ps yield s = (None, s')"
  ErrPositionOutOfRange
  "rocks_accepts R V dbPath" "write_rocks R dbPath opts" "\<lambda>world. Rocks_Open R world dbPath conc"
  for R V dbPath opts conc
  by unfold_locales (rule write_rocks_holds)

end
