(* ===== verification/Event.thy ===== *)
theory Event
  imports Binary
begin

text \<open>
  event/event.go: the binary encoding of a contract event. \<open>Marshal\<close> appends the
  encoding to a buffer, \<open>Unmarshal\<close> parses it into an existing event, whose fields
  it overwrites as it goes, so a failing call leaves a partly updated event.
  \<open>canonical\<close> is what a round trip keeps of an event.
\<close>

definition HeaderSize :: nat where "HeaderSize = 80"
definition FormatVersion :: byte where "FormatVersion = 2"
definition FlagHasContractID :: byte where "FlagHasContractID = 1"
definition FlagSuccessful :: byte where "FlagSuccessful = 2"

definition TypeSystem :: int where "TypeSystem = 0"
definition TypeContract :: int where "TypeContract = 1"
definition TypeDiagnostic :: int where "TypeDiagnostic = 2"

text \<open>
  \<open>ContractID\<close> is nil (\<open>None\<close>) in an event without a contract, which indexing tells from
  an empty slice. A UTC \<open>time.Time\<close>: Unix seconds and the nanoseconds within the second.\<close>

record Time =
  unixSec :: int
  nanos :: nat

record Event =
  ContractID :: "bytes option"
  Topics :: "bytes list"
  TxHash :: bytes
  EventType :: int
  DataBytes :: bytes
  LedgerClosedAt :: Time
  Successful :: bool
  LedgerSequence :: uint32
  TransactionIndex :: uint32
  OperationIndex :: uint16
  EventIndex :: uint16

datatype event_error =
    ErrTooShort nat
  | ErrUnsupportedVersion byte
  | ErrTruncatedTopicLength nat
  | ErrTruncatedTopicData nat
  | ErrTruncatedDataBytes

section \<open>Marshal\<close>

definition marshal_header :: "Event \<Rightarrow> bytes" where
  "marshal_header ev =
    (let buf = replicate HeaderSize 0;
         buf = buf[0 := FormatVersion];
         buf = buf[1 := word_of_int (EventType ev)];
         flags = 0;
         flags = (if length (nilable (ContractID ev)) \<ge> 32 then flags OR FlagHasContractID else flags);
         flags = (if Successful ev then flags OR FlagSuccessful else flags);
         buf = buf[2 := flags];
         buf = buf[3 := of_nat (length (Topics ev))];
         buf = (if length (nilable (ContractID ev)) \<ge> 32 then put_at buf 4 (take 32 (nilable (ContractID ev))) else buf);
         buf = (if length (TxHash ev) \<ge> 32 then put_at buf 36 (take 32 (TxHash ev)) else buf);
         buf = put_at buf 68 (PutUint64BE (word_of_int (unixSec (LedgerClosedAt ev))));
         buf = put_at buf 76 (PutUint32BE (of_nat (length (DataBytes ev))))
     in buf)"

fun marshal_topics :: "bytes list \<Rightarrow> bytes" where
  "marshal_topics [] = []"
| "marshal_topics (topic # rest) = PutUint16BE (of_nat (length topic)) @ topic @ marshal_topics rest"

definition Marshal :: "bytes \<Rightarrow> Event \<Rightarrow> bytes" where
  "Marshal dst ev = dst @ marshal_header ev @ marshal_topics (Topics ev) @ DataBytes ev"

section \<open>Unmarshal\<close>

text \<open>The topic loop: the topics appended so far, and the offset or the error.\<close>

fun parse_topics ::
  "bytes \<Rightarrow> nat \<Rightarrow> nat \<Rightarrow> nat \<Rightarrow> bytes list \<Rightarrow> (event_error + nat) \<times> bytes list" where
  "parse_topics data i 0 off topics = (Inr off, topics)"
| "parse_topics data i (Suc n) off topics =
    (if off + 2 > length data then (Inl (ErrTruncatedTopicLength i), topics)
     else
       let tLen = unat (Uint16BE (drop off data))
       in if off + 2 + tLen > length data then (Inl (ErrTruncatedTopicData i), topics)
          else parse_topics data (i + 1) n (off + 2 + tLen) (topics @ [slice data (off + 2) (off + 2 + tLen)]))"

definition Unmarshal :: "bytes \<Rightarrow> Event \<Rightarrow> event_error option \<times> Event" where
  "Unmarshal data ev =
    (if length data < HeaderSize then (Some (ErrTooShort (length data)), ev)
     else if data ! 0 \<noteq> FormatVersion then (Some (ErrUnsupportedVersion (data ! 0)), ev)
     else
       let ev = ev\<lparr>EventType := uint (data ! 1)\<rparr>;
           flags = data ! 2;
           topicCount = unat (data ! 3);
           ev = ev\<lparr>ContractID := (if flags AND FlagHasContractID \<noteq> 0 then Some (slice data 4 36) else None)\<rparr>;
           ev = ev\<lparr>TxHash := slice data 36 68\<rparr>;
           ev = ev\<lparr>LedgerClosedAt := \<lparr>unixSec = sint (Uint64BE (drop 68 data)), nanos = 0\<rparr>\<rparr>;
           ev = ev\<lparr>Successful := (flags AND FlagSuccessful \<noteq> 0)\<rparr>;
           dataBytesLen = unat (Uint32BE (drop 76 data))
       in case parse_topics data 0 topicCount HeaderSize [] of
            (Inl e, topics) \<Rightarrow> (Some e, ev\<lparr>Topics := topics\<rparr>)
          | (Inr off, topics) \<Rightarrow>
              let ev = ev\<lparr>Topics := topics\<rparr>
              in if off + dataBytesLen > length data then (Some ErrTruncatedDataBytes, ev)
                 else (None, ev\<lparr>DataBytes := slice data off (off + dataBytesLen),
                        LedgerSequence := 0, TransactionIndex := 0, OperationIndex := 0, EventIndex := 0\<rparr>))"

section \<open>What the encoding keeps\<close>

definition canonical :: "Event \<Rightarrow> Event" where
  "canonical ev = ev\<lparr>
    ContractID := (if length (nilable (ContractID ev)) \<ge> 32 then Some (take 32 (nilable (ContractID ev))) else None),
    TxHash := (if length (TxHash ev) \<ge> 32 then take 32 (TxHash ev) else replicate 32 0),
    EventType := EventType ev mod 256,
    LedgerClosedAt := (LedgerClosedAt ev)\<lparr>nanos := 0\<rparr>,
    LedgerSequence := 0, TransactionIndex := 0, OperationIndex := 0, EventIndex := 0\<rparr>"

definition encodable :: "Event \<Rightarrow> bool" where
  "encodable ev \<longleftrightarrow> length (Topics ev) < 256 \<and> (\<forall>t \<in> set (Topics ev). length t < 65536) \<and>
    length (DataBytes ev) < 2 ^ 32 \<and>
    - (2 ^ 63) \<le> unixSec (LedgerClosedAt ev) \<and> unixSec (LedgerClosedAt ev) < 2 ^ 63"

text \<open>The header as a concatenation.\<close>

lemma header_layout:
  assumes "P \<longrightarrow> length c = 32" "Q \<longrightarrow> length t = 32" "length u = 8" "length v = 4"
  shows "(let buf = [a, b, f, d] @ replicate 76 0;
      buf = (if P then put_at buf 4 c else buf);
      buf = (if Q then put_at buf 36 t else buf);
      buf = put_at buf 68 u
    in put_at buf 76 v)
    = [a, b, f, d] @ (if P then c else replicate 32 0) @ (if Q then t else replicate 32 0) @ u @ (v :: bytes)"
  using assms
  by (cases P; cases Q) (simp_all add: put_at_def Let_def replicate_add [of 32 32, symmetric, simplified])

lemma marshal_header_eq:
  "marshal_header ev = [FormatVersion, word_of_int (EventType ev),
      (if length (nilable (ContractID ev)) \<ge> 32 then FlagHasContractID else 0) OR (if Successful ev then FlagSuccessful else 0),
      of_nat (length (Topics ev))] @
    (if length (nilable (ContractID ev)) \<ge> 32 then take 32 (nilable (ContractID ev)) else replicate 32 0) @
    (if length (TxHash ev) \<ge> 32 then take 32 (TxHash ev) else replicate 32 0) @
    PutUint64BE (word_of_int (unixSec (LedgerClosedAt ev))) @
    PutUint32BE (of_nat (length (DataBytes ev)))"
proof -
  have zero: "(replicate HeaderSize 0)[0 := a, 1 := b, 2 := c, 3 := d] = [a, b, c, d] @ replicate 76 (0 :: byte)" for a b c d
    by (simp add: HeaderSize_def numeral_eq_Suc)
  have flags: "(if Successful ev
      then (if length (nilable (ContractID ev)) \<ge> 32 then 0 OR FlagHasContractID else 0) OR FlagSuccessful
      else (if length (nilable (ContractID ev)) \<ge> 32 then 0 OR FlagHasContractID else 0))
    = (if length (nilable (ContractID ev)) \<ge> 32 then FlagHasContractID else 0) OR (if Successful ev then FlagSuccessful else 0)"
    by simp
  show ?thesis
    unfolding marshal_header_def Let_def zero flags
    by (subst header_layout [unfolded Let_def]) simp_all
qed

lemma length_marshal_header [simp]: "length (marshal_header ev) = HeaderSize"
  by (simp add: marshal_header_eq HeaderSize_def)

section \<open>Round trip\<close>

lemma parse_marshal_topics:
  assumes "\<forall>t \<in> set ts. length t < 65536"
  shows "parse_topics (pre @ marshal_topics ts @ rest) i (length ts) (length pre) acc =
    (Inr (length pre + length (marshal_topics ts)), acc @ ts)"
  using assms
proof (induction ts arbitrary: pre i acc)
  case (Cons t ts)
  have len: "unat (of_nat (length t) :: uint16) = length t"
    using Cons.prems by (simp add: unat_of_nat take_bit_nat_eq_self)
  have "parse_topics ((pre @ PutUint16BE (of_nat (length t)) @ t) @ marshal_topics ts @ rest) (i + 1) (length ts)
      (length (pre @ PutUint16BE (of_nat (length t)) @ t)) (acc @ [t]) =
    (Inr (length (pre @ PutUint16BE (of_nat (length t)) @ t) + length (marshal_topics ts)), (acc @ [t]) @ ts)"
    using Cons.prems by (intro Cons.IH) simp
  moreover have "slice (pre @ PutUint16BE (of_nat (length t)) @ t @ marshal_topics ts @ rest)
      (length pre + 2) (length pre + 2 + length t) = t"
    by (simp add: slice_def)
  ultimately show ?case by (simp add: len add.assoc)
qed simp

lemma flag_bits:
  "((if c then FlagHasContractID else 0) OR (if s then FlagSuccessful else 0)) AND FlagHasContractID \<noteq> 0 \<longleftrightarrow> c"
  "((if c then FlagHasContractID else 0) OR (if s then FlagSuccessful else 0)) AND FlagSuccessful \<noteq> 0 \<longleftrightarrow> s"
  by (cases c; cases s; simp add: FlagHasContractID_def FlagSuccessful_def)+

lemma Marshal_append: "Marshal dst ev = dst @ Marshal [] ev"
  by (simp add: Marshal_def)

lemma Unmarshal_Marshal:
  assumes "encodable ev"
  shows "Unmarshal (Marshal [] ev @ rest) ev0 = (None, canonical ev)"
proof -
  let ?data = "Marshal [] ev @ rest"
  have data: "?data = marshal_header ev @ marshal_topics (Topics ev) @ DataBytes ev @ rest"
    by (simp add: Marshal_def)
  have lens: "unat (of_nat (length (Topics ev)) :: byte) = length (Topics ev)"
    "unat (of_nat (length (DataBytes ev)) :: uint32) = length (DataBytes ev)"
    using assms by (simp_all add: encodable_def unat_of_nat take_bit_nat_eq_self)
  have time: "sint (word_of_int (unixSec (LedgerClosedAt ev)) :: uint64) = unixSec (LedgerClosedAt ev)"
    using assms by (simp add: encodable_def sint_sbintrunc' signed_take_bit_int_eq_self)
  have fields: "?data ! 0 = FormatVersion" "?data ! 1 = word_of_int (EventType ev)"
    "?data ! 2 = (if length (nilable (ContractID ev)) \<ge> 32 then FlagHasContractID else 0) OR (if Successful ev then FlagSuccessful else 0)"
    "?data ! 3 = of_nat (length (Topics ev))"
    "slice ?data 4 36 = (if length (nilable (ContractID ev)) \<ge> 32 then take 32 (nilable (ContractID ev)) else replicate 32 0)"
    "slice ?data 36 68 = (if length (TxHash ev) \<ge> 32 then take 32 (TxHash ev) else replicate 32 0)"
    "Uint64BE (drop 68 ?data) = word_of_int (unixSec (LedgerClosedAt ev))"
    "Uint32BE (drop 76 ?data) = of_nat (length (DataBytes ev))"
    unfolding data marshal_header_eq by (simp_all add: slice_def)
  have topics: "parse_topics ?data 0 (length (Topics ev)) HeaderSize [] =
      (Inr (HeaderSize + length (marshal_topics (Topics ev))), Topics ev)"
    using parse_marshal_topics [of "Topics ev" "marshal_header ev" "DataBytes ev @ rest" 0 "[]"] assms
    by (simp add: data encodable_def)
  have body: "slice ?data (HeaderSize + length (marshal_topics (Topics ev)))
      (HeaderSize + length (marshal_topics (Topics ev)) + length (DataBytes ev)) = DataBytes ev"
    unfolding data by (simp add: slice_def)
  have len: "HeaderSize + length (marshal_topics (Topics ev)) + length (DataBytes ev) \<le> length ?data"
    unfolding data by simp
  show ?thesis
    using len unfolding Unmarshal_def fields
    by (simp add: Let_def lens topics body flag_bits time canonical_def uint_word_of_int)
qed

section \<open>What a successful parse has read\<close>

lemma parse_topics_sound:
  assumes "parse_topics data i n off acc = (Inr off', ts)" "off \<le> length data"
  shows "\<exists>ts'. ts = acc @ ts' \<and> length ts' = n \<and> (\<forall>t \<in> set ts'. length t < 65536) \<and>
    slice data off off' = marshal_topics ts' \<and> off \<le> off' \<and> off' \<le> length data"
  using assms
proof (induction data i n off acc rule: parse_topics.induct)
  case (2 data i n off topics)
  define tLen where "tLen = unat (Uint16BE (drop off data))"
  let ?t = "slice data (off + 2) (off + 2 + tLen)"
  have b: "off + 2 \<le> length data" "off + 2 + tLen \<le> length data"
    "parse_topics data (i + 1) n (off + 2 + tLen) (topics @ [?t]) = (Inr off', ts)"
    using "2.prems"(1) by (auto simp: Let_def tLen_def split: if_splits)
  from "2.IH" [OF _ refl _ b(3) [unfolded tLen_def] b(2) [unfolded tLen_def]] b(1,2)
  obtain ts' where ts': "ts = (topics @ [?t]) @ ts'" "length ts' = n" "\<forall>t \<in> set ts'. length t < 65536"
    "slice data (off + 2 + tLen) off' = marshal_topics ts'" "off + 2 + tLen \<le> off'" "off' \<le> length data"
    by (auto simp: tLen_def)
  have len: "length ?t = tLen" using b(2) by (simp add: length_slice)
  have small: "tLen < 65536"
    using unsigned_less [of "Uint16BE (drop off data)", where 'a = nat] by (simp add: tLen_def)
  have "length (slice data off (off + 2)) = 2" using b(1) by (simp add: length_slice)
  then have hd: "slice data off (off + 2) = PutUint16BE (of_nat tLen)"
    using b(1) PutUint16BE_Uint16BE [of "drop off data"] by (simp add: tLen_def slice_def)
  have "slice data off off' = slice data off (off + 2) @ ?t @ slice data (off + 2 + tLen) off'"
    using ts'(5) slice_join [of off "off + 2" off' data] slice_join [of "off + 2" "off + 2 + tLen" off' data]
    by simp
  then have "slice data off off' = marshal_topics (?t # ts')"
    using hd len ts'(4) by simp
  then show ?case
    using ts' small len by (intro exI [of _ "?t # ts'"]) auto
qed (auto simp: slice_def)

text \<open>
  A buffer that parses starts with a well-formed encoding: re-encoding the event
  gives the bytes back, up to unused bits of the header.
\<close>

lemma Unmarshal_sound:
  assumes "Unmarshal data ev0 = (None, ev)"
  shows "HeaderSize + length (marshal_topics (Topics ev)) + length (DataBytes ev) \<le> length data"
    "slice data HeaderSize (HeaderSize + length (marshal_topics (Topics ev)) + length (DataBytes ev))
      = marshal_topics (Topics ev) @ DataBytes ev"
    "encodable ev" "LedgerSequence ev = 0" "ContractID ev = None \<or> length (nilable (ContractID ev)) = 32"
    "length (TxHash ev) = 32"
proof -
  define n where "n = unat (data ! 3)"
  define l where "l = unat (Uint32BE (drop 76 data))"
  have len: "HeaderSize \<le> length data" and n: "n < 256" and l: "l < 2 ^ 32"
    using assms unsigned_less [of "data ! 3", where 'a = nat]
      unsigned_less [of "Uint32BE (drop 76 data)", where 'a = nat]
    by (auto simp: Unmarshal_def n_def l_def split: if_splits)
  from assms obtain off ts where p: "parse_topics data 0 n HeaderSize [] = (Inr off, ts)"
    and off: "off + l \<le> length data" and ts: "Topics ev = ts" and d: "DataBytes ev = slice data off (off + l)"
    and rest: "LedgerSequence ev = 0"
      "LedgerClosedAt ev = \<lparr>unixSec = sint (Uint64BE (drop 68 data)), nanos = 0\<rparr>"
      "ContractID ev = None \<or> ContractID ev = Some (slice data 4 36)" "TxHash ev = slice data 36 68"
    by (auto simp: Unmarshal_def Let_def n_def l_def split: if_splits prod.splits sum.splits)
  from parse_topics_sound [OF p len] have t: "length ts = n" "\<forall>t \<in> set ts. length t < 65536"
    "slice data HeaderSize off = marshal_topics ts" "HeaderSize \<le> off" "off \<le> length data"
    by auto
  have off_eq: "off = HeaderSize + length (marshal_topics ts)"
    using arg_cong [OF t(3), of length] t(4,5) by (simp add: length_slice)
  have dl: "length (DataBytes ev) = l" using d off by (simp add: length_slice)
  show "HeaderSize + length (marshal_topics (Topics ev)) + length (DataBytes ev) \<le> length data"
    using off off_eq dl ts by simp
  have "slice data HeaderSize (off + l) = slice data HeaderSize off @ slice data off (off + l)"
    using t(4) by (intro slice_join) simp_all
  then show "slice data HeaderSize (HeaderSize + length (marshal_topics (Topics ev)) + length (DataBytes ev))
      = marshal_topics (Topics ev) @ DataBytes ev"
    using t(3) d dl ts off_eq by simp
  show "encodable ev"
    using n l t ts dl rest(2) sint_greater_eq [of "Uint64BE (drop 68 data)"] sint_less [of "Uint64BE (drop 68 data)"]
    by (simp add: encodable_def)
  show "LedgerSequence ev = 0" by (rule rest)
  show "ContractID ev = None \<or> length (nilable (ContractID ev)) = 32"
    using rest(3) len by (auto simp: length_slice HeaderSize_def)
  show "length (TxHash ev) = 32" using rest(4) len by (simp add: length_slice HeaderSize_def)
qed

end
