(* ===== verification/Bitmap_Index.thy ===== *)
theory Bitmap_Index
  imports Event Os
begin

text \<open>
  bitmapindex/field.go and bitmapindex/bitmapindex.go: the indexed fields of an event,
  the keys under which they are indexed, and the interface of an index as locales. The
  libraries streamhash (a minimal perfect hash function, MPHF) and roaring (compressed
  bitmaps of 32-bit integers) are not part of the repository: their calls are the fields
  of two records, and their documented behaviour is stated over what their values stand
  for.
\<close>

section \<open>Fields and keys\<close>

type_synonym Field = byte

definition FieldContractID :: Field where "FieldContractID = 1"
definition FieldTopic0 :: Field where "FieldTopic0 = 2"
definition fieldCount :: Field where "fieldCount = 6"

record FieldKey =
  fkField :: Field
  fkKey :: bytes

text \<open>The bytes of the result do not depend on the buffer that is passed in.\<close>

definition composeKey :: "Field \<Rightarrow> bytes \<Rightarrow> bytes" where
  "composeKey f key = put_at (put_at (replicate (length key + 1) 0) 0 key) (length key) [f]"

lemma composeKey_eq: "composeKey f key = key @ [f]"
proof -
  have "replicate (length key + 1) (0 :: byte) = replicate (length key) 0 @ [0]"
    by (simp add: replicate_append_same)
  then show ?thesis by (simp add: composeKey_def put_at_def)
qed

lemma composeKey_inject [simp]: "composeKey f key = composeKey f' key' \<longleftrightarrow> f = f' \<and> key = key'"
  by (auto simp: composeKey_eq)

text \<open>What both indexes index of an event: the contract and the first four topics.\<close>

definition event_fields :: "Event \<Rightarrow> (Field \<times> bytes) list" where
  "event_fields ev =
    (case ContractID ev of None \<Rightarrow> [] | Some c \<Rightarrow> [(FieldContractID, c)]) @
    map (\<lambda>(i, topic). (FieldTopic0 + of_nat i, topic)) (enumerate 0 (take 4 (Topics ev)))"

text \<open>The ids of the events that have a field with a given value.\<close>

definition ids_with :: "(Event \<times> uint32) list \<Rightarrow> Field \<Rightarrow> bytes \<Rightarrow> uint32 set" where
  "ids_with evs f key = {id. \<exists>ev. (ev, id) \<in> set evs \<and> (f, key) \<in> set (event_fields ev)}"

section \<open>roaring\<close>

record 'bm roaring =
  bitmap_New :: 'bm
  bitmap_Add :: "'bm \<Rightarrow> uint32 \<Rightarrow> 'bm"
  RunOptimize :: "'bm \<Rightarrow> 'bm"
  ToBytes :: "'bm \<Rightarrow> string + bytes"
  UnmarshalBinary :: "bytes \<Rightarrow> string + 'bm"

definition roaring_contract :: "'bm roaring \<Rightarrow> ('bm \<Rightarrow> uint32 set) \<Rightarrow> bool" where
  "roaring_contract B members \<longleftrightarrow>
    members (bitmap_New B) = {} \<and>
    (\<forall>bm x. members (bitmap_Add B bm x) = insert x (members bm)) \<and>
    (\<forall>bm. members (RunOptimize B bm) = members bm) \<and>
    (\<forall>bm data. ToBytes B bm = Inr data \<longrightarrow>
      (\<exists>bm'. UnmarshalBinary B data = Inr bm' \<and> members bm' = members bm))"

text \<open>Bitmaps as lists of their members, four bytes each.\<close>

definition list_roaring :: "uint32 list roaring" where
  "list_roaring = \<lparr>bitmap_New = [], bitmap_Add = (\<lambda>bm x. List.insert x bm), RunOptimize = (\<lambda>bm. bm),
    ToBytes = (\<lambda>bm. Inr (concat (map PutUint32 bm))),
    UnmarshalBinary = (\<lambda>data. if length data mod 4 = 0
      then Inr (map (\<lambda>i. Uint32 (drop (4 * i) data)) [0..<length data div 4]) else Inl ''length'')\<rparr>"

lemma length_concat_PutUint32: "length (concat (map PutUint32 bm)) = 4 * length bm"
  by (induction bm) (simp_all add: codec_len)

lemma Uint32_concat_PutUint32:
  "i < length bm \<Longrightarrow> Uint32 (drop (4 * i) (concat (map PutUint32 bm))) = bm ! i"
proof (induction bm arbitrary: i)
  case (Cons x bm)
  then show ?case by (cases i) (simp_all add: codec_len)
qed simp

lemma list_roaring_contract: "roaring_contract list_roaring set"
proof -
  have "map (\<lambda>i. Uint32 (drop (4 * i) (concat (map PutUint32 bm)))) [0..<length bm] = bm" for bm
    by (rule nth_equalityI) (simp_all add: Uint32_concat_PutUint32)
  then show ?thesis
    by (simp add: roaring_contract_def list_roaring_def length_concat_PutUint32)
qed

section \<open>streamhash\<close>

datatype query_error = NotFound | QueryErr string

text \<open>
  A builder writes the file of its path; the two ways of opening a file are \<open>OpenBytes\<close>,
  on the bytes read from it, and \<open>OpenFile\<close>, which maps the open file. \<open>Mphf_Open\<close> opens a
  path. Closing an index only reports an error.
\<close>

record ('b, 'idx) streamhash =
  PreHash :: "bytes \<Rightarrow> bytes"
  NewBuilder :: "fs \<Rightarrow> string \<Rightarrow> uint64 \<Rightarrow> int \<Rightarrow> (string + 'b) \<times> fs"
  AddKey :: "'b \<Rightarrow> fs \<Rightarrow> bytes \<Rightarrow> uint64 \<Rightarrow> (string + 'b) \<times> fs"
  Builder_Finish :: "'b \<Rightarrow> fs \<Rightarrow> string option \<times> fs"
  Builder_Close :: "'b \<Rightarrow> fs \<Rightarrow> string option \<times> fs"
  Mphf_Open :: "fs \<Rightarrow> string \<Rightarrow> string + 'idx"
  OpenBytes :: "bytes \<Rightarrow> string + 'idx"
  OpenFile :: "bytes \<Rightarrow> string + 'idx"
  Query :: "'idx \<Rightarrow> bytes \<Rightarrow> query_error + uint64"
  Mphf_Close :: "'idx \<Rightarrow> string option"

text \<open>
  What the values stand for: the path, the announced number of keys and the keys added
  so far of a builder, and the query function a file holds.
\<close>

record ('b, 'idx) mphf_view =
  builder_of :: "'b \<Rightarrow> string \<times> nat \<times> bytes list"
  query_of :: "bytes \<Rightarrow> (bytes \<Rightarrow> query_error + uint64) option"

text \<open>
  A query function is perfect on some keys: it numbers them from 0 without gaps, and
  answers any other key with NotFound or one of these numbers.
\<close>

definition perfect_on :: "bytes list \<Rightarrow> (bytes \<Rightarrow> query_error + uint64) \<Rightarrow> bool" where
  "perfect_on ks q \<longleftrightarrow>
    (\<forall>k \<in> set ks. \<exists>rank. q k = Inr rank) \<and> inj_on q (set ks) \<and>
    (\<forall>k rank. q k = Inr rank \<longrightarrow> unat rank < length ks) \<and>
    (\<forall>k e. q k = Inl e \<longrightarrow> e = NotFound)"

text \<open>The documented behaviour, for keys of 16 bytes.\<close>

definition streamhash_contract :: "('b, 'idx) streamhash \<Rightarrow> ('b, 'idx) mphf_view \<Rightarrow> bool" where
  "streamhash_contract S V \<longleftrightarrow>
    (\<forall>k. length (PreHash S k) = 16) \<and>
    (\<forall>fs p n threads b fs'. NewBuilder S fs p n threads = (Inr b, fs') \<longrightarrow>
      builder_of V b = (p, unat n, []) \<and> other_files p fs fs') \<and>
    (\<forall>b p n ks fs k v b' fs'. builder_of V b = (p, n, ks) \<longrightarrow> AddKey S b fs k v = (Inr b', fs') \<longrightarrow>
      builder_of V b' = (p, n, ks @ [k]) \<and> other_files p fs fs') \<and>
    (\<forall>b p n ks fs fs'. builder_of V b = (p, n, ks) \<longrightarrow> Builder_Finish S b fs = (None, fs') \<longrightarrow>
      length ks = n \<longrightarrow> distinct ks \<longrightarrow> (\<forall>k \<in> set ks. length k = 16) \<longrightarrow>
      other_files p fs fs' \<and> (\<exists>data q. fs' p = Some data \<and> query_of V data = Some q \<and> perfect_on ks q)) \<and>
    (\<forall>fs p data q idx. fs p = Some data \<longrightarrow> query_of V data = Some q \<longrightarrow> Mphf_Open S fs p = Inr idx \<longrightarrow>
      Query S idx = q) \<and>
    (\<forall>data q. query_of V data = Some q \<longrightarrow> (\<exists>idx. OpenBytes S data = Inr idx \<and> Query S idx = q)) \<and>
    (\<forall>data q. query_of V data = Some q \<longrightarrow> (\<exists>idx. OpenFile S data = Inr idx \<and> Query S idx = q))"

lemma PreHash_length: "streamhash_contract S V \<Longrightarrow> length (PreHash S k) = 16"
  by (simp add: streamhash_contract_def)

lemma NewBuilder_builds:
  assumes "streamhash_contract S V" "NewBuilder S fs p n threads = (Inr b, fs')"
  shows "builder_of V b = (p, unat n, [])" "other_files p fs fs'"
  using assms unfolding streamhash_contract_def by meson+

lemma AddKey_adds:
  assumes "streamhash_contract S V" "builder_of V b = (p, m, ks)" "AddKey S b fs k v = (Inr b', fs')"
  shows "builder_of V b' = (p, m, ks @ [k])" "other_files p fs fs'"
  using assms unfolding streamhash_contract_def by meson+

lemma Builder_Finish_writes:
  assumes "streamhash_contract S V" "builder_of V b = (p, length ks, ks)" "Builder_Finish S b fs = (None, fs')"
    "distinct ks" "\<forall>k \<in> set ks. length k = 16"
  shows "other_files p fs fs' \<and> (\<exists>data q. fs' p = Some data \<and> query_of V data = Some q \<and> perfect_on ks q)"
proof -
  from assms(1) have "\<forall>b p n ks fs fs'. builder_of V b = (p, n, ks) \<longrightarrow> Builder_Finish S b fs = (None, fs') \<longrightarrow>
      length ks = n \<longrightarrow> distinct ks \<longrightarrow> (\<forall>k \<in> set ks. length k = 16) \<longrightarrow>
      other_files p fs fs' \<and> (\<exists>data q. fs' p = Some data \<and> query_of V data = Some q \<and> perfect_on ks q)"
    unfolding streamhash_contract_def by (elim conjE) assumption
  with assms(2-) show ?thesis by blast
qed

lemma Mphf_opens:
  assumes "streamhash_contract S V" "query_of V data = Some q"
  shows "fs p = Some data \<Longrightarrow> Mphf_Open S fs p = Inr idx \<Longrightarrow> Query S idx = q"
    "\<exists>idx. OpenBytes S data = Inr idx \<and> Query S idx = q" "\<exists>idx. OpenFile S data = Inr idx \<and> Query S idx = q"
  using assms unfolding streamhash_contract_def by meson+

text \<open>An MPHF that stores its keys.\<close>

definition list_query :: "bytes list \<Rightarrow> bytes \<Rightarrow> query_error + uint64" where
  "list_query ks k =
    (case map_of (zip ks [0..<length ks]) k of None \<Rightarrow> Inl NotFound | Some i \<Rightarrow> Inr (of_nat i))"

definition list_keys :: "bytes \<Rightarrow> bytes list" where
  "list_keys data = map (\<lambda>i. slice data (16 * i) (16 * i + 16)) [0..<length data div 16]"

definition list_streamhash :: "(string \<times> nat \<times> bytes list, bytes list) streamhash" where
  "list_streamhash = \<lparr>PreHash = (\<lambda>k. take 16 (k @ replicate 16 0)),
    NewBuilder = (\<lambda>fs p n threads. (Inr (p, unat n, []), fs(p \<mapsto> []))),
    AddKey = (\<lambda>(p, n, ks) fs k v. (if length k = 16 then Inr (p, n, ks @ [k]) else Inl ''key too short'', fs)),
    Builder_Finish = (\<lambda>(p, n, ks) fs. if length ks = n \<and> distinct ks \<and> n < 2 ^ 64
      then (None, fs(p \<mapsto> concat ks)) else (Some ''keys'', fs)),
    Builder_Close = (\<lambda>(p, n, ks) fs. (None, fs(p := None))),
    Mphf_Open = (\<lambda>fs p. case fs p of None \<Rightarrow> Inl ''no such file'' | Some data \<Rightarrow> Inr (list_keys data)),
    OpenBytes = (\<lambda>data. Inr (list_keys data)), OpenFile = (\<lambda>data. Inr (list_keys data)),
    Query = list_query, Mphf_Close = (\<lambda>idx. None)\<rparr>"

definition list_mphf_view :: "(string \<times> nat \<times> bytes list, bytes list) mphf_view" where
  "list_mphf_view = \<lparr>builder_of = (\<lambda>b. b), query_of = (\<lambda>data. Some (list_query (list_keys data)))\<rparr>"

lemma list_keys_concat:
  assumes "\<forall>k \<in> set ks. length k = 16"
  shows "list_keys (concat ks) = ks"
proof -
  have len: "length (concat ks) = 16 * length ks"
    using assms by (induction ks) auto
  have "slice (concat ks) (16 * i) (16 * i + 16) = ks ! i" if "i < length ks" for i
    using assms that
  proof (induction ks arbitrary: i)
    case (Cons k ks)
    then show ?case by (cases i) (simp_all add: slice_def)
  qed simp
  then show ?thesis by (auto simp: list_keys_def len intro!: nth_equalityI)
qed

lemma list_query_nth: "distinct ks \<Longrightarrow> i < length ks \<Longrightarrow> list_query ks (ks ! i) = Inr (of_nat i)"
  by (simp add: list_query_def map_of_zip_nth)

lemma list_query_Inr: "list_query ks k = Inr rank \<Longrightarrow> \<exists>i < length ks. ks ! i = k \<and> rank = of_nat i"
  by (fastforce simp: list_query_def in_set_zip split: option.splits dest!: map_of_SomeD)

lemma perfect_list_query:
  assumes "distinct ks" "length ks < 2 ^ 64"
  shows "perfect_on ks (list_query ks)"
proof -
  have "unat (of_nat i :: uint64) = i" if "i < length ks" for i
    using that assms(2) by (simp add: unat_of_nat take_bit_nat_eq_self)
  then have u: "(of_nat i :: uint64) = of_nat j \<Longrightarrow> i < length ks \<Longrightarrow> j < length ks \<Longrightarrow> i = j"
    "i < length ks \<Longrightarrow> unat (of_nat i :: uint64) < length ks" for i j
    by metis+
  have "inj_on (list_query ks) (set ks)"
    by (rule inj_onI) (use u(1) list_query_nth [OF assms(1)] in \<open>fastforce simp: in_set_conv_nth\<close>)
  moreover have "\<exists>rank. list_query ks k = Inr rank" if "k \<in> set ks" for k
    using list_query_nth [OF assms(1)] that by (metis in_set_conv_nth)
  moreover have "unat rank < length ks" if "list_query ks k = Inr rank" for k rank
    using list_query_Inr [OF that] u(2) by auto
  moreover have "e = NotFound" if "list_query ks k = Inl e" for k e
    using that by (auto simp: list_query_def split: option.splits)
  ultimately show ?thesis by (auto simp: perfect_on_def)
qed

lemma list_streamhash_contract: "streamhash_contract list_streamhash list_mphf_view"
  unfolding streamhash_contract_def
proof (intro conjI)
  show "\<forall>b p n ks fs fs'. builder_of list_mphf_view b = (p, n, ks) \<longrightarrow>
      Builder_Finish list_streamhash b fs = (None, fs') \<longrightarrow>
      length ks = n \<longrightarrow> distinct ks \<longrightarrow> (\<forall>k \<in> set ks. length k = 16) \<longrightarrow>
      other_files p fs fs' \<and> (\<exists>data q. fs' p = Some data \<and> query_of list_mphf_view data = Some q \<and> perfect_on ks q)"
    using perfect_list_query list_keys_concat
    by (auto simp: list_streamhash_def list_mphf_view_def other_files_def split: if_splits)
qed (auto simp: list_streamhash_def list_mphf_view_def other_files_def split: if_splits option.splits)

section \<open>The interface\<close>

text \<open>The answer for a key with these ids: none for a key without ids.\<close>

abbreviation found_ids :: "uint32 set \<Rightarrow> uint32 set option" where
  "found_ids ids \<equiv> if ids = {} then None else Some ids"

text \<open>
  \<open>holds r ix\<close>: the reader \<open>r\<close> is open on an index in which \<open>ix\<close> gives the ids of a field
  and key. A key that is not in the index may be taken for another one.
\<close>

locale bitmap_index =
  fixes holds :: "'r \<Rightarrow> (Field \<Rightarrow> bytes \<Rightarrow> uint32 set) \<Rightarrow> bool"
    and lookup :: "'r \<Rightarrow> Field \<Rightarrow> bytes \<Rightarrow> 'e + 'bm option"
    and lookup_keys :: "'r \<Rightarrow> FieldKey list \<Rightarrow> 'e + 'bm option list \<Rightarrow> bool"
    and members :: "'bm \<Rightarrow> uint32 set"
    and not_found :: 'e
  assumes lookup_indexed: "holds r ix \<Longrightarrow> ix f key \<noteq> {} \<Longrightarrow> \<exists>bm. lookup r f key = Inr (Some bm) \<and> members bm = ix f key"
    and lookup_other: "holds r ix \<Longrightarrow> ix f key = {} \<Longrightarrow>
      lookup r f key = Inl not_found \<or> (\<exists>bm f' key'. lookup r f key = Inr (Some bm) \<and> members bm = ix f' key')"
    and lookup_keys_agrees: "holds r ix \<Longrightarrow> lookup_keys r keys res \<Longrightarrow>
      res = Inr (map (\<lambda>k. case lookup r (fkField k) (fkKey k) of Inl e \<Rightarrow> None | Inr bm \<Rightarrow> bm) keys)"
begin

text \<open>A batch of indexed keys is answered completely.\<close>

lemma lookup_keys_indexed:
  assumes "holds r ix" "lookup_keys r keys res" "\<forall>k \<in> set keys. ix (fkField k) (fkKey k) \<noteq> {}"
  shows "\<exists>bms. res = Inr (map Some bms) \<and> map members bms = map (\<lambda>k. ix (fkField k) (fkKey k)) keys"
proof -
  let ?bm = "\<lambda>k. case lookup r (fkField k) (fkKey k) of Inl e \<Rightarrow> None | Inr bm \<Rightarrow> bm"
  have "\<exists>bm. ?bm k = Some bm \<and> members bm = ix (fkField k) (fkKey k)" if "k \<in> set keys" for k
    using lookup_indexed [OF assms(1)] assms(3) that by force
  then obtain g where g: "\<And>k. k \<in> set keys \<Longrightarrow> ?bm k = Some (g k) \<and> members (g k) = ix (fkField k) (fkKey k)"
    by metis
  from g lookup_keys_agrees [OF assms(1,2)] show ?thesis by (intro exI [of _ "map g keys"]) simp
qed

text \<open>No bitmap mixes the ids of two keys, and none is lost.\<close>

lemma lookup_Inr:
  assumes "holds r ix" "lookup r f key = Inr (Some bm)"
  shows "\<exists>f' key'. members bm = ix f' key'" "ix f key \<subseteq> members bm"
  using lookup_indexed [OF assms(1), of f key] lookup_other [OF assms(1), of f key] assms(2)
  by (cases "ix f key = {}"; auto)+

end

text \<open>An index that stores whole keys never mistakes one for another.\<close>

locale exact_index = bitmap_index holds lookup lookup_keys members not_found
  for holds :: "'r \<Rightarrow> (Field \<Rightarrow> bytes \<Rightarrow> uint32 set) \<Rightarrow> bool"
    and lookup :: "'r \<Rightarrow> Field \<Rightarrow> bytes \<Rightarrow> 'e + 'bm option"
    and lookup_keys :: "'r \<Rightarrow> FieldKey list \<Rightarrow> 'e + 'bm option list \<Rightarrow> bool"
    and members :: "'bm \<Rightarrow> uint32 set"
    and not_found :: 'e +
  assumes lookup_absent: "holds r ix \<Longrightarrow> ix f key = {} \<Longrightarrow> lookup r f key = Inl not_found"
begin

lemma lookup_exact: "holds r ix \<Longrightarrow> lookup r f key = Inr (Some bm) \<Longrightarrow> members bm = ix f key"
  using lookup_indexed [of r ix f key] lookup_absent [of r ix f key] by (cases "ix f key = {}") auto

lemma lookup_found:
  "holds r ix \<Longrightarrow> map_option members (case lookup r f key of Inl e \<Rightarrow> None | Inr bm \<Rightarrow> bm) = found_ids (ix f key)"
  using lookup_indexed [of r ix f key] lookup_absent [of r ix f key] by (cases "ix f key = {}") auto

lemma lookup_keys_found:
  assumes "holds r ix" "lookup_keys r keys res"
  shows "\<exists>bms. res = Inr bms \<and> map (map_option members) bms = map (\<lambda>k. found_ids (ix (fkField k) (fkKey k))) keys"
  using lookup_keys_agrees [OF assms] lookup_found [OF assms(1)] by simp

end

end
