(* ===== verification/Write_Frame.thy ===== *)
theory Write_Frame
  imports Write_File
begin

text \<open>A writer touches no file but its own.\<close>

lemma os_write_frame: "os_write env fs p data = (n, err, fs') \<Longrightarrow> other_files p fs fs'"
  by (auto simp: os_write_def Let_def other_files_def split: option.splits)

lemma os_remove_frame: "os_remove env fs p = (err, fs') \<Longrightarrow> other_files p fs fs'"
  by (auto simp: os_remove_def split: if_splits)

lemma writeBlock_frame:
  "writeBlock env fs w data = (err, fs', w') \<Longrightarrow> other_files (wpath w) fs fs' \<and> wpath w' = wpath w"
  by (auto simp: writeBlock_def Let_def split: prod.splits option.splits if_splits dest: os_write_frame)

lemma drain_frame:
  "drain env z fs w q = (err, fs', w') \<Longrightarrow> other_files (wpath w) fs fs' \<and> wpath w' = wpath w"
proof (induction q arbitrary: fs w)
  case (Cons b q)
  show ?case
  proof (cases "blockWorker z (wformat w) b")
    case (Inr br)
    obtain e1 fs1 w1 where wb: "writeBlock env fs w (bdata br) = (e1, fs1, w1)"
      by (cases "writeBlock env fs w (bdata br)") auto
    let ?w2 = "if bhasHash br then w1\<lparr>wdigests := wdigests w1 @ bdigest br\<rparr> else w1"
    have "wpath ?w2 = wpath w1" by simp
    then show ?thesis
      using Cons.prems Inr wb writeBlock_frame [OF wb] Cons.IH [of fs1 ?w2]
      by (cases e1) (auto intro: other_files_trans)
  qed (use Cons.prems in simp)
qed simp

lemma buildBlock_wpath: "buildBlock w = Inr (x, w') \<Longrightarrow> wpath w' = wpath w"
  by (auto simp: buildBlock_def Let_def split: if_splits sum.splits)

lemma flush_frame:
  assumes "flush env z fs w = (err, fs', w')"
  shows "other_files (wpath w) fs fs' \<and> wpath w' = wpath w"
proof (cases "buildBlock w")
  case (Inl e)
  with assms show ?thesis by (auto simp: flush_def Let_def split: if_splits)
next
  case (Inr x)
  obtain payload forIndex w1 where x: "x = ((payload, forIndex), w1)" by (metis prod.exhaust)
  note p = buildBlock_wpath [OF Inr [unfolded x]]
  show ?thesis
  proof (cases "wconcurrency w \<le> 1")
    case False
    with assms Inr x p show ?thesis by (auto simp: flush_def Let_def split: option.splits)
  next
    case True
    with assms Inr x p show ?thesis
      by (auto simp: flush_def Let_def split: RecordFormat.splits option.splits sum.splits dest!: writeBlock_frame)
  qed
qed

lemma AppendItem_frame:
  "AppendItem env z fs w parts = (err, fs', w') \<Longrightarrow> other_files (wpath w) fs fs' \<and> wpath w' = wpath w"
  by (auto simp: AppendItem_def Let_def split: option.splits if_splits prod.splits dest!: flush_frame)

lemma append_all_frame:
  "append_all env z fs w calls = (err, fs', w') \<Longrightarrow> other_files (wpath w) fs fs' \<and> wpath w' = wpath w"
proof (induction calls arbitrary: fs w)
  case (Cons parts calls)
  obtain e1 fs1 w1 where a: "AppendItem env z fs w parts = (e1, fs1, w1)"
    by (cases "AppendItem env z fs w parts") auto
  show ?case
    using Cons.prems a AppendItem_frame [OF a] Cons.IH [of fs1 w1]
    by (cases e1) (auto intro: other_files_trans)
qed simp

lemma fail_frame: "fail e fs w = (err, fs', w') \<Longrightarrow> fs' = fs"
  by (simp add: fail_def)

lemma write_tail_frame:
  assumes "write_tail env fs w appData = (err, fs', w')"
  shows "other_files (wpath w) fs fs'"
  using assms unfolding write_tail_def Let_def
  by (auto split: sum.splits prod.splits option.splits if_splits dest!: fail_frame os_write_frame
      intro: other_files_trans)

lemma Finish_frame:
  assumes "Finish env z fs w appData = (err, fs', w')"
  shows "other_files (wpath w) fs fs'"
proof -
  obtain e1 fs1 w1 where f: "(if wsizes w \<noteq> [] then flush env z fs w else (None, fs, w)) = (e1, fs1, w1)"
    by (cases "if wsizes w \<noteq> [] then flush env z fs w else (None, fs, w)") auto
  have f': "other_files (wpath w) fs fs1 \<and> wpath w1 = wpath w"
    using f by (cases "wsizes w = []") (auto dest: flush_frame)
  have tail: "other_files (wpath w) fs fs'"
    if "write_tail env fs2 w2 appData = (err, fs', w')" "other_files (wpath w) fs fs2" "wpath w2 = wpath w" for fs2 w2
    using that write_tail_frame [OF that(1)] by (auto intro: other_files_trans)
  have drained: "other_files (wpath w) fs fs2 \<and> wpath w2 = wpath w"
    if "drain env z fs1 w1 q = (e2, fs2, w2)" for q e2 fs2 w2
    using f' drain_frame [OF that] by (auto intro: other_files_trans)
  from assms show ?thesis
    unfolding Finish_def f
    using f' by (auto split: option.splits if_splits prod.splits dest!: fail_frame drained intro: tail)
qed

text \<open>A session of the writer leaves all other files as they were.\<close>

lemma write_file_frame:
  assumes "write_file env z fs path opts calls appData = (err, fs')"
  shows "other_files path fs fs'"
proof (cases "Create env fs path opts")
  case (Inl e)
  with assms show ?thesis by (simp add: write_file_def)
next
  case (Inr x)
  obtain fs1 w where x: "x = (fs1, w)" by (cases x)
  have c: "other_files path fs fs1" "wpath w = path"
    using Inr unfolding x
    by (auto simp: Create_def os_create_def Let_def split: sum.splits if_splits)
  obtain e2 fs2 w2 where a: "append_all env z fs1 w calls = (e2, fs2, w2)"
    by (cases "append_all env z fs1 w calls") auto
  note a' = append_all_frame [OF a]
  show ?thesis
    using assms Inr x c a a'
    by (cases e2) (auto simp: write_file_def split: prod.splits dest!: Finish_frame elim!: other_files_trans)
qed

end
