(* ===== verification/Bitmap_Writer.thy ===== *)
theory Bitmap_Writer
  imports Bitmap_Index Write_Frame "HOL-Library.AList" "HOL-Library.List_Lexorder"
begin

text \<open>
  bitmapindex/writer.go: the writer collects one bitmap per hashed key in a Go map, here
  an association list without duplicate keys (its order is erased by the sorting in
  Finish; a nil map is None), and Finish writes the MPHF of the keys and a packfile with
  one item per key, in rank order: four bytes of the hashed key and the serialized bitmap.
\<close>

section \<open>Errors\<close>

datatype ix_error =
    IxErr pf_error
  | IxWrap string ix_error
  | IxJoin "ix_error list"

fun ix_panic :: "ix_error \<Rightarrow> bool" where
  "ix_panic (IxErr e) = is_panic e"
| "ix_panic _ = False"

abbreviation lib_error :: "string \<Rightarrow> string \<Rightarrow> ix_error" where
  "lib_error context e \<equiv> IxWrap context (IxErr (ErrPlain e))"

section \<open>The writer\<close>

record BitmapOptions =
  boBatchSize :: int
  boCapacityHint :: int
  boCompress :: bool
  boContentHash :: bool

record 'bm BitmapWriter =
  bwMphfPath :: string
  bwDataPath :: string
  bwBitmaps :: "(bytes \<times> 'bm) list option"
  bwBatchSize :: int
  bwCompress :: bool
  bwContentHash :: bool

definition defaultBatchSize :: int where "defaultBatchSize = 128"

definition NewWriter :: "string \<Rightarrow> string \<Rightarrow> BitmapOptions \<Rightarrow> 'bm BitmapWriter" where
  "NewWriter mphfPath dataPath opts =
    (let bs = boBatchSize opts;
         bs = (if bs \<le> 0 then defaultBatchSize else bs)
     in \<lparr>bwMphfPath = mphfPath, bwDataPath = dataPath, bwBitmaps = Some [], bwBatchSize = bs,
         bwCompress = boCompress opts, bwContentHash = boContentHash opts\<rparr>)"

text \<open>Adding a number to the bitmap of a key, which is created when there is none.\<close>

definition add_ordinal :: "'bm roaring \<Rightarrow> (bytes \<times> 'bm) list \<Rightarrow> bytes \<Rightarrow> uint32 \<Rightarrow> (bytes \<times> 'bm) list" where
  "add_ordinal B m hk ordinal =
    (let bm = (case map_of m hk of None \<Rightarrow> bitmap_New B | Some bm \<Rightarrow> bm)
     in AList.update hk (bitmap_Add B bm ordinal) m)"

definition bitmap_add ::
  "('b, 'idx) streamhash \<Rightarrow> 'bm roaring \<Rightarrow> 'bm BitmapWriter \<Rightarrow> bytes \<Rightarrow> uint32 \<Rightarrow> pf_error + 'bm BitmapWriter" where
  "bitmap_add S B w key ordinal =
    (let hk = PreHash S key
     in case bwBitmaps w of
          None \<Rightarrow> Inl (Panic ''assignment to entry in nil map'')
        | Some m \<Rightarrow> Inr (w\<lparr>bwBitmaps := Some (add_ordinal B m hk ordinal)\<rparr>))"

fun add_topics ::
  "('b, 'idx) streamhash \<Rightarrow> 'bm roaring \<Rightarrow> 'bm BitmapWriter \<Rightarrow> Event \<Rightarrow> uint32 \<Rightarrow> nat list
    \<Rightarrow> pf_error + 'bm BitmapWriter" where
  "add_topics S B w ev ordinal [] = Inr w"
| "add_topics S B w ev ordinal (i # is) =
    (case bitmap_add S B w (composeKey (FieldTopic0 + of_nat i) (Topics ev ! i)) ordinal of
       Inl e \<Rightarrow> Inl e
     | Inr w \<Rightarrow> add_topics S B w ev ordinal is)"

definition Bitmap_Add ::
  "('b, 'idx) streamhash \<Rightarrow> 'bm roaring \<Rightarrow> 'bm BitmapWriter \<Rightarrow> Event \<Rightarrow> uint32 \<Rightarrow> pf_error + 'bm BitmapWriter" where
  "Bitmap_Add S B w ev ordinal =
    (case (case ContractID ev of
             None \<Rightarrow> Inr w
           | Some c \<Rightarrow> bitmap_add S B w (composeKey FieldContractID c) ordinal) of
       Inl e \<Rightarrow> Inl e
     | Inr w \<Rightarrow>
         let topicCount = min (length (Topics ev)) (unat fieldCount - unat FieldTopic0)
         in add_topics S B w ev ordinal [0..<topicCount])"

section \<open>Finish\<close>

text \<open>The keys are added in order; on an error the builder is closed.\<close>

fun add_keys ::
  "('b, 'idx) streamhash \<Rightarrow> 'b \<Rightarrow> fs \<Rightarrow> bytes list \<Rightarrow> (ix_error + 'b) \<times> fs" where
  "add_keys S b fs [] = (Inr b, fs)"
| "add_keys S b fs (hk # hks) =
    (case AddKey S b fs hk 0 of
       (Inl e, fs) \<Rightarrow>
         (case Builder_Close S b fs of
            (cerr, fs) \<Rightarrow>
              (Inl (IxJoin (lib_error ''bitmapindex: add key to MPHF: '' e #
                 (case cerr of None \<Rightarrow> [] | Some e \<Rightarrow> [IxErr (ErrPlain e)]))), fs))
     | (Inr b, fs) \<Rightarrow> add_keys S b fs hks)"

text \<open>Every bitmap is put in the slot of its key's rank. An empty slot is a nil bitmap.\<close>

fun rank_bitmaps ::
  "('b, 'idx) streamhash \<Rightarrow> 'idx \<Rightarrow> (bytes \<times> 'bm) list \<Rightarrow> bytes list \<Rightarrow> (bytes \<times> 'bm option) list
    \<Rightarrow> ix_error + (bytes \<times> 'bm option) list" where
  "rank_bitmaps S idx m [] ranked = Inr ranked"
| "rank_bitmaps S idx m (hk # hks) ranked =
    (case Query S idx hk of
       Inl (QueryErr e) \<Rightarrow> Inl (lib_error ''bitmapindex: query MPHF for rank: '' e)
     | Inl NotFound \<Rightarrow> Inl (lib_error ''bitmapindex: query MPHF for rank: '' ''not found'')
     | Inr rank \<Rightarrow>
         if unat rank \<ge> length ranked then Inl (IxErr (Panic ''index out of range''))
         else rank_bitmaps S idx m hks (ranked[unat rank := (take 4 hk, map_of m hk)]))"

fun prepare_bitmaps :: "'bm roaring \<Rightarrow> (bytes \<times> 'bm option) list \<Rightarrow> ix_error + (bytes \<times> bytes) list" where
  "prepare_bitmaps B [] = Inr []"
| "prepare_bitmaps B ((fp, None) # rest) = Inl (IxErr (Panic ''nil pointer dereference''))"
| "prepare_bitmaps B ((fp, Some bm) # rest) =
    (case ToBytes B (RunOptimize B bm) of
       Inl e \<Rightarrow> Inl (lib_error ''bitmapindex: serialize bitmap: '' e)
     | Inr raw \<Rightarrow>
         (case prepare_bitmaps B rest of Inl e \<Rightarrow> Inl e | Inr prepared \<Rightarrow> Inr ((fp, raw) # prepared)))"

text \<open>An error of the packfile writer is joined with those of closing it; a panic passes.\<close>

definition close_joined ::
  "os_env \<Rightarrow> libzstd \<Rightarrow> fs \<Rightarrow> Writer \<Rightarrow> string \<Rightarrow> pf_error \<Rightarrow> ix_error \<times> fs" where
  "close_joined env z fs pw context e =
    (if is_panic e then (IxErr e, fs)
     else case Close env z fs pw of
       (errs, fs, pw) \<Rightarrow> (IxJoin (IxWrap context (IxErr e) # map IxErr errs), fs))"

fun append_prepared ::
  "os_env \<Rightarrow> libzstd \<Rightarrow> fs \<Rightarrow> Writer \<Rightarrow> (bytes \<times> bytes) list \<Rightarrow> (ix_error \<times> fs) + (fs \<times> Writer)" where
  "append_prepared env z fs pw [] = Inr (fs, pw)"
| "append_prepared env z fs pw ((fp, data) # rest) =
    (case AppendItem env z fs pw [fp, data] of
       (Some e, fs, pw) \<Rightarrow> Inl (close_joined env z fs pw ''bitmapindex: append item: '' e)
     | (None, fs, pw) \<Rightarrow> append_prepared env z fs pw rest)"

definition bitmap_packfile_opts :: "'bm BitmapWriter \<Rightarrow> WriterOptions" where
  "bitmap_packfile_opts w =
    \<lparr>optItemsPerRecord = bwBatchSize w, optFormat = (if bwCompress w then Compressed else Uncompressed),
     optConcurrency = 0, optContentHash = bwContentHash w, optBytesPerSync = 0, optOverwrite = False\<rparr>"

definition write_prepared ::
  "os_env \<Rightarrow> libzstd \<Rightarrow> fs \<Rightarrow> 'bm BitmapWriter \<Rightarrow> (bytes \<times> bytes) list \<Rightarrow> ix_error option \<times> fs" where
  "write_prepared env z fs w prepared =
    (case Create env fs (bwDataPath w) (bitmap_packfile_opts w) of
       Inl e \<Rightarrow> (Some (IxWrap ''bitmapindex: create packfile: '' (IxErr e)), fs)
     | Inr (fs, pw) \<Rightarrow>
         (case append_prepared env z fs pw prepared of
            Inl (e, fs) \<Rightarrow> (Some e, fs)
          | Inr (fs, pw) \<Rightarrow>
              (case Finish env z fs pw [] of
                 (Some e, fs, pw) \<Rightarrow>
                   (case close_joined env z fs pw ''bitmapindex: finish packfile: '' e of (e, fs) \<Rightarrow> (Some e, fs))
               | (None, fs, pw) \<Rightarrow> (None, fs))))"

text \<open>From the first key on; the error decides over the removal of the MPHF file.\<close>

definition build_index ::
  "os_env \<Rightarrow> libzstd \<Rightarrow> ('b, 'idx) streamhash \<Rightarrow> 'bm roaring \<Rightarrow> fs \<Rightarrow> 'bm BitmapWriter \<Rightarrow> (bytes \<times> 'bm) list
    \<Rightarrow> bytes list \<Rightarrow> 'b \<Rightarrow> ix_error option \<times> fs \<times> 'bm BitmapWriter" where
  "build_index env z S B fs w m sortedKeys b =
    (case add_keys S b fs sortedKeys of
       (Inl e, fs) \<Rightarrow> (Some e, fs, w)
     | (Inr b, fs) \<Rightarrow>
         (case Builder_Finish S b fs of
            (Some e, fs) \<Rightarrow> (Some (lib_error ''bitmapindex: finish MPHF: '' e), fs, w)
          | (None, fs) \<Rightarrow>
              (case Mphf_Open S fs (bwMphfPath w) of
                 Inl e \<Rightarrow> (Some (lib_error ''bitmapindex: open MPHF for ranking: '' e), fs, w)
               | Inr idx \<Rightarrow>
                   (case rank_bitmaps S idx m sortedKeys (replicate (length m) (replicate 4 0, None)) of
                      Inl e \<Rightarrow> (Some e, fs, w)
                    | Inr ranked \<Rightarrow>
                        let w = w\<lparr>bwBitmaps := None\<rparr>
                        in case prepare_bitmaps B ranked of
                             Inl e \<Rightarrow> (Some e, fs, w)
                           | Inr prepared \<Rightarrow>
                               (case write_prepared env z fs w prepared of (err, fs) \<Rightarrow> (err, fs, w))))))"

definition Bitmap_Finish ::
  "os_env \<Rightarrow> libzstd \<Rightarrow> ('b, 'idx) streamhash \<Rightarrow> 'bm roaring \<Rightarrow> fs \<Rightarrow> 'bm BitmapWriter
    \<Rightarrow> ix_error option \<times> fs \<times> 'bm BitmapWriter" where
  "Bitmap_Finish env z S B fs w =
    (let m = nilable (bwBitmaps w); totalKeys = length m
     in if totalKeys = 0 then (Some (IxErr (ErrPlain ''bitmapindex: no keys to index'')), fs, w)
        else if int totalKeys > MaxUint32
        then (Some (IxErr (ErrPlain ''bitmapindex: key count exceeds uint32 max'')), fs, w)
        else
          let sortedKeys = sort (map fst m)
          in case NewBuilder S fs (bwMphfPath w) (of_nat totalKeys) 4 of
               (Inl e, fs) \<Rightarrow> (Some (lib_error ''bitmapindex: create MPHF builder: '' e), fs, w)
             | (Inr b, fs) \<Rightarrow>
                 (case build_index env z S B fs w m sortedKeys b of
                    (None, fs, w) \<Rightarrow> (None, fs, w)
                  | (Some e, fs, w) \<Rightarrow>
                      (Some e, if ix_panic e then fs else snd (os_remove env fs (bwMphfPath w)), w)))"

text \<open>A whole session: every event is added under its id, then the index is finished.\<close>

fun add_events ::
  "('b, 'idx) streamhash \<Rightarrow> 'bm roaring \<Rightarrow> 'bm BitmapWriter \<Rightarrow> (Event \<times> uint32) list \<Rightarrow> pf_error + 'bm BitmapWriter" where
  "add_events S B w [] = Inr w"
| "add_events S B w ((ev, ordinal) # evs) =
    (case Bitmap_Add S B w ev ordinal of Inl e \<Rightarrow> Inl e | Inr w \<Rightarrow> add_events S B w evs)"

definition write_index ::
  "os_env \<Rightarrow> libzstd \<Rightarrow> ('b, 'idx) streamhash \<Rightarrow> 'bm roaring \<Rightarrow> string \<Rightarrow> string \<Rightarrow> BitmapOptions \<Rightarrow> fs
    \<Rightarrow> (Event \<times> uint32) list \<Rightarrow> ix_error option \<times> fs" where
  "write_index env z S B mphfPath dataPath opts fs evs =
    (case add_events S B (NewWriter mphfPath dataPath opts) evs of
       Inl e \<Rightarrow> (Some (IxErr e), fs)
     | Inr w \<Rightarrow> (case Bitmap_Finish env z S B fs w of (err, fs, w) \<Rightarrow> (err, fs)))"

section \<open>The collected bitmaps\<close>

text \<open>\<open>T hk\<close> are the members of the bitmap of \<open>hk\<close>; no bitmap is empty.\<close>

definition bitmaps_of :: "('bm \<Rightarrow> uint32 set) \<Rightarrow> (bytes \<times> 'bm) list \<Rightarrow> (bytes \<Rightarrow> uint32 set) \<Rightarrow> bool" where
  "bitmaps_of members m T \<longleftrightarrow> distinct (map fst m) \<and>
    (\<forall>hk. case map_of m hk of None \<Rightarrow> T hk = {} | Some bm \<Rightarrow> members bm = T hk \<and> T hk \<noteq> {})"

text \<open>The ids of the events with a field whose key is \<open>hk\<close>, for keys made by \<open>key\<close>.\<close>

definition keyed :: "(Field \<Rightarrow> bytes \<Rightarrow> bytes) \<Rightarrow> (Event \<times> uint32) list \<Rightarrow> bytes \<Rightarrow> uint32 set" where
  "keyed key evs hk = {id. \<exists>ev f k. (ev, id) \<in> set evs \<and> (f, k) \<in> set (event_fields ev) \<and> key f k = hk}"

lemma bitmaps_of_empty: "bitmaps_of members [] (keyed key [])"
  by (simp add: bitmaps_of_def keyed_def)

lemma add_ordinal_bitmaps:
  assumes "roaring_contract B members" "bitmaps_of members m T"
  shows "bitmaps_of members (add_ordinal B m hk x) (T(hk := insert x (T hk)))"
proof -
  have B: "members (bitmap_New B) = {}" "members (bitmap_Add B bm y) = insert y (members bm)" for bm y
    using assms(1) by (simp_all add: roaring_contract_def)
  have m: "distinct (map fst m)"
    "case map_of m k of None \<Rightarrow> T k = {} | Some bm \<Rightarrow> members bm = T k \<and> T k \<noteq> {}" for k
    using assms(2) by (simp_all add: bitmaps_of_def)
  show ?thesis
    unfolding bitmaps_of_def add_ordinal_def Let_def
  proof (intro conjI allI)
    show "distinct (map fst (AList.update hk
        (bitmap_Add B (case map_of m hk of None \<Rightarrow> bitmap_New B | Some bm \<Rightarrow> bm) x) m))"
      using m(1) by (rule distinct_update)
    fix k
    show "case map_of (AList.update hk
        (bitmap_Add B (case map_of m hk of None \<Rightarrow> bitmap_New B | Some bm \<Rightarrow> bm) x) m) k of
        None \<Rightarrow> (T(hk := insert x (T hk))) k = {}
      | Some bm \<Rightarrow> members bm = (T(hk := insert x (T hk))) k \<and> (T(hk := insert x (T hk))) k \<noteq> {}"
      using m(2) [of k] B by (cases "k = hk") (auto simp: update_conv split: option.splits)
  qed
qed

definition with_fields ::
  "(Field \<Rightarrow> bytes \<Rightarrow> bytes) \<Rightarrow> (bytes \<Rightarrow> uint32 set) \<Rightarrow> (Field \<times> bytes) list \<Rightarrow> uint32 \<Rightarrow> bytes \<Rightarrow> uint32 set" where
  "with_fields key T fks x hk = T hk \<union> {id. id = x \<and> (\<exists>(f, k) \<in> set fks. key f k = hk)}"

lemma with_fields_keyed: "with_fields key (keyed key evs) (event_fields ev) x = keyed key (evs @ [(ev, x)])"
  by (auto simp: with_fields_def keyed_def fun_eq_iff)

lemma foldl_add_ordinal:
  assumes "roaring_contract B members" "bitmaps_of members m T"
  shows "bitmaps_of members (foldl (\<lambda>m (f, k). add_ordinal B m (key f k) x) m fks) (with_fields key T fks x)"
  using assms(2)
proof (induction fks arbitrary: m T)
  case Nil
  then show ?case by (simp add: with_fields_def)
next
  case (Cons fk fks)
  obtain f k where fk: "fk = (f, k)" by (cases fk)
  have "with_fields key T (fk # fks) x =
      with_fields key (T(key f k := insert x (T (key f k)))) fks x"
    by (auto simp: with_fields_def fk fun_eq_iff)
  with Cons.IH [OF add_ordinal_bitmaps [OF assms(1) Cons.prems], of "key f k" x] show ?case by (simp add: fk fun_upd_def)
qed

text \<open>Adding an event adds its fields, as \<open>event_fields\<close> lists them.\<close>

abbreviation hash_key :: "('b, 'idx) streamhash \<Rightarrow> Field \<Rightarrow> bytes \<Rightarrow> bytes" where
  "hash_key S f k \<equiv> PreHash S (composeKey f k)"

lemma enumerate_take: "enumerate 0 (take n xs) = map (\<lambda>i. (i, xs ! i)) [0..<min (length xs) n]"
  by (rule nth_equalityI) (simp_all add: nth_enumerate_eq)

lemma add_topics_fold:
  "bwBitmaps w = Some m \<Longrightarrow> add_topics S B w ev x is =
    Inr (w\<lparr>bwBitmaps := Some (foldl (\<lambda>m i. add_ordinal B m (hash_key S (FieldTopic0 + of_nat i) (Topics ev ! i)) x) m is)\<rparr>)"
  by (induction "is" arbitrary: w m) (simp_all add: bitmap_add_def Let_def)

lemma foldl_map_fst: "foldl g a (map h xs) = foldl (\<lambda>a x. g a (h x)) a xs"
  by (induction xs arbitrary: a) simp_all

lemma Bitmap_Add_fold:
  assumes "bwBitmaps w = Some m"
  shows "Bitmap_Add S B w ev x =
    Inr (w\<lparr>bwBitmaps := Some (foldl (\<lambda>m (f, k). add_ordinal B m (hash_key S f k) x) m (event_fields ev))\<rparr>)"
proof -
  have four: "unat fieldCount - unat FieldTopic0 = 4" by (simp add: fieldCount_def FieldTopic0_def)
  have "foldl (\<lambda>m (f, k). add_ordinal B m (hash_key S f k) x) m' (map (\<lambda>(i, topic). (FieldTopic0 + of_nat i, topic)) (enumerate 0 (take 4 (Topics ev))))
      = foldl (\<lambda>m i. add_ordinal B m (hash_key S (FieldTopic0 + of_nat i) (Topics ev ! i)) x) m' [0..<min (length (Topics ev)) 4]" for m'
    by (simp only: enumerate_take foldl_map_fst prod.case)
  then show ?thesis
    using assms
    by (cases "ContractID ev")
      (simp_all add: Bitmap_Add_def event_fields_def four add_topics_fold bitmap_add_def Let_def)
qed

lemma add_events_bitmaps:
  assumes B: "roaring_contract B members"
  shows "bwBitmaps w = Some m \<Longrightarrow> bitmaps_of members m (keyed (hash_key S) evs0) \<Longrightarrow>
    \<exists>m'. add_events S B w evs = Inr (w\<lparr>bwBitmaps := Some m'\<rparr>) \<and> bitmaps_of members m' (keyed (hash_key S) (evs0 @ evs))"
proof (induction evs arbitrary: w m evs0)
  case Nil
  from Nil(1) have "w\<lparr>bwBitmaps := Some m\<rparr> = w" by (cases w) simp
  then show ?case using Nil(2) by (intro exI [of _ m]) simp
next
  case (Cons e evs)
  obtain ev x where e: "e = (ev, x)" by (cases e)
  let ?m = "foldl (\<lambda>m (f, k). add_ordinal B m (hash_key S f k) x) m (event_fields ev)"
  have "bitmaps_of members ?m (keyed (hash_key S) (evs0 @ [e]))"
    using foldl_add_ordinal [OF B Cons.prems(2), of "hash_key S" x "event_fields ev"] by (simp add: e with_fields_keyed)
  with Cons.IH [of "w\<lparr>bwBitmaps := Some ?m\<rparr>" ?m "evs0 @ [e]"] show ?case
    by (simp add: e Bitmap_Add_fold [OF Cons.prems(1)])
qed

section \<open>The files of a finished index\<close>

lemma add_keys_builder:
  assumes S: "streamhash_contract S V"
  shows "builder_of V b = (p, n, ks0) \<Longrightarrow> add_keys S b fs ks = (Inr b', fs') \<Longrightarrow>
    builder_of V b' = (p, n, ks0 @ ks) \<and> other_files p fs fs'"
proof (induction ks arbitrary: b ks0 fs)
  case (Cons k ks)
  from Cons.prems(2) obtain b1 fs1 where a: "AddKey S b fs k 0 = (Inr b1, fs1)" "add_keys S b1 fs1 ks = (Inr b', fs')"
    by (auto split: prod.splits sum.splits)
  note a1 = AddKey_adds [OF S Cons.prems(1) a(1)]
  from Cons.IH [OF a1(1) a(2)] a1(2) show ?case by (auto intro: other_files_trans)
qed simp

definition at_rank :: "('b, 'idx) streamhash \<Rightarrow> 'idx \<Rightarrow> bytes \<Rightarrow> nat \<Rightarrow> bool" where
  "at_rank S idx hk j \<longleftrightarrow> (\<exists>r. Query S idx hk = Inr r \<and> unat r = j)"

lemma rank_bitmaps_slots:
  "rank_bitmaps S idx m hks ranked = Inr ranked' \<Longrightarrow> length ranked' = length ranked \<and>
    (\<forall>hk \<in> set hks. \<exists>j < length ranked. at_rank S idx hk j) \<and>
    (\<forall>j < length ranked. (\<exists>hk \<in> set hks. at_rank S idx hk j \<and> ranked' ! j = (take 4 hk, map_of m hk)) \<or>
      (\<forall>hk \<in> set hks. \<not> at_rank S idx hk j) \<and> ranked' ! j = ranked ! j)"
proof (induction hks arbitrary: ranked)
  case (Cons hk hks)
  from Cons.prems obtain r where r: "Query S idx hk = Inr r" "unat r < length ranked"
    "rank_bitmaps S idx m hks (ranked[unat r := (take 4 hk, map_of m hk)]) = Inr ranked'"
    by (auto split: sum.splits query_error.splits if_splits)
  have at: "at_rank S idx hk j \<longleftrightarrow> j = unat r" for j using r(1) by (auto simp: at_rank_def)
  note ih = Cons.IH [OF r(3)]
  have "(\<exists>k \<in> set (hk # hks). at_rank S idx k j \<and> ranked' ! j = (take 4 k, map_of m k)) \<or>
      (\<forall>k \<in> set (hk # hks). \<not> at_rank S idx k j) \<and> ranked' ! j = ranked ! j" if "j < length ranked" for j
    using ih that by (cases "j = unat r") (fastforce simp: at)+
  then show ?case using ih r(2) by (auto simp: at)
qed simp

lemma at_rank_inj:
  "inj_on (Query S idx) (set hks) \<Longrightarrow> hk \<in> set hks \<Longrightarrow> hk' \<in> set hks \<Longrightarrow> at_rank S idx hk j \<Longrightarrow>
    at_rank S idx hk' j \<Longrightarrow> hk = hk'"
  by (auto simp: at_rank_def inj_on_def word_unat_eq_iff)

lemma prepare_bitmaps_entries:
  "prepare_bitmaps B ranked = Inr prepared \<Longrightarrow> length prepared = length ranked \<and>
    (\<forall>j < length ranked. \<exists>fp bm raw. ranked ! j = (fp, Some bm) \<and> prepared ! j = (fp, raw) \<and>
      ToBytes B (RunOptimize B bm) = Inr raw)"
proof (induction B ranked arbitrary: prepared rule: prepare_bitmaps.induct)
  case (3 B fp bm rest)
  from 3(2) obtain raw prep where p: "ToBytes B (RunOptimize B bm) = Inr raw" "prepare_bitmaps B rest = Inr prep"
    "prepared = (fp, raw) # prep"
    by (auto split: sum.splits)
  from 3(1) [OF p(1,2)] show ?case using p by (auto simp: nth_Cons' less_Suc_eq_0_disj)
qed auto

text \<open>
  The prepared entries by rank: each holds the fingerprint and the bitmap of the key of
  its rank, and every slot belongs to a key.
\<close>

definition entries_by_rank ::
  "'bm roaring \<Rightarrow> (bytes \<times> 'bm) list \<Rightarrow> (bytes \<Rightarrow> query_error + uint64) \<Rightarrow> (bytes \<times> bytes) list \<Rightarrow> bool" where
  "entries_by_rank B m q prepared \<longleftrightarrow> length prepared = length m \<and>
    (\<forall>(hk, bm) \<in> set m. \<exists>r raw. q hk = Inr r \<and> unat r < length prepared \<and>
      prepared ! unat r = (take 4 hk, raw) \<and> ToBytes B (RunOptimize B bm) = Inr raw) \<and>
    (\<forall>j < length prepared. \<exists>(hk, bm) \<in> set m. \<exists>r. q hk = Inr r \<and> unat r = j)"

lemma ranked_entries:
  assumes "rank_bitmaps S idx m hks (replicate (length m) (fp0, None)) = Inr ranked"
    and "prepare_bitmaps B ranked = Inr prepared"
    and "set hks = fst ` set m" "distinct (map fst m)" "inj_on (Query S idx) (set hks)"
  shows "entries_by_rank B m (Query S idx) prepared"
proof -
  note slots = rank_bitmaps_slots [OF assms(1)] and entries = prepare_bitmaps_entries [OF assms(2)]
  have len: "length ranked = length m" "length prepared = length m" using slots entries by simp_all
  have owner: "\<exists>hk \<in> set hks. at_rank S idx hk j \<and> ranked ! j = (take 4 hk, map_of m hk)" if "j < length m" for j
    using slots entries that len by fastforce
  have "\<exists>r raw. Query S idx hk = Inr r \<and> unat r < length prepared \<and> prepared ! unat r = (take 4 hk, raw) \<and>
      ToBytes B (RunOptimize B bm) = Inr raw" if "(hk, bm) \<in> set m" for hk bm
  proof -
    have hk: "hk \<in> set hks" "map_of m hk = Some bm" using that assms(3,4) by force+
    then obtain j where j: "j < length m" "at_rank S idx hk j" using slots by auto
    from owner [OF j(1)] obtain hk' where hk': "hk' \<in> set hks" "at_rank S idx hk' j"
      "ranked ! j = (take 4 hk', map_of m hk')" by blast
    from at_rank_inj [OF assms(5) hk(1) hk'(1) j(2) hk'(2)] hk'(3) hk(2)
    have "ranked ! j = (take 4 hk, Some bm)" by simp
    with entries j len show ?thesis by (auto simp: at_rank_def)
  qed
  moreover have "\<exists>(hk, bm) \<in> set m. \<exists>r. Query S idx hk = Inr r \<and> unat r = j" if "j < length prepared" for j
    using owner [of j] that len assms(3) by (fastforce simp: at_rank_def)
  ultimately show ?thesis by (auto simp: entries_by_rank_def len)
qed

text \<open>The packfile holds one item per entry.\<close>

abbreviation entry_parts :: "(bytes \<times> bytes) list \<Rightarrow> bytes list list" where
  "entry_parts prepared \<equiv> map (\<lambda>(fp, data). [fp, data]) prepared"

lemma append_prepared_all:
  "append_prepared env z fs pw prepared = Inr (fs', pw') \<Longrightarrow>
    append_all env z fs pw (entry_parts prepared) = (None, fs', pw')"
  by (induction env z fs pw prepared rule: append_prepared.induct) (auto split: prod.splits option.splits)

lemma write_prepared_file:
  assumes "write_prepared env z fs w prepared = (None, fs')"
  shows "write_file env z fs (bwDataPath w) (bitmap_packfile_opts w) (entry_parts prepared) [] = (None, fs')"
proof -
  from assms obtain fs1 pw fs2 pw2 pw3 where s: "Create env fs (bwDataPath w) (bitmap_packfile_opts w) = Inr (fs1, pw)"
    "append_prepared env z fs1 pw prepared = Inr (fs2, pw2)" "Finish env z fs2 pw2 [] = (None, fs', pw3)"
    by (auto simp: write_prepared_def split: sum.splits prod.splits option.splits)
  from append_prepared_all [OF s(2)] s show ?thesis by (simp add: write_file_def)
qed

text \<open>Conversely, a session of the packfile writer on the entries is one of \<open>write_prepared\<close>.\<close>

lemma append_prepared_done:
  "append_all env z fs pw (entry_parts prepared) = (None, fs', pw') \<Longrightarrow>
    append_prepared env z fs pw prepared = Inr (fs', pw')"
  by (induction env z fs pw prepared rule: append_prepared.induct) (auto split: prod.splits option.splits)

lemma write_prepared_done:
  assumes "write_file env z fs (bwDataPath w) (bitmap_packfile_opts w) (entry_parts prepared) [] = (None, fs')"
  shows "write_prepared env z fs w prepared = (None, fs')"
proof -
  from assms obtain fs1 pw fs2 pw2 pw3 where "Create env fs (bwDataPath w) (bitmap_packfile_opts w) = Inr (fs1, pw)"
    "append_all env z fs1 pw (entry_parts prepared) = (None, fs2, pw2)" "Finish env z fs2 pw2 [] = (None, fs', pw3)"
    by (auto simp: write_file_def split: sum.splits prod.splits option.splits)
  then show ?thesis using append_prepared_done by (simp add: write_prepared_def)
qed

text \<open>What a session of the writer that succeeds leaves.\<close>

lemma Bitmap_Finish_files:
  assumes S: "streamhash_contract S V" and w: "bwBitmaps w = Some m" "distinct (map fst m)"
    "\<forall>hk \<in> set (map fst m). length hk = 16"
    and run: "Bitmap_Finish env z S B fs w = (None, fs', w')"
  shows "\<exists>fs1 data q prepared. other_files (bwMphfPath w) fs fs1 \<and> fs1 (bwMphfPath w) = Some data \<and>
    query_of V data = Some q \<and> perfect_on (sort (map fst m)) q \<and> entries_by_rank B m q prepared \<and>
    write_file env z fs1 (bwDataPath w) (bitmap_packfile_opts w) (entry_parts prepared) [] = (None, fs') \<and>
    m \<noteq> [] \<and> length m < 2 ^ 32"
proof -
  let ?hks = "sort (map fst m)" and ?p = "bwMphfPath w"
  from run w(1) obtain b fs1 where n: "m \<noteq> []" "int (length m) \<le> MaxUint32"
    "NewBuilder S fs ?p (of_nat (length m)) 4 = (Inr b, fs1)"
    "build_index env z S B fs1 w m ?hks b = (None, fs', w')"
    by (auto simp: Bitmap_Finish_def Let_def split: if_splits prod.splits sum.splits option.splits)
  from n(4) obtain b2 fs2 fs3 idx ranked prepared where s: "add_keys S b fs1 ?hks = (Inr b2, fs2)"
    "Builder_Finish S b2 fs2 = (None, fs3)" "Mphf_Open S fs3 ?p = Inr idx"
    "rank_bitmaps S idx m ?hks (replicate (length m) (replicate 4 0, None)) = Inr ranked"
    "prepare_bitmaps B ranked = Inr prepared" "write_prepared env z fs3 (w\<lparr>bwBitmaps := None\<rparr>) prepared = (None, fs')"
    by (auto simp: build_index_def Let_def split: prod.splits sum.splits option.splits)
  have len: "length m < 2 ^ 32" using n(2) by (simp add: MaxUint32_def)
  then have "unat (of_nat (length m) :: uint64) = length m" by (simp add: unat_of_nat take_bit_nat_eq_self)
  with NewBuilder_builds [OF S n(3)] have b: "builder_of V b = (?p, length ?hks, [])" "other_files ?p fs fs1" by simp_all
  from add_keys_builder [OF S b(1) s(1)] have b2: "builder_of V b2 = (?p, length ?hks, ?hks)" "other_files ?p fs1 fs2"
    by simp_all
  have "distinct ?hks" "\<forall>k \<in> set ?hks. length k = 16" using w by simp_all
  from Builder_Finish_writes [OF S b2(1) s(2) this] obtain data q where
    d: "other_files ?p fs2 fs3" "fs3 ?p = Some data" "query_of V data = Some q" "perfect_on ?hks q" by auto
  have q: "Query S idx = q" by (rule Mphf_opens(1) [OF S d(3,2) s(3)])
  have "entries_by_rank B m q prepared"
    using ranked_entries [OF s(4,5) _ w(2)] d(4) by (simp add: q perfect_on_def)
  moreover have "other_files ?p fs fs3" using b(2) b2(2) d(1) by (blast intro: other_files_trans)
  moreover have "write_file env z fs3 (bwDataPath w) (bitmap_packfile_opts w) (entry_parts prepared) [] = (None, fs')"
    using write_prepared_file [OF s(6)] by (simp add: bitmap_packfile_opts_def)
  ultimately show ?thesis using d n(1) len by blast
qed

end
