(* ===== verification/Bitmap_Reader.thy ===== *)
theory Bitmap_Reader
  imports Bitmap_Writer Round_Trip Read_Items_Correct "HOL-Library.Multiset" "HOL-Library.Signed_Division"
begin

text \<open>
  bitmapindex/reader.go: \<open>Open\<close> loads the MPHF, from memory or mapped, and opens the
  packfile; \<open>Lookup\<close> asks the MPHF for the rank of a hashed key, reads the item of that
  rank and compares its fingerprint; \<open>LookupKeys\<close> reads all ranks of a batch of keys with
  the packfile's parallel ReadItems.
\<close>

section \<open>Opening\<close>

definition ErrKeyNotFound :: pf_error where
  "ErrKeyNotFound = ErrPlain ''bitmapindex: key not found''"

definition fingerprintSize :: nat where "fingerprintSize = 4"

definition loadMPHF ::
  "os_env \<Rightarrow> ('b, 'idx) streamhash \<Rightarrow> fs \<Rightarrow> string \<Rightarrow> int \<Rightarrow> ix_error + 'idx" where
  "loadMPHF env S fs path expectedLookups =
    (case fs path of
       None \<Rightarrow> Inl (lib_error ''bitmapindex: open MPHF: '' ''no such file'')
     | Some contents \<Rightarrow>
         if open_fails env path then Inl (lib_error ''bitmapindex: open MPHF: '' ''open'')
         else if stat_fails env path then Inl (lib_error ''bitmapindex: stat MPHF: '' ''stat'')
         else
           let ebsIOPSize = 256 * 1024;
               iopsToReadAll = int64 (int (length contents) + ebsIOPSize - 1) sdiv ebsIOPSize;
               prefetch = int64 (expectedLookups + 1) > iopsToReadAll
           in if prefetch
              then case ReadAt env contents (length contents) 0 of
                     Inl e \<Rightarrow> Inl (IxWrap ''bitmapindex: read MPHF: '' (IxErr e))
                   | Inr data \<Rightarrow>
                       (case OpenBytes S data of
                          Inl e \<Rightarrow> Inl (lib_error ''bitmapindex: parse MPHF: '' e)
                        | Inr idx \<Rightarrow> Inr idx)
              else case OpenFile S contents of
                     Inl e \<Rightarrow> Inl (lib_error ''bitmapindex: mmap MPHF: '' e)
                   | Inr idx \<Rightarrow> Inr idx)"

text \<open>The reader: the packfile reader, the outcome of the background load, and Close's result.\<close>

record 'idx BitmapReader =
  brPf :: Reader
  brMphf :: "ix_error + 'idx"
  brClosed :: "ix_error list option"

datatype reader_option = WithExpectedLookups int | WithConcurrency int

fun apply_option :: "int \<times> int \<Rightarrow> reader_option \<Rightarrow> int \<times> int" where
  "apply_option (expectedLookups, concurrency) (WithExpectedLookups n) = (n, concurrency)"
| "apply_option (expectedLookups, concurrency) (WithConcurrency n) = (expectedLookups, n)"

definition Bitmap_Open ::
  "os_env \<Rightarrow> ('b, 'idx) streamhash \<Rightarrow> fs \<Rightarrow> string \<Rightarrow> string \<Rightarrow> reader_option list \<Rightarrow> 'idx BitmapReader" where
  "Bitmap_Open env S fs mphfPath dataPath opts =
    (let (expectedLookups, concurrency) = foldl apply_option (0, 0) opts
     in \<lparr>brPf = Open env fs dataPath (if concurrency \<noteq> 0 then Some concurrency else None),
         brMphf = loadMPHF env S fs mphfPath expectedLookups, brClosed = None\<rparr>)"

section \<open>Lookups\<close>

definition verifyAndDeserialize :: "'bm roaring \<Rightarrow> bytes \<Rightarrow> bytes \<Rightarrow> pf_error + 'bm" where
  "verifyAndDeserialize B entry hk =
    (if length entry < fingerprintSize \<or> entry ! 0 \<noteq> hk ! 0 \<or> entry ! 1 \<noteq> hk ! 1 \<or>
        entry ! 2 \<noteq> hk ! 2 \<or> entry ! 3 \<noteq> hk ! 3
     then Inl ErrKeyNotFound
     else case UnmarshalBinary B (drop fingerprintSize entry) of
            Inl e \<Rightarrow> Inl (ErrPlain (''bitmapindex: deserialize bitmap: '' @ e))
          | Inr bm \<Rightarrow> Inr bm)"

text \<open>The callback of \<open>Lookup\<close>: its state is the variable \<open>bm\<close>.\<close>

definition lookup_item :: "'bm roaring \<Rightarrow> bytes \<Rightarrow> bytes \<Rightarrow> 'bm option \<Rightarrow> pf_error option \<times> 'bm option" where
  "lookup_item B hk entry bm =
    (case verifyAndDeserialize B entry hk of Inl e \<Rightarrow> (Some e, None) | Inr bm \<Rightarrow> (None, Some bm))"

definition Lookup ::
  "os_env \<Rightarrow> libzstd \<Rightarrow> ('b, 'idx) streamhash \<Rightarrow> 'bm roaring \<Rightarrow> decoder option \<Rightarrow> 'idx BitmapReader
    \<Rightarrow> Field \<Rightarrow> bytes \<Rightarrow> (ix_error + 'bm option) \<times> decoder option" where
  "Lookup env z S B pool r f key =
    (case brMphf r of
       Inl e \<Rightarrow> (Inl e, pool)
     | Inr mphf \<Rightarrow>
         let hk = PreHash S (composeKey f key)
         in case Query S mphf hk of
              Inl NotFound \<Rightarrow> (Inl (IxErr ErrKeyNotFound), pool)
            | Inl (QueryErr e) \<Rightarrow> (Inl (lib_error ''bitmapindex: MPHF query: '' e), pool)
            | Inr rank \<Rightarrow>
                (case ReadItem env z pool (brPf r) (sint rank) (lookup_item B hk) None of
                   (Some e, pool, bm) \<Rightarrow>
                     (Inl (if e = ErrKeyNotFound then IxErr ErrKeyNotFound
                           else if is_panic e then IxErr e
                           else IxWrap ''bitmapindex: read rank: '' (IxErr e)), pool)
                 | (None, pool, bm) \<Rightarrow> (Inr bm, pool)))"

subsection \<open>Batches\<close>

record foundKey =
  fkOutIdx :: nat
  fkHk :: bytes
  fkRank :: uint64

fun query_keys ::
  "('b, 'idx) streamhash \<Rightarrow> 'idx \<Rightarrow> nat \<Rightarrow> FieldKey list \<Rightarrow> ix_error + foundKey list" where
  "query_keys S mphf i [] = Inr []"
| "query_keys S mphf i (key # keys) =
    (let hk = PreHash S (composeKey (fkField key) (fkKey key))
     in case Query S mphf hk of
          Inl NotFound \<Rightarrow> query_keys S mphf (i + 1) keys
        | Inl (QueryErr e) \<Rightarrow> Inl (lib_error ''bitmapindex: MPHF query key: '' e)
        | Inr rank \<Rightarrow>
            (case query_keys S mphf (i + 1) keys of
               Inl e \<Rightarrow> Inl e
             | Inr found \<Rightarrow> Inr (\<lparr>fkOutIdx = i, fkHk = hk, fkRank = rank\<rparr> # found)))"

text \<open>Where the groups of equal ranks start, and the ranks as item positions.\<close>

definition group_starts :: "foundKey list \<Rightarrow> nat list" where
  "group_starts found = filter (\<lambda>i. i = 0 \<or> fkRank (found ! i) \<noteq> fkRank (found ! (i - 1))) [0..<length found]"

definition group_indices :: "foundKey list \<Rightarrow> int list" where
  "group_indices found = map (\<lambda>i. sint (fkRank (found ! i))) (group_starts found)"

definition group_at :: "foundKey list \<Rightarrow> nat \<Rightarrow> foundKey list" where
  "group_at found idx =
    (let groupStart = group_starts found;
         end' = (if idx + 1 < length groupStart then groupStart ! (idx + 1) else length found)
     in slice found (groupStart ! idx) end')"

text \<open>The callback on the keys of one rank: its error and what it stores in \<open>out\<close>.\<close>

fun verify_keys :: "'bm roaring \<Rightarrow> bytes \<Rightarrow> foundKey list \<Rightarrow> pf_error option \<times> (nat \<times> 'bm) list" where
  "verify_keys B data [] = (None, [])"
| "verify_keys B data (k # ks) =
    (case verifyAndDeserialize B data (fkHk k) of
       Inl e \<Rightarrow> if e = ErrKeyNotFound then verify_keys B data ks else (Some e, [])
     | Inr bm \<Rightarrow> (case verify_keys B data ks of (err, stores) \<Rightarrow> (err, (fkOutIdx k, bm) # stores)))"

definition store_bitmaps :: "nat \<Rightarrow> (nat \<times> 'bm) list \<Rightarrow> 'bm option list" where
  "store_bitmaps n stores = foldl (\<lambda>out (i, bm). out[i := Some bm]) (replicate n None) stores"

definition batch_fn :: "'bm roaring \<Rightarrow> foundKey list \<Rightarrow> nat \<Rightarrow> bytes \<Rightarrow> pf_error option" where
  "batch_fn B found idx data = fst (verify_keys B data (group_at found idx))"

definition batch_stores :: "'bm roaring \<Rightarrow> foundKey list \<Rightarrow> (nat \<times> bytes) list \<Rightarrow> (nat \<times> 'bm) list" where
  "batch_stores B found called = concat (map (\<lambda>(idx, data). snd (verify_keys B data (group_at found idx))) called)"

text \<open>
  The states of a call: before the sort by rank, while ReadItems runs, and after it has
  returned or panicked. A worker of ReadItems that panics leaves the call in a state
  without a step.
\<close>

datatype 'bm lookup_state =
    Sorting "foundKey list"
  | Reading "foundKey list" items_env items_state
  | Answered "ix_error + 'bm option list"
  | LookupPanicked pf_error

definition LookupKeys_begin ::
  "('b, 'idx) streamhash \<Rightarrow> 'idx BitmapReader \<Rightarrow> FieldKey list \<Rightarrow> 'bm lookup_state" where
  "LookupKeys_begin S r keys =
    (if keys = [] then Answered (Inr [])
     else case brMphf r of
       Inl e \<Rightarrow> Answered (Inl e)
     | Inr mphf \<Rightarrow>
         (case query_keys S mphf 0 keys of
            Inl e \<Rightarrow> Answered (Inl e)
          | Inr found \<Rightarrow>
              if found = [] then Answered (Inr (replicate (length keys) None)) else Sorting found))"

definition LookupKeys_read ::
  "os_env \<Rightarrow> libzstd \<Rightarrow> 'bm roaring \<Rightarrow> 'idx BitmapReader \<Rightarrow> pf_error option \<Rightarrow> FieldKey list
    \<Rightarrow> foundKey list \<Rightarrow> 'bm lookup_state" where
  "LookupKeys_read env z B r ctxErr keys found =
    (case ReadItems_start env z (brPf r) ctxErr (group_indices found) (batch_fn B found) of
       Inl None \<Rightarrow> Answered (Inr (replicate (length keys) None))
     | Inl (Some e) \<Rightarrow> if is_panic e then LookupPanicked e else Answered (Inl (IxErr e))
     | Inr (E, st) \<Rightarrow> Reading found E st)"

definition LookupKeys_result ::
  "'bm roaring \<Rightarrow> FieldKey list \<Rightarrow> foundKey list \<Rightarrow> items_state \<Rightarrow> ix_error + 'bm option list" where
  "LookupKeys_result B keys found st =
    (case firstErr st of
       Some e \<Rightarrow> Inl (IxErr e)
     | None \<Rightarrow> Inr (store_bitmaps (length keys) (batch_stores B found (fnCalls st))))"

text \<open>
  The sort by rank is not stable: any order of the found keys that is sorted by rank may
  come out. Then any worker of ReadItems may take the next step, until all have returned.
  \<open>ctxErr\<close> and \<open>polls\<close> are what the context reports.
\<close>

inductive lookup_step ::
  "os_env \<Rightarrow> libzstd \<Rightarrow> 'bm roaring \<Rightarrow> 'idx BitmapReader \<Rightarrow> pf_error option \<Rightarrow> pf_error option set
    \<Rightarrow> FieldKey list \<Rightarrow> 'bm lookup_state \<Rightarrow> 'bm lookup_state \<Rightarrow> bool"
  for env z B r ctxErr polls keys where
  sort: "mset found' = mset found \<Longrightarrow> sorted (map fkRank found') \<Longrightarrow>
    lookup_step env z B r ctxErr polls keys (Sorting found) (LookupKeys_read env z B r ctxErr keys found')"
| read: "items_step E polls st st' \<Longrightarrow>
    lookup_step env z B r ctxErr polls keys (Reading found E st) (Reading found E st')"
| return': "items_done st \<Longrightarrow>
    lookup_step env z B r ctxErr polls keys (Reading found E st) (Answered (LookupKeys_result B keys found st))"

inductive_cases lookup_stepE [elim!]:
  "lookup_step env z B r ctxErr polls keys (Sorting found) s"
  "lookup_step env z B r ctxErr polls keys (Reading found E st) s"
  "lookup_step env z B r ctxErr polls keys (Answered res) s"
  "lookup_step env z B r ctxErr polls keys (LookupPanicked e) s"

definition lookup_reachable ::
  "os_env \<Rightarrow> libzstd \<Rightarrow> ('b, 'idx) streamhash \<Rightarrow> 'bm roaring \<Rightarrow> 'idx BitmapReader \<Rightarrow> pf_error option
    \<Rightarrow> pf_error option set \<Rightarrow> FieldKey list \<Rightarrow> 'bm lookup_state \<Rightarrow> bool" where
  "lookup_reachable env z S B r ctxErr polls keys =
    (lookup_step env z B r ctxErr polls keys)\<^sup>*\<^sup>* (LookupKeys_begin S r keys)"

text \<open>The results of the calls that return.\<close>

definition LookupKeys ::
  "os_env \<Rightarrow> libzstd \<Rightarrow> ('b, 'idx) streamhash \<Rightarrow> 'bm roaring \<Rightarrow> 'idx BitmapReader \<Rightarrow> pf_error option
    \<Rightarrow> pf_error option set \<Rightarrow> FieldKey list \<Rightarrow> ix_error + 'bm option list \<Rightarrow> bool" where
  "LookupKeys env z S B r ctxErr polls keys res \<longleftrightarrow> lookup_reachable env z S B r ctxErr polls keys (Answered res)"

subsection \<open>No run is infinite\<close>

definition lookup_rank :: "'bm lookup_state \<Rightarrow> nat \<times> nat" where
  "lookup_rank s =
    (case s of Sorting found \<Rightarrow> (1, 0) | Reading found E st \<Rightarrow> (0, Suc (items_measure E st)) | _ \<Rightarrow> (0, 0))"

lemma lookup_rank_read: "fst (lookup_rank (LookupKeys_read env z B r ctxErr keys found)) = 0"
  by (simp add: LookupKeys_read_def lookup_rank_def split: sum.split option.split prod.split)

lemma lookup_step_rank:
  assumes "lookup_step env z B r ctxErr polls keys s s'"
  shows "(lookup_rank s', lookup_rank s) \<in> less_than <*lex*> less_than"
  using assms
proof cases
  case (sort found' found)
  then show ?thesis
    using lookup_rank_read [of env z B r ctxErr keys found'] by (cases "lookup_rank s'") (simp add: lookup_rank_def)
next
  case (read E st st' found)
  with items_step_measure [OF read(3)] show ?thesis by (simp add: lookup_rank_def)
qed (simp add: lookup_rank_def)

lemma lookup_step_wf: "wf {(s', s). lookup_step env z B r ctxErr polls keys s s'}"
proof (rule wf_subset)
  show "wf (inv_image (less_than <*lex*> less_than) lookup_rank)"
    by (intro wf_inv_image wf_lex_prod wf_less_than)
qed (use lookup_step_rank in \<open>fastforce simp: inv_image_def\<close>)

lemma lookup_no_infinite_run:
  "\<not> (\<exists>run. run 0 = s \<and> (\<forall>i. lookup_step env z B r ctxErr polls keys (run i) (run (Suc i))))"
proof
  assume "\<exists>run. run 0 = s \<and> (\<forall>i. lookup_step env z B r ctxErr polls keys (run i) (run (Suc i)))"
  then have "\<exists>run. \<forall>i. (run (Suc i), run i) \<in> {(s', s). lookup_step env z B r ctxErr polls keys s s'}" by auto
  then show False using lookup_step_wf [of env z B r ctxErr polls keys] by (simp add: wf_iff_no_infinite_down_chain)
qed

subsection \<open>What runs look like\<close>

text \<open>After the sort the call follows the workers of ReadItems and returns what they found.\<close>

definition lookup_follows ::
  "os_env \<Rightarrow> libzstd \<Rightarrow> 'bm roaring \<Rightarrow> 'idx BitmapReader \<Rightarrow> pf_error option \<Rightarrow> pf_error option set
    \<Rightarrow> FieldKey list \<Rightarrow> foundKey list \<Rightarrow> 'bm lookup_state \<Rightarrow> bool" where
  "lookup_follows env z B r ctxErr polls keys found s \<longleftrightarrow>
    s = LookupKeys_read env z B r ctxErr keys found \<or>
    (\<exists>E st0 st. ReadItems_start env z (brPf r) ctxErr (group_indices found) (batch_fn B found) = Inr (E, st0) \<and>
      items_reachable E polls st0 st \<and>
      (s = Reading found E st \<or> items_done st \<and> s = Answered (LookupKeys_result B keys found st)))"

lemma lookup_follows_step:
  assumes "lookup_step env z B r ctxErr polls keys s s'" "lookup_follows env z B r ctxErr polls keys found s"
  shows "lookup_follows env z B r ctxErr polls keys found s'"
proof -
  consider "s = LookupKeys_read env z B r ctxErr keys found"
    | E st0 st where "ReadItems_start env z (brPf r) ctxErr (group_indices found) (batch_fn B found) = Inr (E, st0)"
      "items_reachable E polls st0 st" "s = Reading found E st \<or> s = Answered (LookupKeys_result B keys found st)"
    using assms(2) unfolding lookup_follows_def by blast
  then show ?thesis
  proof cases
    case 1
    then obtain E st0 where
      E: "ReadItems_start env z (brPf r) ctxErr (group_indices found) (batch_fn B found) = Inr (E, st0)"
      "s = Reading found E st0"
      using assms(1) by (auto simp: LookupKeys_read_def split: sum.splits option.splits if_splits)
    have "items_reachable E polls st0 st0" by (simp add: items_reachable_def)
    moreover have "items_reachable E polls st0 st'" if "items_step E polls st0 st'" for st'
      using that by (auto simp: items_reachable_def)
    ultimately show ?thesis using assms(1) E unfolding lookup_follows_def by auto
  next
    case 2
    have "items_reachable E polls st0 st'" if "items_step E polls st st'" for st'
      using that 2(2) unfolding items_reachable_def by (rule rtranclp.rtrancl_into_rtrancl [rotated])
    with 2 assms(1) show ?thesis unfolding lookup_follows_def by auto
  qed
qed

lemma lookup_reachable_cases:
  fixes B :: "'bm roaring"
  assumes "lookup_reachable env z S B r ctxErr polls keys s"
  obtains (begin') "s = LookupKeys_begin S r keys"
  | (sorted) found0 found where "LookupKeys_begin S r keys = (Sorting found0 :: 'bm lookup_state)"
    "mset found = mset found0" "sorted (map fkRank found)" "lookup_follows env z B r ctxErr polls keys found s"
proof -
  have "s = LookupKeys_begin S r keys \<or> (\<exists>found0 found. LookupKeys_begin S r keys = (Sorting found0 :: 'bm lookup_state) \<and>
      mset found = mset found0 \<and> sorted (map fkRank found) \<and> lookup_follows env z B r ctxErr polls keys found s)"
    using assms unfolding lookup_reachable_def
  proof (induction rule: rtranclp_induct)
    case (step s s')
    show ?case
    proof (cases "\<exists>found0 found. LookupKeys_begin S r keys = (Sorting found0 :: 'bm lookup_state) \<and>
      mset found = mset found0 \<and> sorted (map fkRank found) \<and> lookup_follows env z B r ctxErr polls keys found s")
      case True
      then show ?thesis using lookup_follows_step [OF step(2)] by blast
    next
      case False
      then have s: "s = LookupKeys_begin S r keys" using step.IH by blast
      then obtain found0 where f: "s = (Sorting found0 :: 'bm lookup_state)"
        using step(2) by (auto simp: LookupKeys_begin_def split: sum.splits if_splits)
      then obtain found where "mset found = mset found0" "sorted (map fkRank found)"
        "s' = LookupKeys_read env z B r ctxErr keys found"
        using step(2) by blast
      moreover from this have "lookup_follows env z B r ctxErr polls keys found s'" by (simp add: lookup_follows_def)
      moreover have "LookupKeys_begin S r keys = (Sorting found0 :: 'bm lookup_state)" using s f by simp
      ultimately show ?thesis by blast
    qed
  qed simp
  then show thesis using begin' sorted by blast
qed

section \<open>Other methods\<close>

definition Bitmap_ContentHash :: "'idx BitmapReader \<Rightarrow> pf_error + bytes \<times> bool" where
  "Bitmap_ContentHash r = Reader_ContentHash (brPf r)"

definition Bitmap_Verify ::
  "os_env \<Rightarrow> libzstd \<Rightarrow> decoder option \<Rightarrow> 'idx BitmapReader \<Rightarrow> (nat \<Rightarrow> pf_error option)
    \<Rightarrow> pf_error option \<times> decoder option" where
  "Bitmap_Verify env z pool r ctx = Verify env z pool (brPf r) ctx"

definition Bitmap_Close ::
  "os_env \<Rightarrow> ('b, 'idx) streamhash \<Rightarrow> 'idx BitmapReader \<Rightarrow> ix_error list \<times> 'idx BitmapReader" where
  "Bitmap_Close env S r =
    (case brClosed r of
       Some errs \<Rightarrow> (errs, r)
     | None \<Rightarrow>
         let closeErr = (case brMphf r of
               Inl e \<Rightarrow> []
             | Inr idx \<Rightarrow> (case Mphf_Close S idx of None \<Rightarrow> [] | Some e \<Rightarrow> [IxErr (ErrPlain e)]));
             (pfErr, p) = Reader_Close env (brPf r);
             errs = closeErr @ (case pfErr of None \<Rightarrow> [] | Some e \<Rightarrow> [IxErr e])
         in (errs, r\<lparr>brPf := p, brClosed := Some errs\<rparr>))"

section \<open>The index keeps its contract\<close>

text \<open>
  The answer for a hashed key: the bitmap of the item of its rank, if the fingerprint fits.
\<close>

definition slot_result ::
  "'bm roaring \<Rightarrow> (bytes \<Rightarrow> query_error + uint64) \<Rightarrow> bytes list \<Rightarrow> bytes \<Rightarrow> 'bm option" where
  "slot_result B q items hk =
    (case q hk of
       Inl e \<Rightarrow> None
     | Inr rank \<Rightarrow> (case verifyAndDeserialize B (items ! unat rank) hk of Inl e \<Rightarrow> None | Inr bm \<Rightarrow> Some bm))"

text \<open>
  The items of the packfile by rank: each is the fingerprint of a key of \<open>m\<close> and a
  serialization of its bitmap.
\<close>

definition index_items ::
  "'bm roaring \<Rightarrow> ('bm \<Rightarrow> uint32 set) \<Rightarrow> (bytes \<times> 'bm) list \<Rightarrow> (bytes \<Rightarrow> query_error + uint64) \<Rightarrow> bytes list \<Rightarrow> bool" where
  "index_items B members m q items \<longleftrightarrow> length items = length m \<and> perfect_on (map fst m) q \<and>
    (\<forall>(hk, bm) \<in> set m. \<exists>r raw bm'. q hk = Inr r \<and> unat r < length items \<and> items ! unat r = take 4 hk @ raw \<and>
      UnmarshalBinary B raw = Inr bm' \<and> members bm' = members bm) \<and>
    (\<forall>j < length items. \<exists>(hk, bm) \<in> set m. \<exists>r. q hk = Inr r \<and> unat r = j)"

definition index_holds ::
  "os_env \<Rightarrow> libzstd \<Rightarrow> ('b, 'idx) streamhash \<Rightarrow> 'bm roaring \<Rightarrow> ('bm \<Rightarrow> uint32 set)
    \<Rightarrow> decoder option \<times> 'idx BitmapReader \<Rightarrow> (Field \<Rightarrow> bytes \<Rightarrow> uint32 set) \<Rightarrow> bool" where
  "index_holds env z S B members = (\<lambda>(pool, r) ix. pool_ok pool \<and> 1 \<le> rconcurrency (brPf r) \<and>
    (\<forall>k. length (PreHash S k) = 16) \<and>
    (\<exists>idx o' items m T. brMphf r = Inr idx \<and> readable env z (brPf r) o' items \<and> length items < 2 ^ 32 \<and>
      index_items B members m (Query S idx) items \<and> (\<forall>(hk, bm) \<in> set m. length hk = 16) \<and>
      bitmaps_of members m T \<and>
      (\<forall>f k. ix f k = T (hash_key S f k)) \<and> (\<forall>hk. T hk \<noteq> {} \<longrightarrow> (\<exists>f k. hk = hash_key S f k))))"

lemma fingerprint_eq:
  assumes "length hk = 16" "length hk' = 16"
  shows "take 4 hk = take 4 (hk' :: 'a list) \<longleftrightarrow> hk ! 0 = hk' ! 0 \<and> hk ! 1 = hk' ! 1 \<and> hk ! 2 = hk' ! 2 \<and> hk ! 3 = hk' ! 3"
proof -
  have "take 4 xs = [xs ! 0, xs ! 1, xs ! 2, xs ! 3]" if "length xs = 16" for xs :: "'a list"
    using that by (intro nth_equalityI) (auto simp: less_Suc_eq numeral_eq_Suc)
  from this [OF assms(1)] this [OF assms(2)] show ?thesis by simp
qed

lemma index_itemsD:
  assumes "index_items B members m q items"
  shows "perfect_on (map fst m) q" "length items = length m"
    "(hk, bm) \<in> set m \<Longrightarrow> \<exists>r raw bm'. q hk = Inr r \<and> unat r < length items \<and> items ! unat r = take 4 hk @ raw \<and>
      UnmarshalBinary B raw = Inr bm' \<and> members bm' = members bm"
    "j < length items \<Longrightarrow> \<exists>hk bm r. (hk, bm) \<in> set m \<and> q hk = Inr r \<and> unat r = j"
proof -
  note a = assms [unfolded index_items_def]
  show "perfect_on (map fst m) q" "length items = length m" using a by simp_all
  show "(hk, bm) \<in> set m \<Longrightarrow> \<exists>r raw bm'. q hk = Inr r \<and> unat r < length items \<and> items ! unat r = take 4 hk @ raw \<and>
      UnmarshalBinary B raw = Inr bm' \<and> members bm' = members bm"
    using bspec [OF conjunct1 [OF conjunct2 [OF conjunct2 [OF a]]], of "(hk, bm)"] by simp
  show "j < length items \<Longrightarrow> \<exists>hk bm r. (hk, bm) \<in> set m \<and> q hk = Inr r \<and> unat r = j"
    using conjunct2 [OF conjunct2 [OF conjunct2 [OF a]]] by blast
qed

lemma bitmaps_ofD:
  assumes "bitmaps_of members m T"
  shows "(hk, bm) \<in> set m \<Longrightarrow> members bm = T hk \<and> T hk \<noteq> {}"
    "T hk \<noteq> {} \<Longrightarrow> \<exists>bm. (hk, bm) \<in> set m \<and> members bm = T hk"
    "(hk, bm) \<in> set m \<Longrightarrow> (hk, bm') \<in> set m \<Longrightarrow> bm' = bm"
proof -
  have d: "distinct (map fst m)"
    and v: "case map_of m hk of None \<Rightarrow> T hk = {} | Some bm \<Rightarrow> members bm = T hk \<and> T hk \<noteq> {}"
    using assms by (simp_all add: bitmaps_of_def)
  show "(hk, bm) \<in> set m \<Longrightarrow> members bm = T hk \<and> T hk \<noteq> {}" using v d by simp
  show "T hk \<noteq> {} \<Longrightarrow> \<exists>bm. (hk, bm) \<in> set m \<and> members bm = T hk"
    using v by (cases "map_of m hk") (auto dest: map_of_SomeD)
  show "(hk, bm) \<in> set m \<Longrightarrow> (hk, bm') \<in> set m \<Longrightarrow> bm' = bm"
    using d by (metis map_of_eq_Some_iff option.inject)
qed

lemma verify_entry:
  assumes "length hk = 16" "length hk' = 16"
  shows "verifyAndDeserialize B (take 4 hk' @ raw) hk =
    (if take 4 hk = take 4 hk'
     then case UnmarshalBinary B raw of Inl e \<Rightarrow> Inl (ErrPlain (''bitmapindex: deserialize bitmap: '' @ e)) | Inr bm \<Rightarrow> Inr bm
     else Inl ErrKeyNotFound)"
  using assms by (auto simp: verifyAndDeserialize_def fingerprintSize_def fingerprint_eq nth_append)

text \<open>Any rank the MPHF returns belongs to a key of the index, which decides the answer.\<close>

lemma slot_owner:
  assumes "index_items B members m q items" "\<forall>(hk, bm) \<in> set m. length hk = 16" "length hk = 16" "q hk = Inr r"
  obtains hk' bm bm' where "(hk', bm) \<in> set m" "q hk' = Inr r" "unat r < length items" "members bm' = members bm"
    "verifyAndDeserialize B (items ! unat r) hk = (if take 4 hk = take 4 hk' then Inr bm' else Inl ErrKeyNotFound)"
proof -
  note ix = index_itemsD [OF assms(1)]
  have r: "unat r < length items" using ix(1,2) assms(4) by (simp add: perfect_on_def)
  then obtain hk' bm r' where o': "(hk', bm) \<in> set m" "q hk' = Inr r'" "unat r' = unat r" using ix(4) by blast
  then have eq: "r' = r" by (simp add: word_unat_eq_iff)
  obtain raw bm' where e: "items ! unat r = take 4 hk' @ raw" "UnmarshalBinary B raw = Inr bm'" "members bm' = members bm"
    using ix(3) [OF o'(1)] o'(2) eq by auto
  have "length hk' = 16" using assms(2) o'(1) by auto
  from verify_entry [OF assms(3) this, of B raw] e have
    "verifyAndDeserialize B (items ! unat r) hk = (if take 4 hk = take 4 hk' then Inr bm' else Inl ErrKeyNotFound)" by simp
  with o'(1,2) eq r e(3) show thesis by (intro that) simp_all
qed

lemma slot_result_indexed:
  assumes "index_items B members m q items" "\<forall>(hk, bm) \<in> set m. length hk = 16" "bitmaps_of members m T"
    "length hk = 16" "T hk \<noteq> {}"
  shows "\<exists>bm. slot_result B q items hk = Some bm \<and> members bm = T hk"
proof -
  obtain bm where bm: "(hk, bm) \<in> set m" "members bm = T hk" using bitmaps_ofD(2) [OF assms(3,5)] by blast
  note perfect = index_itemsD(1) [OF assms(1)]
  have hk: "hk \<in> set (map fst m)" using bm(1) by force
  then obtain r where r: "q hk = Inr r" using perfect unfolding perfect_on_def by blast
  show ?thesis
  proof (rule slot_owner [OF assms(1,2,4) r])
    fix hk' bm1 bm'
    assume o': "(hk', bm1) \<in> set m" "q hk' = Inr r" "members bm' = members bm1"
      "verifyAndDeserialize B (items ! unat r) hk = (if take 4 hk = take 4 hk' then Inr bm' else Inl ErrKeyNotFound)"
    have "hk' \<in> set (map fst m)" using o'(1) by force
    moreover have "inj_on q (set (map fst m))" using perfect by (simp add: perfect_on_def)
    ultimately have eq: "hk' = hk" using hk r o'(2) by (metis inj_onD)
    then have "bm1 = bm" using bitmaps_ofD(3) [OF assms(3) bm(1)] o'(1) by simp
    then show ?thesis using r o'(3,4) bm(2) eq by (simp add: slot_result_def)
  qed
qed

text \<open>A key without events is not found, or shares the fingerprint of the key whose rank it was given.\<close>

lemma slot_result_Some:
  assumes "index_items B members m q items" "\<forall>(hk, bm) \<in> set m. length hk = 16" "bitmaps_of members m T"
    "length hk = 16" "slot_result B q items hk = Some bm"
  shows "\<exists>hk'. members bm = T hk' \<and> T hk' \<noteq> {} \<and> take 4 hk' = take 4 hk"
proof -
  from assms(5) obtain r where r: "q hk = Inr r" by (auto simp: slot_result_def split: sum.splits)
  show ?thesis
  proof (rule slot_owner [OF assms(1,2,4) r])
    fix hk' bm1 bm'
    assume o': "(hk', bm1) \<in> set m" "members bm' = members bm1"
      "verifyAndDeserialize B (items ! unat r) hk = (if take 4 hk = take 4 hk' then Inr bm' else Inl ErrKeyNotFound)"
    have "bm = bm' \<and> take 4 hk = take 4 hk'"
      using r o'(3) assms(5) by (simp add: slot_result_def split: if_splits)
    then show ?thesis using bitmaps_ofD(1) [OF assms(3) o'(1)] o'(2) by auto
  qed
qed

lemma Lookup_slot:
  assumes "pool_ok pool" "readable env z (brPf r) o' items" "length items < 2 ^ 32" "brMphf r = Inr idx"
    "\<forall>k. length (PreHash S k) = 16"
    "index_items B members m (Query S idx) items" "\<forall>(hk, bm) \<in> set m. length hk = 16"
  shows "fst (Lookup env z S B pool r f key) =
    (case slot_result B (Query S idx) items (hash_key S f key) of
       None \<Rightarrow> Inl (IxErr ErrKeyNotFound) | Some bm \<Rightarrow> Inr (Some bm))"
proof (cases "Query S idx (hash_key S f key)")
  case (Inl e)
  then have "e = NotFound" using assms(6) by (simp add: index_items_def perfect_on_def)
  then show ?thesis using Inl assms(4) by (simp add: Lookup_def slot_result_def)
next
  case (Inr rank)
  have hk: "length (hash_key S f key) = 16" using assms(5) by simp
  show ?thesis
  proof (rule slot_owner [OF assms(6,7) hk Inr])
    fix hk' bm bm'
    assume o': "unat rank < length items"
      "verifyAndDeserialize B (items ! unat rank) (hash_key S f key) =
        (if take 4 (hash_key S f key) = take 4 hk' then Inr bm' else Inl ErrKeyNotFound)"
    have "unat rank < 2 ^ 63" using o'(1) assms(3) by simp
    then have pos: "sint rank = int (unat rank)" by (rule sint_unat)
    from ReadItem_stored [OF assms(2,1) o'(1), of "lookup_item B (hash_key S f key)" None] obtain pool' where
      "ReadItem env z pool (brPf r) (sint rank) (lookup_item B (hash_key S f key)) None =
        (fst (lookup_item B (hash_key S f key) (items ! unat rank) None), pool',
         snd (lookup_item B (hash_key S f key) (items ! unat rank) None))"
      by (auto simp: pos)
    then show ?thesis
      using Inr assms(4) o'(2) by (simp add: Lookup_def slot_result_def lookup_item_def)
  qed
qed

subsection \<open>Groups of equal rank\<close>

definition group_end :: "foundKey list \<Rightarrow> nat \<Rightarrow> nat" where
  "group_end found idx =
    (if idx + 1 < length (group_starts found) then group_starts found ! (idx + 1) else length found)"

lemma group_starts_sorted: "sorted_wrt (<) (group_starts found)"
  unfolding group_starts_def by (rule sorted_wrt_filter) simp

lemma set_group_starts:
  "i \<in> set (group_starts found) \<longleftrightarrow> i < length found \<and> (i = 0 \<or> fkRank (found ! i) \<noteq> fkRank (found ! (i - 1)))"
  by (auto simp: group_starts_def)

lemma group_start_less: "idx < length (group_starts found) \<Longrightarrow> group_starts found ! idx < length found"
  using nth_mem [of idx "group_starts found"] by (simp add: set_group_starts)

lemma group_starts_mono: "i < j \<Longrightarrow> j < length (group_starts found) \<Longrightarrow> group_starts found ! i < group_starts found ! j"
  using group_starts_sorted [of found] by (simp add: sorted_wrt_iff_nth_less)

lemma group_end_bounds:
  "idx < length (group_starts found) \<Longrightarrow> group_starts found ! idx < group_end found idx \<and> group_end found idx \<le> length found"
  using group_starts_mono [of idx "idx + 1" found] group_start_less [of "idx + 1" found] group_start_less [of idx found]
  by (auto simp: group_end_def)

lemma set_slice: "b \<le> length xs \<Longrightarrow> set (slice xs a b) = {xs ! i | i. a \<le> i \<and> i < b}"
proof -
  assume b: "b \<le> length xs"
  have "set (slice xs a b) = (!) (slice xs a b) ` {..<b - a}"
    using b by (auto simp: set_conv_nth length_slice)
  also have "\<dots> = {xs ! i | i. a \<le> i \<and> i < b}"
  proof (intro equalityI subsetI)
    fix x assume "x \<in> {xs ! i | i. a \<le> i \<and> i < b}"
    then obtain i where "x = xs ! i" "a \<le> i" "i < b" by blast
    then have "x = slice xs a b ! (i - a)" "i - a < b - a" using b by (simp_all add: slice_def)
    then show "x \<in> (!) (slice xs a b) ` {..<b - a}" by blast
  qed (use b in \<open>force simp: slice_def\<close>)
  finally show ?thesis .
qed

lemma set_group_at:
  "idx < length (group_starts found) \<Longrightarrow>
    set (group_at found idx) = {found ! i | i. group_starts found ! idx \<le> i \<and> i < group_end found idx}"
  using group_end_bounds [of idx found] set_slice [of "group_end found idx" found "group_starts found ! idx"]
  by (simp add: group_at_def group_end_def Let_def)

lemma group_same_rank:
  assumes "idx < length (group_starts found)" "k \<in> set (group_at found idx)"
  shows "fkRank k = fkRank (found ! (group_starts found ! idx))"
proof -
  let ?gs = "group_starts found"
  have "fkRank (found ! i) = fkRank (found ! (?gs ! idx))" if "?gs ! idx \<le> i" "i < group_end found idx" for i
    using that
  proof (induction i rule: dec_induct)
    case (step i)
    have "Suc i \<notin> set ?gs"
    proof
      assume "Suc i \<in> set ?gs"
      then obtain j where j: "j < length ?gs" "?gs ! j = Suc i" by (auto simp: in_set_conv_nth)
      then have "idx < j"
        using step.hyps(1) group_starts_mono [of j idx found] assms(1) by (cases j idx rule: linorder_cases) auto
      then have "group_end found idx \<le> Suc i"
        using j group_starts_mono [of "idx + 1" j found] by (cases "idx + 1 = j") (auto simp: group_end_def)
      then show False using step.prems by simp
    qed
    moreover have "Suc i < length found" using step.prems group_end_bounds [OF assms(1)] by simp
    ultimately have "fkRank (found ! Suc i) = fkRank (found ! i)" by (simp add: set_group_starts)
    then show ?case using step by simp
  qed simp
  then show ?thesis using assms by (auto simp: set_group_at)
qed

lemma group_cover:
  assumes "i < length found"
  shows "\<exists>idx < length (group_starts found). group_starts found ! idx \<le> i \<and> i < group_end found idx"
  using assms
proof (induction i)
  case 0
  then have "0 \<in> set (group_starts found)" by (simp add: set_group_starts)
  then obtain idx where "idx < length (group_starts found)" "group_starts found ! idx = 0" by (auto simp: in_set_conv_nth)
  then show ?case using group_end_bounds [of idx found] by auto
next
  case (Suc i)
  then obtain idx where idx: "idx < length (group_starts found)" "group_starts found ! idx \<le> i" "i < group_end found idx"
    by auto
  show ?case
  proof (cases "Suc i < group_end found idx")
    case False
    then have e: "group_end found idx = Suc i" using idx(3) by simp
    then have n: "idx + 1 < length (group_starts found)" "group_starts found ! (idx + 1) = Suc i"
      using Suc.prems by (auto simp: group_end_def split: if_splits)
    then show ?thesis using group_end_bounds [OF n(1)] by auto
  qed (use idx in auto)
qed

lemma set_groups: "(\<Union>idx < length (group_starts found). set (group_at found idx)) = set found"
proof (intro equalityI subsetI)
  fix k assume "k \<in> set found"
  then obtain i where "i < length found" "k = found ! i" by (auto simp: in_set_conv_nth)
  then show "k \<in> (\<Union>idx < length (group_starts found). set (group_at found idx))"
    using group_cover [of i found] set_group_at by blast
next
  fix k assume "k \<in> (\<Union>idx < length (group_starts found). set (group_at found idx))"
  then obtain idx i where "idx < length (group_starts found)" "k = found ! i" "i < group_end found idx"
    using set_group_at by fastforce
  then show "k \<in> set found" using group_end_bounds [of idx found] by auto
qed

lemma group_indices_ok:
  assumes "sorted (map fkRank found)" "\<forall>k \<in> set found. unat (fkRank k) < n" "n < 2 ^ 63"
  shows "sorted_wrt (<) (group_indices found)" "\<forall>p \<in> set (group_indices found). 0 \<le> p \<and> p < int n"
    "idx < length (group_starts found) \<Longrightarrow>
      nat (group_indices found ! idx) = unat (fkRank (found ! (group_starts found ! idx)))"
proof -
  let ?gs = "group_starts found" let ?r = "\<lambda>i. fkRank (found ! i)"
  have r: "sint (?r i) = int (unat (?r i))" "unat (?r i) < n" if "i < length found" for i
  proof -
    show "unat (?r i) < n" using assms(2) that by simp
    then have "unat (?r i) < 2 ^ 63" using assms(3) by (rule less_trans)
    then show "sint (?r i) = int (unat (?r i))" by (rule sint_unat)
  qed
  have mono: "?r i \<le> ?r j" if "i \<le> j" "j < length found" for i j
    using sorted_nth_mono [OF assms(1), of i j] that by simp
  have "?r (?gs ! i) < ?r (?gs ! j)" if "i < j" "j < length ?gs" for i j
  proof -
    have lt: "?gs ! i < ?gs ! j" "?gs ! j < length found" by (rule group_starts_mono [OF that], rule group_start_less [OF that(2)])
    moreover have "?r (?gs ! j) \<noteq> ?r (?gs ! j - 1)"
      using set_group_starts [of "?gs ! j" found] that(2) lt(1) by auto
    ultimately show ?thesis
      using mono [of "?gs ! i" "?gs ! j - 1"] mono [of "?gs ! j - 1" "?gs ! j"] by fastforce
  qed
  then have "sint (?r (?gs ! i)) < sint (?r (?gs ! j))" if "i < j" "j < length ?gs" for i j
    using that group_start_less [of i found] group_start_less [of j found]
    by (simp only: r of_nat_less_iff word_less_nat_alt)
  then show "sorted_wrt (<) (group_indices found)"
    by (simp add: group_indices_def sorted_wrt_iff_nth_less)
  show "\<forall>p \<in> set (group_indices found). 0 \<le> p \<and> p < int n"
  proof
    fix p assume "p \<in> set (group_indices found)"
    then obtain i where "i \<in> set ?gs" "p = sint (?r i)" by (auto simp: group_indices_def)
    then have i: "i < length found" "p = sint (?r i)" by (simp_all add: set_group_starts)
    show "0 \<le> p \<and> p < int n"
      unfolding i(2) r(1) [OF i(1)] using r(2) [OF i(1)] by (simp only: of_nat_0_le_iff of_nat_less_iff)
  qed
  show "idx < length ?gs \<Longrightarrow> nat (group_indices found ! idx) = unat (fkRank (found ! (?gs ! idx)))"
    using group_start_less [of idx found] by (simp add: group_indices_def r)
qed

subsection \<open>A batch answers as single lookups do\<close>

lemma query_keys_found:
  assumes "\<And>k e. Query S mphf k = Inl e \<Longrightarrow> e = NotFound"
  shows "\<exists>found. query_keys S mphf i keys = Inr found \<and>
    (\<forall>k. k \<in> set found \<longleftrightarrow> (\<exists>j < length keys. fkOutIdx k = i + j \<and>
      fkHk k = hash_key S (fkField (keys ! j)) (fkKey (keys ! j)) \<and> Query S mphf (fkHk k) = Inr (fkRank k)))"
proof (induction keys arbitrary: i)
  case (Cons key keys)
  let ?hk = "hash_key S (fkField key) (fkKey key)"
  from Cons.IH [of "Suc i"] obtain found where found: "query_keys S mphf (Suc i) keys = Inr found"
    "\<And>k. k \<in> set found \<longleftrightarrow> (\<exists>j < length keys. fkOutIdx k = Suc i + j \<and>
      fkHk k = hash_key S (fkField (keys ! j)) (fkKey (keys ! j)) \<and> Query S mphf (fkHk k) = Inr (fkRank k))"
    by blast
  let ?P = "\<lambda>keys i k j. fkOutIdx k = i + j \<and> fkHk k = hash_key S (fkField (keys ! j)) (fkKey (keys ! j)) \<and>
    Query S mphf (fkHk k) = Inr (fkRank k)"
  have ex: "(\<exists>j < length (key # keys). ?P (key # keys) i k j) \<longleftrightarrow>
      ?P (key # keys) i k 0 \<or> (\<exists>j < length keys. ?P keys (Suc i) k j)" for k
    by (auto simp: less_Suc_eq_0_disj)
  show ?case
  proof (cases "Query S mphf ?hk")
    case (Inl e)
    then have "query_keys S mphf i (key # keys) = Inr found"
      using found(1) assms [OF Inl] by (simp add: Let_def)
    moreover have "\<not> ?P (key # keys) i k 0" for k using Inl by auto
    ultimately have "query_keys S mphf i (key # keys) = Inr found \<and>
        (\<forall>k. k \<in> set found \<longleftrightarrow> (\<exists>j < length (key # keys). ?P (key # keys) i k j))"
      unfolding ex using found(2) by blast
    then show ?thesis by blast
  next
    case (Inr rank)
    let ?k = "\<lparr>fkOutIdx = i, fkHk = ?hk, fkRank = rank\<rparr>"
    have "query_keys S mphf i (key # keys) = Inr (?k # found)"
      using found(1) Inr by (simp add: Let_def)
    moreover have "k = ?k \<longleftrightarrow> ?P (key # keys) i k 0" for k
      using Inr by (cases k) auto
    ultimately have "query_keys S mphf i (key # keys) = Inr (?k # found) \<and>
        (\<forall>k. k \<in> set (?k # found) \<longleftrightarrow> (\<exists>j < length (key # keys). ?P (key # keys) i k j))"
      unfolding ex list.set insert_iff using found(2) by blast
    then show ?thesis by blast
  qed
qed simp

lemma verify_keys_stores:
  "(\<And>k e. k \<in> set ks \<Longrightarrow> verifyAndDeserialize B data (fkHk k) = Inl e \<Longrightarrow> e = ErrKeyNotFound) \<Longrightarrow>
    fst (verify_keys B data ks) = None \<and>
    set (snd (verify_keys B data ks)) =
      {(fkOutIdx k, bm) | k bm. k \<in> set ks \<and> verifyAndDeserialize B data (fkHk k) = Inr bm}"
proof (induction ks)
  case (Cons k ks)
  then have ih: "fst (verify_keys B data ks) = None" "set (snd (verify_keys B data ks)) =
      {(fkOutIdx k, bm) | k bm. k \<in> set ks \<and> verifyAndDeserialize B data (fkHk k) = Inr bm}" by auto
  show ?case
  proof (cases "verifyAndDeserialize B data (fkHk k)")
    case (Inl e)
    then have "e = ErrKeyNotFound" using Cons.prems [of k e] by simp
    then show ?thesis using ih Inl by auto
  next
    case (Inr bm)
    then show ?thesis using ih by (auto split: prod.splits)
  qed
qed simp

lemma store_bitmaps_eq:
  assumes "\<And>i b. (i, b) \<in> set stores \<Longrightarrow> f i = Some b"
    and "\<And>i b. i < n \<Longrightarrow> f i = Some b \<Longrightarrow> (i, b) \<in> set stores"
  shows "store_bitmaps n stores = map f [0..<n]"
proof -
  have "length (foldl (\<lambda>out (i, bm). out[i := Some bm]) out stores) = length out \<and>
    (\<forall>i < length out. foldl (\<lambda>out (i, bm). out[i := Some bm]) out stores ! i =
      (if i \<in> fst ` set stores then f i else out ! i))" for out
    using assms(1)
  proof (induction stores arbitrary: out)
    case (Cons s stores)
    obtain i b where s: "s = (i, b)" by (cases s)
    have f: "f i = Some b" using Cons.prems [of i b] by (simp add: s)
    have "length (foldl (\<lambda>out (i, bm). out[i := Some bm]) (out[i := Some b]) stores) = length (out[i := Some b]) \<and>
      (\<forall>k < length (out[i := Some b]). foldl (\<lambda>out (i, bm). out[i := Some bm]) (out[i := Some b]) stores ! k =
        (if k \<in> fst ` set stores then f k else out[i := Some b] ! k))"
      by (rule Cons.IH) (rule Cons.prems, simp)
    then show ?case using f by (auto simp: s nth_list_update)
  qed simp
  from this [of "replicate n None"] have "length (store_bitmaps n stores) = n"
    "\<And>i. i < n \<Longrightarrow> store_bitmaps n stores ! i = (if i \<in> fst ` set stores then f i else None)"
    by (simp_all add: store_bitmaps_def)
  moreover have "f i = None" if "i < n" "i \<notin> fst ` set stores" for i
    using assms(2) [of i] that by (cases "f i") force+
  ultimately show ?thesis by (intro nth_equalityI) auto
qed

text \<open>What the found keys are: the keys of the batch that the MPHF gives a rank.\<close>

definition found_keys ::
  "('b, 'idx) streamhash \<Rightarrow> (bytes \<Rightarrow> query_error + uint64) \<Rightarrow> FieldKey list \<Rightarrow> foundKey list \<Rightarrow> bool" where
  "found_keys S q keys found \<longleftrightarrow>
    (\<forall>k. k \<in> set found \<longleftrightarrow> (\<exists>j < length keys. fkOutIdx k = j \<and>
      fkHk k = hash_key S (fkField (keys ! j)) (fkKey (keys ! j)) \<and> q (fkHk k) = Inr (fkRank k)))"

definition bitmaps_at :: "'bm roaring \<Rightarrow> bytes list \<Rightarrow> foundKey list \<Rightarrow> (nat \<times> 'bm) set" where
  "bitmaps_at B items ks = {(fkOutIdx k, bm) | k bm. k \<in> set ks \<and>
    verifyAndDeserialize B (items ! unat (fkRank k)) (fkHk k) = Inr bm}"

lemma verify_found:
  assumes "index_items B members m q items" "\<forall>(hk, bm) \<in> set m. length hk = 16" "\<forall>k. length (PreHash S k) = 16"
    "found_keys S q keys found" "k \<in> set found"
  shows "verifyAndDeserialize B (items ! unat (fkRank k)) (fkHk k) = Inl e \<Longrightarrow> e = ErrKeyNotFound"
    "unat (fkRank k) < length items"
proof -
  from assms(3-5) have k: "length (fkHk k) = 16" "q (fkHk k) = Inr (fkRank k)" by (auto simp: found_keys_def)
  show "verifyAndDeserialize B (items ! unat (fkRank k)) (fkHk k) = Inl e \<Longrightarrow> e = ErrKeyNotFound"
    by (rule slot_owner [OF assms(1,2) k]) (auto split: if_splits)
  show "unat (fkRank k) < length items" by (rule slot_owner [OF assms(1,2) k])
qed

lemma bitmaps_at_slots:
  assumes "found_keys S q keys found" "set stores = bitmaps_at B items found"
  shows "store_bitmaps (length keys) stores =
    map (\<lambda>k. slot_result B q items (hash_key S (fkField k) (fkKey k))) keys"
proof -
  let ?f = "\<lambda>j. slot_result B q items (hash_key S (fkField (keys ! j)) (fkKey (keys ! j)))"
  have "store_bitmaps (length keys) stores = map ?f [0..<length keys]"
  proof (rule store_bitmaps_eq)
    fix i b assume "(i, b) \<in> set stores"
    then show "?f i = Some b"
      using assms by (auto simp: bitmaps_at_def found_keys_def slot_result_def)
  next
    fix i b assume i: "i < length keys" "?f i = Some b"
    then obtain rank where rank: "q (hash_key S (fkField (keys ! i)) (fkKey (keys ! i))) = Inr rank"
      "verifyAndDeserialize B (items ! unat rank) (hash_key S (fkField (keys ! i)) (fkKey (keys ! i))) = Inr b"
      by (auto simp: slot_result_def split: sum.splits)
    let ?k = "\<lparr>fkOutIdx = i, fkHk = hash_key S (fkField (keys ! i)) (fkKey (keys ! i)), fkRank = rank\<rparr>"
    have "?k \<in> set found" using assms(1) i(1) rank(1) by (simp add: found_keys_def)
    then show "(i, b) \<in> set stores"
      unfolding assms(2) bitmaps_at_def using rank(2) by (intro CollectI exI [of _ ?k] exI [of _ b]) simp
  qed
  also have "\<dots> = map (\<lambda>k. slot_result B q items (hash_key S (fkField k) (fkKey k))) keys"
    by (rule nth_equalityI) simp_all
  finally show ?thesis .
qed

text \<open>The callback never fails, and the whole read stores the bitmaps of all found keys.\<close>

lemma group_stores:
  assumes m: "index_items B members m q items" "\<forall>(hk, bm) \<in> set m. length hk = 16" "\<forall>k. length (PreHash S k) = 16"
    "found_keys S q keys found" and i: "i < length (group_starts found)"
  shows "batch_fn B found i (items ! unat (fkRank (found ! (group_starts found ! i)))) = None"
    "set (snd (verify_keys B (items ! unat (fkRank (found ! (group_starts found ! i)))) (group_at found i))) =
      bitmaps_at B items (group_at found i)"
proof -
  let ?item = "items ! unat (fkRank (found ! (group_starts found ! i)))"
  have k: "k \<in> set found" "items ! unat (fkRank k) = ?item" if "k \<in> set (group_at found i)" for k
    using that i set_groups [of found] group_same_rank [OF i that] by auto
  have "e = ErrKeyNotFound" if "k \<in> set (group_at found i)" "verifyAndDeserialize B ?item (fkHk k) = Inl e" for k e
    using verify_found(1) [OF m k(1)] that k(2) by metis
  then have v: "fst (verify_keys B ?item (group_at found i)) = None \<and> set (snd (verify_keys B ?item (group_at found i))) =
      {(fkOutIdx k, bm) | k bm. k \<in> set (group_at found i) \<and> verifyAndDeserialize B ?item (fkHk k) = Inr bm}"
    by (rule verify_keys_stores)
  then show "batch_fn B found i ?item = None" by (simp add: batch_fn_def)
  have "{(fkOutIdx k, bm) | k bm. k \<in> set (group_at found i) \<and> verifyAndDeserialize B ?item (fkHk k) = Inr bm} =
      bitmaps_at B items (group_at found i)"
    unfolding bitmaps_at_def by (intro Collect_cong ex_cong1 conj_cong refl) (simp add: k(2))
  with v show "set (snd (verify_keys B ?item (group_at found i))) = bitmaps_at B items (group_at found i)" by simp
qed

lemma batch_read:
  assumes r: "readable env z (brPf r) o' items" "1 \<le> rconcurrency (brPf r)" "length items < 2 ^ 32"
    and m: "index_items B members m q items" "\<forall>(hk, bm) \<in> set m. length hk = 16" "\<forall>k. length (PreHash S k) = 16"
    "found_keys S q keys found" and found: "found \<noteq> []" "sorted (map fkRank found)"
  shows "\<exists>E st0. ReadItems_start env z (brPf r) None (group_indices found) (batch_fn B found) = Inr (E, st0) \<and>
    (\<forall>st. items_reachable E {None} st0 st \<longrightarrow> \<not> items_done st \<longrightarrow> (\<exists>st'. items_step E {None} st st')) \<and>
    (\<forall>st. items_reachable E {None} st0 st \<longrightarrow> items_done st \<longrightarrow> firstErr st = None \<and>
      set (batch_stores B found (fnCalls st)) = bitmaps_at B items found)"
proof -
  let ?gs = "group_starts found" let ?rank = "\<lambda>i. fkRank (found ! (?gs ! i))"
  have "0 \<in> set ?gs" using found(1) by (simp add: set_group_starts)
  then have ne: "group_indices found \<noteq> []" by (auto simp: group_indices_def)
  have "\<forall>k \<in> set found. unat (fkRank k) < length items" using verify_found(2) [OF m] by blast
  note ps = group_indices_ok [OF found(2) this]
  obtain E st0 blocks where E: "ReadItems_start env z (brPf r) None (group_indices found) (batch_fn B found) = Inr (E, st0)"
    "items_setup E items blocks" "items_inv E items blocks {None} st0" "workers st0 \<noteq> []"
    "ipositions E = group_indices found" "ifn E = batch_fn B found"
    using ReadItems_start_ok [OF r(1,2) ne ps(1,2)] r(3) by fastforce
  have len: "length (ipositions E) = length ?gs" by (simp add: E(5) group_indices_def)
  have item: "item_at E items i = items ! unat (?rank i)" if "i < length ?gs" for i
    using ps(3) [OF _ that] r(3) by (simp add: item_at_def E(5))
  have "firstErr st = None \<and> set (batch_stores B found (fnCalls st)) = bitmaps_at B items found"
    if st: "items_reachable E {None} st0 st" "items_done st" for st
  proof
    have inv: "items_inv E items blocks {None} st" by (rule items_reachable_inv [OF E(2) st(1) E(3)])
    show noerr: "firstErr st = None"
    proof (rule ccontr)
      assume "firstErr st \<noteq> None"
      then obtain e where "genuine E items {None} e" using inv unfolding items_inv_def by auto
      then show False using group_stores(1) [OF m] item by (auto simp: genuine_def len E(6))
    qed
    have cover: "batches_ok (ooffsets (iopen E)) (oitemsPerRecord (iopen E)) (ipositions E) (ibatches E)"
      using E(2) by (simp add: items_setup_def)
    have "workers st \<noteq> []" using items_reachable_workers [OF st(1)] E(4) by auto
    from items_complete(1) [OF inv cover st(2) this noerr]
    have "set (fnCalls st) = (\<lambda>i. (i, items ! unat (?rank i))) ` {..<length ?gs}" by (auto simp: len item)
    then have "set (batch_stores B found (fnCalls st)) =
        (\<Union>i < length ?gs. set (snd (verify_keys B (items ! unat (?rank i)) (group_at found i))))"
      by (simp add: batch_stores_def)
    also have "\<dots> = (\<Union>i < length ?gs. bitmaps_at B items (group_at found i))"
      using group_stores(2) [OF m] by simp
    also have "\<dots> = bitmaps_at B items found"
      using set_groups [of found] unfolding bitmaps_at_def by blast
    finally show "set (batch_stores B found (fnCalls st)) = bitmaps_at B items found" .
  qed
  moreover have "\<exists>st'. items_step E {None} st st'" if "items_reachable E {None} st0 st" "\<not> items_done st" for st
    using items_progress [OF items_reachable_inv [OF E(2) that(1) E(3)] _ that(2)] by simp
  ultimately show ?thesis using E(1) by blast
qed

text \<open>
  Every state a call can get into is its answer or has a step, so with
  \<open>lookup_no_infinite_run\<close> every run ends with that answer.
\<close>

lemma LookupKeys_progress:
  assumes r: "readable env z (brPf r) o' items" "1 \<le> rconcurrency (brPf r)" "length items < 2 ^ 32"
    and idx: "brMphf r = Inr idx" "\<forall>k. length (PreHash S k) = 16"
    and m: "index_items B members m (Query S idx) items" "\<forall>(hk, bm) \<in> set m. length hk = 16"
    and run: "lookup_reachable env z S B r None {None} keys s"
  shows "s = Answered (Inr (map (\<lambda>k. slot_result B (Query S idx) items (hash_key S (fkField k) (fkKey k))) keys)) \<or>
    (\<exists>s'. lookup_step env z B r None {None} keys s s')"
proof -
  let ?res = "map (\<lambda>k. slot_result B (Query S idx) items (hash_key S (fkField k) (fkKey k))) keys"
  note perfect = index_itemsD(1) [OF m(1), unfolded perfect_on_def]
  obtain found0 where found0: "query_keys S idx 0 keys = Inr found0" "found_keys S (Query S idx) keys found0"
    using query_keys_found [of S idx 0 keys] perfect by (auto simp: found_keys_def)
  from run show ?thesis
  proof (cases rule: lookup_reachable_cases)
    case begin'
    have "replicate (length keys) None = ?res" if "found0 = []"
      using bitmaps_at_slots [of S "Query S idx" keys "[]" "[]" B items] found0(2) that
      by (simp add: bitmaps_at_def store_bitmaps_def)
    moreover have "\<exists>s'. lookup_step env z B r None {None} keys (Sorting found0) s'"
      by (rule exI, rule lookup_step.sort [of "sort_key fkRank found0"]) (simp_all add: sorted_sort_key)
    ultimately show ?thesis using begin' found0(1) idx(1) by (auto simp: LookupKeys_begin_def)
  next
    case (sorted found1 found)
    then have f: "found1 = found0" "found0 \<noteq> []"
      using found0(1) idx(1) by (auto simp: LookupKeys_begin_def split: if_splits)
    then have "set found = set found0" "found \<noteq> []" using mset_eq_setD [OF sorted(2)] by auto
    then have fk: "found_keys S (Query S idx) keys found" using found0(2) by (simp add: found_keys_def)
    from batch_read [OF r m idx(2) this \<open>found \<noteq> []\<close> sorted(3)] obtain E st0 where
      E: "ReadItems_start env z (brPf r) None (group_indices found) (batch_fn B found) = Inr (E, st0)"
      and step: "\<And>st. items_reachable E {None} st0 st \<Longrightarrow> \<not> items_done st \<Longrightarrow> \<exists>st'. items_step E {None} st st'"
      and res: "\<And>st. items_reachable E {None} st0 st \<Longrightarrow> items_done st \<Longrightarrow> firstErr st = None \<and>
        set (batch_stores B found (fnCalls st)) = bitmaps_at B items found" by blast
    have reading: "\<exists>s'. lookup_step env z B r None {None} keys (Reading found E st) s'" if "items_reachable E {None} st0 st" for st
      using step [OF that] by (cases "items_done st") (auto intro: lookup_step.read lookup_step.return')
    have "LookupKeys_result B keys found st = Inr ?res" if "items_reachable E {None} st0 st" "items_done st" for st
      using res [OF that] bitmaps_at_slots [OF fk, of _ B items] by (simp add: LookupKeys_result_def)
    moreover have "items_reachable E {None} st0 st0" by (simp add: items_reachable_def)
    ultimately show ?thesis
      using sorted(4) reading E unfolding lookup_follows_def LookupKeys_read_def by auto
  qed
qed

lemma LookupKeys_slots:
  assumes "readable env z (brPf r) o' items" "1 \<le> rconcurrency (brPf r)" "length items < 2 ^ 32"
    and "brMphf r = Inr idx" "\<forall>k. length (PreHash S k) = 16"
    and "index_items B members m (Query S idx) items" "\<forall>(hk, bm) \<in> set m. length hk = 16"
    and "LookupKeys env z S B r None {None} keys res"
  shows "res = Inr (map (\<lambda>k. slot_result B (Query S idx) items (hash_key S (fkField k) (fkKey k))) keys)"
  using LookupKeys_progress [OF assms(1-7), of keys "Answered res"] assms(8) by (auto simp: LookupKeys_def)

lemma LookupKeys_returns:
  assumes "readable env z (brPf r) o' items" "1 \<le> rconcurrency (brPf r)" "length items < 2 ^ 32"
    and "brMphf r = Inr idx" "\<forall>k. length (PreHash S k) = 16"
    and "index_items B members m (Query S idx) items" "\<forall>(hk, bm) \<in> set m. length hk = 16"
  shows "\<exists>res. LookupKeys env z S B r None {None} keys res"
proof -
  have "\<exists>res. lookup_reachable env z S B r None {None} keys (Answered res)"
    if "lookup_reachable env z S B r None {None} keys s" for s
    using lookup_step_wf [of env z B r None "{None}" keys] that
  proof (induction s rule: wf_induct_rule)
    case (less s)
    show ?case
    proof (cases "\<exists>s'. lookup_step env z B r None {None} keys s s'")
      case True
      then obtain s' where s': "lookup_step env z B r None {None} keys s s'" by blast
      with less.prems have "lookup_reachable env z S B r None {None} keys s'" by (simp add: lookup_reachable_def)
      with less.IH s' show ?thesis by blast
    next
      case False
      with LookupKeys_progress [OF assms less.prems] less.prems show ?thesis by auto
    qed
  qed
  then show ?thesis unfolding LookupKeys_def by (auto simp: lookup_reachable_def)
qed

end
