(* ===== verification/Bitmap_Correct.thy ===== *)
theory Bitmap_Correct
  imports Bitmap_Reader
begin

text \<open>
  The bitmap index over MPHF and packfile keeps the contract \<open>bitmap_index\<close>, and the
  session of a writer that succeeds leaves files from which it holds. The index it
  holds is that of the hashed keys: keys whose 128-bit hashes collide share a bitmap.
\<close>

section \<open>The reader\<close>

lemma index_holdsE:
  assumes "index_holds env z S B members (pool, r) ix"
  obtains idx o' items m T where "pool_ok pool" "1 \<le> rconcurrency (brPf r)" "\<forall>k. length (PreHash S k) = 16"
    "brMphf r = Inr idx" "readable env z (brPf r) o' items" "length items < 2 ^ 32"
    "index_items B members m (Query S idx) items" "\<forall>(hk, bm) \<in> set m. length hk = 16" "bitmaps_of members m T"
    "\<And>f k. ix f k = T (hash_key S f k)" "\<And>hk. T hk \<noteq> {} \<Longrightarrow> \<exists>f k. hk = hash_key S f k"
  using assms unfolding index_holds_def by auto

lemma index_holdsI:
  assumes "pool_ok pool" "1 \<le> rconcurrency (brPf r)" "\<forall>k. length (PreHash S k) = 16"
    "brMphf r = Inr idx" "readable env z (brPf r) o' items" "length items < 2 ^ 32"
    "index_items B members m (Query S idx) items" "\<forall>(hk, bm) \<in> set m. length hk = 16" "bitmaps_of members m T"
    "\<And>f k. ix f k = T (hash_key S f k)" "\<And>hk. T hk \<noteq> {} \<Longrightarrow> \<exists>f k. hk = hash_key S f k"
  shows "index_holds env z S B members (pool, r) ix"
  using assms unfolding index_holds_def by blast

lemma Lookup_holds:
  assumes "index_holds env z S B members (pool, r) ix"
  shows "ix f key \<noteq> {} \<Longrightarrow> \<exists>bm. fst (Lookup env z S B pool r f key) = Inr (Some bm) \<and> members bm = ix f key"
    "ix f key = {} \<Longrightarrow> fst (Lookup env z S B pool r f key) = Inl (IxErr ErrKeyNotFound) \<or>
      (\<exists>bm f' key'. fst (Lookup env z S B pool r f key) = Inr (Some bm) \<and> members bm = ix f' key' \<and>
        ix f' key' \<noteq> {} \<and> take 4 (hash_key S f' key') = take 4 (hash_key S f key))"
proof -
  from assms show "ix f key \<noteq> {} \<Longrightarrow> \<exists>bm. fst (Lookup env z S B pool r f key) = Inr (Some bm) \<and> members bm = ix f key"
  proof (rule index_holdsE)
    fix idx o' items m T
    assume r: "pool_ok pool" "readable env z (brPf r) o' items" "length items < 2 ^ 32" "brMphf r = Inr idx"
      "\<forall>k. length (PreHash S k) = 16" "index_items B members m (Query S idx) items" "\<forall>(hk, bm) \<in> set m. length hk = 16"
      and m: "bitmaps_of members m T" "\<And>f k. ix f k = T (hash_key S f k)" and ne: "ix f key \<noteq> {}"
    have "length (hash_key S f key) = 16" using r(5) by simp
    from slot_result_indexed [OF r(6,7) m(1) this] ne m(2) Lookup_slot [OF r, of f key] show ?thesis by auto
  qed
  from assms show "ix f key = {} \<Longrightarrow> fst (Lookup env z S B pool r f key) = Inl (IxErr ErrKeyNotFound) \<or>
      (\<exists>bm f' key'. fst (Lookup env z S B pool r f key) = Inr (Some bm) \<and> members bm = ix f' key' \<and>
        ix f' key' \<noteq> {} \<and> take 4 (hash_key S f' key') = take 4 (hash_key S f key))"
  proof (rule index_holdsE)
    fix idx o' items m T
    assume r: "pool_ok pool" "readable env z (brPf r) o' items" "length items < 2 ^ 32" "brMphf r = Inr idx"
      "\<forall>k. length (PreHash S k) = 16" "index_items B members m (Query S idx) items" "\<forall>(hk, bm) \<in> set m. length hk = 16"
      and m: "bitmaps_of members m T" "\<And>f k. ix f k = T (hash_key S f k)" "\<And>hk. T hk \<noteq> {} \<Longrightarrow> \<exists>f k. hk = hash_key S f k"
    have hk: "length (hash_key S f key) = 16" using r(5) by simp
    show ?thesis
    proof (cases "slot_result B (Query S idx) items (hash_key S f key)")
      case None
      then show ?thesis using Lookup_slot [OF r, of f key] by simp
    next
      case (Some bm)
      from slot_result_Some [OF r(6,7) m(1) hk Some] obtain hk' where
        "members bm = T hk'" "T hk' \<noteq> {}" "take 4 hk' = take 4 (hash_key S f key)" by blast
      moreover from m(3) [OF this(2)] obtain f' k' where "hk' = hash_key S f' k'" by blast
      moreover have "fst (Lookup env z S B pool r f key) = Inr (Some bm)" using Some Lookup_slot [OF r, of f key] by simp
      ultimately have "fst (Lookup env z S B pool r f key) = Inr (Some bm) \<and> members bm = ix f' k' \<and> ix f' k' \<noteq> {} \<and>
          take 4 (hash_key S f' k') = take 4 (hash_key S f key)" by (simp add: m(2))
      then show ?thesis by blast
    qed
  qed
qed

lemma LookupKeys_holds:
  assumes "index_holds env z S B members (pool, r) ix" "LookupKeys env z S B r None {None} keys res"
  shows "res = Inr (map (\<lambda>k. case fst (Lookup env z S B pool r (fkField k) (fkKey k)) of
    Inl e \<Rightarrow> None | Inr bm \<Rightarrow> bm) keys)"
  using assms(1)
proof (rule index_holdsE)
  fix idx o' items m T
  assume conc: "1 \<le> rconcurrency (brPf r)" and r: "pool_ok pool" "readable env z (brPf r) o' items" "length items < 2 ^ 32"
    "brMphf r = Inr idx" "\<forall>k. length (PreHash S k) = 16" "index_items B members m (Query S idx) items"
    "\<forall>(hk, bm) \<in> set m. length hk = 16"
  have "(case fst (Lookup env z S B pool r f k) of Inl e \<Rightarrow> None | Inr bm \<Rightarrow> bm) =
      slot_result B (Query S idx) items (hash_key S f k)" for f k
    using Lookup_slot [OF r, of f k] by (simp split: option.split)
  with LookupKeys_slots [OF r(2) conc r(3,4,5,6,7) assms(2)] show ?thesis by simp
qed

lemma LookupKeys_returns_holds:
  assumes "index_holds env z S B members (pool, r) ix"
  shows "\<exists>res. LookupKeys env z S B r None {None} keys res"
  using assms
proof (rule index_holdsE)
  fix idx o' items m T
  assume conc: "1 \<le> rconcurrency (brPf r)" and r: "readable env z (brPf r) o' items" "length items < 2 ^ 32"
    "brMphf r = Inr idx" "\<forall>k. length (PreHash S k) = 16" "index_items B members m (Query S idx) items"
    "\<forall>(hk, bm) \<in> set m. length hk = 16"
  show ?thesis by (rule LookupKeys_returns [OF r(1) conc r(2,3,4,5,6)])
qed

text \<open>No call is ever stuck: what it has reached is the answer or can go on.\<close>

lemma LookupKeys_progress_holds:
  assumes "index_holds env z S B members (pool, r) ix" "lookup_reachable env z S B r None {None} keys s"
  shows "s = Answered (Inr (map (\<lambda>k. case fst (Lookup env z S B pool r (fkField k) (fkKey k)) of
      Inl e \<Rightarrow> None | Inr bm \<Rightarrow> bm) keys)) \<or>
    (\<exists>s'. lookup_step env z B r None {None} keys s s')"
  using assms(1)
proof (rule index_holdsE)
  fix idx o' items m T
  assume conc: "1 \<le> rconcurrency (brPf r)" and r: "pool_ok pool" "readable env z (brPf r) o' items" "length items < 2 ^ 32"
    "brMphf r = Inr idx" "\<forall>k. length (PreHash S k) = 16" "index_items B members m (Query S idx) items"
    "\<forall>(hk, bm) \<in> set m. length hk = 16"
  have "(case fst (Lookup env z S B pool r f k) of Inl e \<Rightarrow> None | Inr bm \<Rightarrow> bm) =
      slot_result B (Query S idx) items (hash_key S f k)" for f k
    using Lookup_slot [OF r, of f k] by (simp split: option.split)
  with LookupKeys_progress [OF r(2) conc r(3,4,5,6,7) assms(2)] show ?thesis by simp
qed

interpretation mphf: bitmap_index "index_holds env z S B members"
  "\<lambda>(pool, r) f key. fst (Lookup env z S B pool r f key)"
  "\<lambda>(pool, r). LookupKeys env z S B r None {None}" members "IxErr ErrKeyNotFound"
  for env z S B members
proof (unfold_locales, goal_cases)
  case (1 r ix f key) then show ?case using Lookup_holds(1) by (cases r) simp
next
  case (2 r ix f key) then show ?case using Lookup_holds(2) by (cases r) fastforce
next
  case (3 r ix keys res) then show ?case using LookupKeys_holds by (cases r) simp
qed

section \<open>The writer\<close>

text \<open>The serialized bitmaps fit an item of the packfile, and all of them a packfile.\<close>

definition bitmaps_fit :: "'bm roaring \<Rightarrow> (bytes \<times> 'bm) list \<Rightarrow> bool" where
  "bitmaps_fit B m \<longleftrightarrow> length m \<le> 10 ^ 9 \<and>
    (\<forall>(hk, bm) \<in> set m. case ToBytes B (RunOptimize B bm) of Inl e \<Rightarrow> True
      | Inr raw \<Rightarrow> length raw < 2 ^ 32 - 4 \<and> length m * (4 + length raw) < 2 ^ 46)"

definition index_accepts ::
  "os_env \<Rightarrow> libzstd \<Rightarrow> ('b, 'idx) streamhash \<Rightarrow> ('b, 'idx) mphf_view \<Rightarrow> 'bm roaring \<Rightarrow> ('bm \<Rightarrow> uint32 set)
    \<Rightarrow> string \<Rightarrow> string \<Rightarrow> BitmapOptions \<Rightarrow> fs \<Rightarrow> (Event \<times> uint32) list \<Rightarrow> bool" where
  "index_accepts env z S V B members mphfPath dataPath opts fs evs \<longleftrightarrow>
    write_ok env \<and> read_ok env \<and> zstd_contract z \<and> streamhash_contract S V \<and> roaring_contract B members \<and>
    mphfPath \<noteq> dataPath \<and> fs dataPath = None \<and> boBatchSize opts < 2 ^ 32 \<and>
    (case add_events S B (NewWriter mphfPath dataPath opts) evs of
       Inl e \<Rightarrow> True | Inr w \<Rightarrow> bitmaps_fit B (nilable (bwBitmaps w)))"

lemma sum_list_bound: "(\<And>x. x \<in> set xs \<Longrightarrow> f x \<le> (c :: nat)) \<Longrightarrow> sum_list (map f xs) \<le> length xs * c"
  by (induction xs) (auto simp: add_mono)

lemma chunk_nonempty: "0 < k \<Longrightarrow> c \<in> set (chunks k xs) \<Longrightarrow> c \<noteq> []"
proof (induction k xs rule: chunks.induct)
  case (1 k xs)
  then show ?case by (subst (asm) (2) chunks.simps) (auto split: if_splits)
qed

lemma entry_session:
  assumes acc: "write_ok env" "read_ok env" "zstd_contract z" "fs1 dataPath = None"
    and w: "0 < bwBatchSize w" "bwBatchSize w < 2 ^ 32"
    and m: "bitmaps_fit B m" "\<forall>(hk, bm) \<in> set m. length hk = 16"
    and entries: "entries_by_rank B m q prepared" "distinct (map fst m)"
  shows "session_ok env z fs1 dataPath (bitmap_packfile_opts w) (entry_parts prepared) []"
    "session_fits (bitmap_packfile_opts w) (entry_parts prepared)"
proof -
  have len: "length prepared = length m" "length m \<le> 10 ^ 9" using entries(1) m(1) by (simp_all add: entries_by_rank_def bitmaps_fit_def)
  have entry: "4 \<le> length (fp @ data) \<and> length (fp @ data) < 2 ^ 32 \<and> length m * length (fp @ data) < 2 ^ 46" if "(fp, data) \<in> set prepared" for fp data
  proof -
    from that obtain j where j: "j < length prepared" "prepared ! j = (fp, data)" by (auto simp: in_set_conv_nth)
    then obtain hk bm r where hk: "(hk, bm) \<in> set m" "q hk = Inr r" "unat r = j"
      using entries(1) unfolding entries_by_rank_def by blast
    moreover from hk(1) obtain r' raw where "q hk = Inr r'" "prepared ! unat r' = (take 4 hk, raw)"
      "ToBytes B (RunOptimize B bm) = Inr raw"
      using entries(1) unfolding entries_by_rank_def by fast
    ultimately have fp: "fp = take 4 hk" and data: "ToBytes B (RunOptimize B bm) = Inr data" using j by simp_all
    have "case ToBytes B (RunOptimize B bm) of Inl e \<Rightarrow> True
      | Inr raw \<Rightarrow> length raw < 2 ^ 32 - 4 \<and> length m * (4 + length raw) < 2 ^ 46"
      using hk(1) m(1) unfolding bitmaps_fit_def by fast
    moreover have "length (fp @ data) = 4 + length data" using hk(1) m(2) fp by fastforce
    ultimately show ?thesis by (simp add: data)
  qed
  let ?items = "map concat (entry_parts prepared)"
  have items: "4 \<le> length item \<and> length item < 2 ^ 32 \<and> length m * length item < 2 ^ 46" if "item \<in> set ?items" for item
    using that entry by auto
  have "length (concat ?items) < 2 ^ 46"
  proof (cases "m = []")
    case False
    then have "length item \<le> (2 ^ 46 - 1) div length m" if "item \<in> set ?items" for item
      using items [OF that] by (simp add: less_eq_div_iff_mult_less_eq mult.commute)
    then have "length (concat ?items) \<le> length ?items * ((2 ^ 46 - 1) div length m)"
      unfolding length_concat by (rule sum_list_bound)
    also have "\<dots> \<le> 2 ^ 46 - 1" using len by simp
    finally show ?thesis by simp
  qed (use len in simp)
  then show "session_ok env z fs1 dataPath (bitmap_packfile_opts w) (entry_parts prepared) []"
    using acc w(1) items len by (auto simp: session_ok_def bitmap_packfile_opts_def known_format_def read_ok_def)
  have "concat c \<noteq> []" if "c \<in> set (chunks (items_per_record (bitmap_packfile_opts w)) ?items)" for c
  proof -
    have "0 < items_per_record (bitmap_packfile_opts w)"
      using w(1) by (simp add: items_per_record_def bitmap_packfile_opts_def)
    then have "c \<noteq> []" using that by (rule chunk_nonempty)
    moreover have "set c \<subseteq> set ?items" by (rule in_chunks [OF that])
    ultimately show ?thesis using items by (cases c) fastforce+
  qed
  then show "session_fits (bitmap_packfile_opts w) (entry_parts prepared)"
    using w len by (simp add: session_fits_simps items_per_record_def bitmap_packfile_opts_def nat_less_iff)
qed

text \<open>The items of the packfile hold the collected bitmaps, in any rank order.\<close>

lemma entries_index_items:
  assumes "roaring_contract B members" "perfect_on (sort (map fst m)) q" "entries_by_rank B m q prepared"
  shows "index_items B members m q (map concat (entry_parts prepared))"
proof -
  have e: "length prepared = length m"
    "\<And>hk bm. (hk, bm) \<in> set m \<Longrightarrow> \<exists>r raw. q hk = Inr r \<and> unat r < length prepared \<and>
      prepared ! unat r = (take 4 hk, raw) \<and> ToBytes B (RunOptimize B bm) = Inr raw"
    "\<And>j. j < length prepared \<Longrightarrow> \<exists>(hk, bm) \<in> set m. \<exists>r. q hk = Inr r \<and> unat r = j"
    using assms(3) unfolding entries_by_rank_def by fast+
  have "\<exists>r raw bm'. q hk = Inr r \<and> unat r < length prepared \<and> map concat (entry_parts prepared) ! unat r = take 4 hk @ raw \<and>
      UnmarshalBinary B raw = Inr bm' \<and> members bm' = members bm" if "(hk, bm) \<in> set m" for hk bm
  proof -
    from e(2) [OF that] obtain r raw where r: "q hk = Inr r" "unat r < length prepared"
      "prepared ! unat r = (take 4 hk, raw)" "ToBytes B (RunOptimize B bm) = Inr raw" by blast
    moreover from r(4) assms(1) obtain bm' where "UnmarshalBinary B raw = Inr bm'" "members bm' = members bm"
      unfolding roaring_contract_def by metis
    ultimately show ?thesis by (intro exI [of _ r] exI [of _ raw] exI [of _ bm']) simp
  qed
  moreover have "perfect_on (map fst m) q" using assms(2) by (simp add: perfect_on_def)
  ultimately show ?thesis using e(1,3) unfolding index_items_def by auto
qed

lemma loadMPHF_ok:
  assumes "read_ok env" "streamhash_contract S V" "fs path = Some data" "query_of V data = Some q"
  shows "\<exists>idx. loadMPHF env S fs path expectedLookups = Inr idx \<and> Query S idx = q"
proof -
  have "ReadAt env data (length data) 0 = Inr data"
    using ReadAt_ok [OF assms(1), of 0 "length data" data] by (simp add: slice_all)
  then show ?thesis
    using Mphf_opens(2,3) [OF assms(2,4)] assms(1,3) by (auto simp: loadMPHF_def Let_def read_ok_def)
qed

lemma NewWriter_bitmaps: "bwBitmaps (NewWriter mphfPath dataPath opts) = Some []"
  "bwMphfPath (NewWriter mphfPath dataPath opts) = mphfPath" "bwDataPath (NewWriter mphfPath dataPath opts) = dataPath"
  "0 < bwBatchSize (NewWriter mphfPath dataPath opts)"
  "boBatchSize opts < 2 ^ 32 \<Longrightarrow> bwBatchSize (NewWriter mphfPath dataPath opts) < 2 ^ 32"
  by (simp_all add: NewWriter_def defaultBatchSize_def Let_def)

text \<open>Every collected key is a hash of a composed key.\<close>

lemma keyed_hash: "keyed (hash_key S) evs hk \<noteq> {} \<Longrightarrow> \<exists>f k. hk = hash_key S f k"
  by (auto simp: keyed_def)

text \<open>The files a session leaves, from the bitmaps it collected.\<close>

lemma write_index_files:
  assumes acc: "index_accepts env z S V B members mphfPath dataPath opts fs evs"
    and run: "write_index env z S B mphfPath dataPath opts fs evs = (None, fs')"
  obtains m w fs1 data q prepared where "bwBitmaps w = Some m" "bitmaps_of members m (keyed (hash_key S) evs)" "bitmaps_fit B m"
    "\<forall>(hk, bm) \<in> set m. length hk = 16" "0 < bwBatchSize w" "bwBatchSize w < 2 ^ 32"
    "other_files mphfPath fs fs1" "fs1 mphfPath = Some data" "query_of V data = Some q"
    "perfect_on (sort (map fst m)) q" "entries_by_rank B m q prepared" "length m < 2 ^ 32"
    "write_file env z fs1 dataPath (bitmap_packfile_opts w) (entry_parts prepared) [] = (None, fs')"
proof -
  note a = acc [unfolded index_accepts_def]
  have c: "streamhash_contract S V" "roaring_contract B members" "boBatchSize opts < 2 ^ 32" using a by simp_all
  let ?w0 = "NewWriter mphfPath dataPath opts" let ?T = "keyed (hash_key S) evs"
  obtain m where m: "add_events S B ?w0 evs = Inr (?w0\<lparr>bwBitmaps := Some m\<rparr>)" "bitmaps_of members m ?T"
    using add_events_bitmaps [OF c(2) NewWriter_bitmaps(1) [of mphfPath dataPath opts] bitmaps_of_empty,
        where S = S and evs = evs] by auto
  let ?w = "?w0\<lparr>bwBitmaps := Some m\<rparr>"
  have fit: "bitmaps_fit B m" using a m(1) by simp
  have d: "distinct (map fst m)" using m(2) by (simp add: bitmaps_of_def)
  have hk16: "\<forall>(hk, bm) \<in> set m. length hk = 16"
  proof (safe)
    fix hk bm assume "(hk, bm) \<in> set m"
    from bitmaps_ofD(1) [OF m(2) this] keyed_hash obtain f k where "hk = hash_key S f k" by blast
    then show "length hk = 16" using PreHash_length [OF c(1)] by simp
  qed
  then have "\<forall>hk \<in> set (map fst m). length hk = 16" by auto
  moreover obtain w' where "Bitmap_Finish env z S B fs ?w = (None, fs', w')"
    using run m(1) by (auto simp: write_index_def split: prod.splits)
  ultimately obtain fs1 data q prepared where f: "other_files mphfPath fs fs1" "fs1 mphfPath = Some data"
    "query_of V data = Some q" "perfect_on (sort (map fst m)) q" "entries_by_rank B m q prepared"
    "write_file env z fs1 dataPath (bitmap_packfile_opts ?w) (entry_parts prepared) [] = (None, fs')"
    "length m < 2 ^ 32"
    using Bitmap_Finish_files [OF c(1), of ?w m env z B fs fs' w'] d by (auto simp: NewWriter_bitmaps)
  have "0 < bwBatchSize ?w" "bwBatchSize ?w < 2 ^ 32"
    using NewWriter_bitmaps(4) NewWriter_bitmaps(5) [OF c(3)] by simp_all
  with m(2) fit hk16 f show thesis by (intro that [of ?w m fs1 data q prepared]) auto
qed

lemma write_index_holds:
  assumes acc: "index_accepts env z S V B members mphfPath dataPath opts fs evs"
    and run: "write_index env z S B mphfPath dataPath opts fs evs = (None, fs')"
    and size: "length (os_contents fs' dataPath) < 2 ^ 63"
  shows "index_holds env z S B members (None, Bitmap_Open env S fs' mphfPath dataPath ropts)
    (\<lambda>f k. keyed (hash_key S) evs (hash_key S f k))"
  using acc run
proof (rule write_index_files)
  fix m w fs1 data q prepared
  assume "bwBitmaps w = Some m" and m: "bitmaps_of members m (keyed (hash_key S) evs)" "bitmaps_fit B m" "\<forall>(hk, bm) \<in> set m. length hk = 16"
    and w: "0 < bwBatchSize w" "bwBatchSize w < 2 ^ 32"
    and f: "other_files mphfPath fs fs1" "fs1 mphfPath = Some data" "query_of V data = Some q"
    "perfect_on (sort (map fst m)) q" "entries_by_rank B m q prepared" "length m < 2 ^ 32"
    "write_file env z fs1 dataPath (bitmap_packfile_opts w) (entry_parts prepared) [] = (None, fs')"
  have c: "write_ok env" "read_ok env" "zstd_contract z" "streamhash_contract S V" "roaring_contract B members"
    "mphfPath \<noteq> dataPath" "fs dataPath = None"
    using acc by (simp_all add: index_accepts_def)
  let ?T = "keyed (hash_key S) evs"
  have d: "distinct (map fst m)" using m(1) by (simp add: bitmaps_of_def)
  have "fs1 dataPath = None" using f(1) c(6,7) by (simp add: other_files_def)
  then have session: "session_ok env z fs1 dataPath (bitmap_packfile_opts w) (entry_parts prepared) []"
    "session_fits (bitmap_packfile_opts w) (entry_parts prepared)"
    using w by (blast intro: entry_session [OF c(1-3) _ _ _ m(2,3) f(5) d])+
  let ?items = "map concat (entry_parts prepared)"
  let ?conc = "case foldl apply_option (0, 0) ropts of (e, n) \<Rightarrow> if n \<noteq> 0 then Some n else None"
  obtain o' where read: "readable env z (Open env fs' dataPath ?conc) o' ?items"
    using session_readable [OF session c(2) f(7) size] by blast
  have "fs' mphfPath = Some data"
    using write_file_frame [OF f(7)] f(2) c(6) by (simp add: other_files_def)
  from loadMPHF_ok [where fs = fs' and path = mphfPath, OF c(2,4) this f(3)] obtain idx where
    idx: "loadMPHF env S fs' mphfPath (fst (foldl apply_option (0, 0) ropts)) = Inr idx" "Query S idx = q" by blast
  have open': "Bitmap_Open env S fs' mphfPath dataPath ropts =
      \<lparr>brPf = Open env fs' dataPath ?conc, brMphf = Inr idx, brClosed = None\<rparr>"
    using idx(1) by (cases "foldl apply_option (0, 0) ropts") (simp add: Bitmap_Open_def Let_def)
  have items: "index_items B members m (Query S idx) ?items"
    using entries_index_items [OF c(5) f(4,5)] idx(2) by simp
  have "1 \<le> rconcurrency (Open env fs' dataPath ?conc)" by (simp add: Open_def Let_def)
  moreover have "length ?items < 2 ^ 32" using index_itemsD(2) [OF items] f(6) by simp
  ultimately show ?thesis
    unfolding open' using read items m(1,3) keyed_hash [of S evs] PreHash_length [OF c(4)]
    by (intro index_holdsI [where o' = o' and items = ?items and m = m and T = ?T]) simp_all
qed

text \<open>Other files stay as they are.\<close>

lemma write_index_frame:
  assumes "index_accepts env z S V B members mphfPath dataPath opts fs evs"
    and "write_index env z S B mphfPath dataPath opts fs evs = (None, fs')"
    and "p \<noteq> mphfPath" "p \<noteq> dataPath"
  shows "fs' p = fs p"
  using assms(1,2)
proof (rule write_index_files)
  fix m w fs1 data q prepared
  assume "bwBitmaps w = Some m" "other_files mphfPath fs fs1"
    "write_file env z fs1 dataPath (bitmap_packfile_opts w) (entry_parts prepared) [] = (None, fs')"
  then show ?thesis using write_file_frame assms(3,4) by (fastforce simp: other_files_def)
qed

section \<open>Events and keys\<close>

text \<open>No other indexed key looks like this one, for keys seen through \<open>h\<close>.\<close>

definition unambiguous :: "(Field \<Rightarrow> bytes \<Rightarrow> bytes) \<Rightarrow> (Event \<times> uint32) list \<Rightarrow> Field \<Rightarrow> bytes \<Rightarrow> bool" where
  "unambiguous h evs f key \<longleftrightarrow>
    (\<forall>(ev, x) \<in> set evs. \<forall>(f', k') \<in> set (event_fields ev). h f' k' = h f key \<longrightarrow> f' = f \<and> k' = key)"

text \<open>The fingerprint of a key: the four bytes of its hash that an entry stores.\<close>

abbreviation fingerprint :: "('b, 'idx) streamhash \<Rightarrow> Field \<Rightarrow> bytes \<Rightarrow> bytes" where
  "fingerprint S f key \<equiv> take 4 (hash_key S f key)"

lemma ids_with_keyed: "ids_with evs f key \<subseteq> keyed h evs (h f key)"
  by (auto simp: ids_with_def keyed_def)

lemma keyed_unambiguous: "unambiguous h evs f key \<Longrightarrow> keyed h evs (h f key) = ids_with evs f key"
  by (fastforce simp: ids_with_def keyed_def unambiguous_def)

lemma unambiguous_hash: "unambiguous (fingerprint S) evs f key \<Longrightarrow> unambiguous (hash_key S) evs f key"
  by (fastforce simp: unambiguous_def)

lemma keyed_nonempty: "keyed h evs (h f key) \<noteq> {} \<Longrightarrow>
    \<exists>ev x f' k'. (ev, x) \<in> set evs \<and> (f', k') \<in> set (event_fields ev) \<and> h f' k' = h f key"
  by (auto simp: keyed_def)

lemma Lookup_keyed:
  assumes "index_holds env z S B members (pool, r) (\<lambda>f k. keyed (hash_key S) evs (hash_key S f k))"
  shows "fst (Lookup env z S B pool r f key) = Inl (IxErr ErrKeyNotFound) \<or>
    (\<exists>bm ev x f' k'. fst (Lookup env z S B pool r f key) = Inr (Some bm) \<and> (ev, x) \<in> set evs \<and>
      (f', k') \<in> set (event_fields ev) \<and> fingerprint S f' k' = fingerprint S f key \<and>
      members bm = keyed (hash_key S) evs (hash_key S f' k'))"
proof (cases "keyed (hash_key S) evs (hash_key S f key) = {}")
  case False
  from Lookup_holds(1) [OF assms False] obtain bm where bm: "fst (Lookup env z S B pool r f key) = Inr (Some bm)"
    "members bm = keyed (hash_key S) evs (hash_key S f key)" by blast
  from keyed_nonempty [OF False] obtain ev x f' k' where "(ev, x) \<in> set evs" "(f', k') \<in> set (event_fields ev)"
    "hash_key S f' k' = hash_key S f key" by blast
  with bm have "fst (Lookup env z S B pool r f key) = Inr (Some bm) \<and> (ev, x) \<in> set evs \<and>
      (f', k') \<in> set (event_fields ev) \<and> fingerprint S f' k' = fingerprint S f key \<and>
      members bm = keyed (hash_key S) evs (hash_key S f' k')" by simp
  then show ?thesis by blast
next
  case True
  from Lookup_holds(2) [OF assms True] show ?thesis
  proof
    assume "\<exists>bm f' key'. fst (Lookup env z S B pool r f key) = Inr (Some bm) \<and>
      members bm = keyed (hash_key S) evs (hash_key S f' key') \<and> keyed (hash_key S) evs (hash_key S f' key') \<noteq> {} \<and>
      fingerprint S f' key' = fingerprint S f key"
    then obtain bm g k where bm: "fst (Lookup env z S B pool r f key) = Inr (Some bm)"
      "members bm = keyed (hash_key S) evs (hash_key S g k)" "keyed (hash_key S) evs (hash_key S g k) \<noteq> {}"
      "fingerprint S g k = fingerprint S f key" by blast
    from keyed_nonempty [OF bm(3)] obtain ev x f' k' where "(ev, x) \<in> set evs" "(f', k') \<in> set (event_fields ev)"
      "hash_key S f' k' = hash_key S g k" by blast
    with bm have "fst (Lookup env z S B pool r f key) = Inr (Some bm) \<and> (ev, x) \<in> set evs \<and>
        (f', k') \<in> set (event_fields ev) \<and> fingerprint S f' k' = fingerprint S f key \<and>
        members bm = keyed (hash_key S) evs (hash_key S f' k')" by simp
    then show ?thesis by blast
  qed blast
qed

lemma Lookup_unambiguous:
  assumes holds: "index_holds env z S B members (pool, r) (\<lambda>f k. keyed (hash_key S) evs (hash_key S f k))"
    and "unambiguous (fingerprint S) evs f key"
  shows "map_option members (case fst (Lookup env z S B pool r f key) of Inl e \<Rightarrow> None | Inr bm \<Rightarrow> bm) =
    found_ids (ids_with evs f key)"
proof -
  have keyed: "keyed (hash_key S) evs (hash_key S f key) = ids_with evs f key"
    by (rule keyed_unambiguous) (rule unambiguous_hash [OF assms(2)])
  show ?thesis
  proof (cases "ids_with evs f key = {}")
    case False
    with Lookup_holds(1) [OF holds, of f key] keyed show ?thesis by auto
  next
    case True
    have "fst (Lookup env z S B pool r f key) = Inl (IxErr ErrKeyNotFound)"
    proof (rule ccontr)
      assume "fst (Lookup env z S B pool r f key) \<noteq> Inl (IxErr ErrKeyNotFound)"
      with Lookup_keyed [OF holds, of f key] obtain ev x f' k' where
        k: "(ev, x) \<in> set evs" "(f', k') \<in> set (event_fields ev)" "fingerprint S f' k' = fingerprint S f key" by blast
      with assms(2) have "f' = f" "k' = key" by (auto simp: unambiguous_def)
      with k have "x \<in> ids_with evs f key" by (auto simp: ids_with_def)
      with True show False by simp
    qed
    with True show ?thesis by simp
  qed
qed

text \<open>A call of \<open>LookupKeys\<close> ends, and only with what \<open>Lookup\<close> says of each key.\<close>

lemma LookupKeys_iff:
  assumes "index_holds env z S B members (pool, r) ix"
  shows "LookupKeys env z S B r None {None} keys res \<longleftrightarrow>
    res = Inr (map (\<lambda>k. case fst (Lookup env z S B pool r (fkField k) (fkKey k)) of
      Inl e \<Rightarrow> None | Inr bm \<Rightarrow> bm) keys)" (is "_ \<longleftrightarrow> res = ?res")
proof
  assume "res = ?res"
  moreover obtain res' where "LookupKeys env z S B r None {None} keys res'"
    using LookupKeys_returns_holds [OF assms] by blast
  moreover from this have "res' = ?res" by (rule LookupKeys_holds [OF assms])
  ultimately show "LookupKeys env z S B r None {None} keys res" by simp
qed (rule LookupKeys_holds [OF assms])

end
