(* ===== verification/Query.thy ===== *)
theory Query
  imports Bitmap_Correct Event_Store
begin

text \<open>
  The parts together: events are marshalled into an event store, and indexed under their
  positions in it. A lookup gives positions, a read of the store gives the marshalled
  events there, and Unmarshal gives the events back, up to the fields the encoding drops.
\<close>

text \<open>What indexing sees of an event survives the encoding.\<close>

definition well_addressed :: "Event \<Rightarrow> bool" where
  "well_addressed ev \<longleftrightarrow> (case ContractID ev of None \<Rightarrow> True | Some c \<Rightarrow> length c = 32)"

lemma event_fields_canonical: "well_addressed ev \<Longrightarrow> event_fields (canonical ev) = event_fields ev"
  by (auto simp: event_fields_def canonical_def well_addressed_def split: option.splits)

text \<open>An event is indexed under its position.\<close>

definition numbered :: "Event list \<Rightarrow> (Event \<times> uint32) list" where
  "numbered evs = zip evs (map of_nat [0..<length evs])"

lemma ids_with_numbered:
  "ids_with (numbered evs) f key = of_nat ` {i. i < length evs \<and> (f, key) \<in> set (event_fields (evs ! i))}"
  by (force simp: ids_with_def numbered_def in_set_zip)

lemma unat_position: "i < length evs \<Longrightarrow> length evs \<le> 2 ^ 32 \<Longrightarrow> unat (of_nat i :: uint32) = i"
  by (simp add: unat_of_nat take_bit_nat_eq_self)

text \<open>A reader only depends on the file of its path.\<close>

lemma Store_Open_cong: "fs path = fs' path \<Longrightarrow> Store_Open env fs path conc = Store_Open env fs' path conc"
  by (simp add: Store_Open_def Open_def doOpen_def)

text \<open>Reading the events of some positions.\<close>

lemma read_numbered:
  assumes holds: "store_holds env z (None, r) (map (Marshal []) evs)"
    and evs: "length evs \<le> 2 ^ 32" "\<forall>ev \<in> set evs. encodable ev \<and> well_addressed ev"
    and x: "x \<in> ids_with (numbered evs) f key"
  shows "\<exists>raw. fst (ReadEvent env z None r (int (unat x))) = Inr raw \<and>
    Unmarshal raw ev0 = (None, canonical (evs ! unat x)) \<and> (f, key) \<in> set (event_fields (canonical (evs ! unat x)))"
proof -
  from x obtain i where i: "i < length evs" "x = of_nat i" "(f, key) \<in> set (event_fields (evs ! i))"
    unfolding ids_with_numbered by blast
  have ev: "encodable (evs ! i)" "well_addressed (evs ! i)" using evs(2) i(1) by auto
  have pos: "unat x = i" unfolding i(2) by (rule unat_position [OF i(1) evs(1)])
  have "fst (ReadEvent env z None r (int i)) = Inr (Marshal [] (evs ! i))"
    using pf_reader.read_holds [OF holds, of "int i"] i(1) by simp
  moreover have "Unmarshal (Marshal [] (evs ! i)) ev0 = (None, canonical (evs ! i))"
    using Unmarshal_Marshal [OF ev(1), of "[]" ev0] by simp
  ultimately show ?thesis using i(3) event_fields_canonical [OF ev(2)] by (simp add: pos)
qed

end
