(* ===== verification/Rocks_Bitmap.thy ===== *)
theory Rocks_Bitmap
  imports Bitmap_Reader Rocks_Store
begin

text \<open>
  bitmapindex/rocksdb: the bitmap index on RocksDB. The key of a field and value is the
  field's byte followed by the value, so keys of different fields never meet; the value
  is the serialized bitmap. A whole key is compared on lookup, so the index is exact.
\<close>

section \<open>Writer\<close>

definition compositeKey :: "Field \<Rightarrow> bytes \<Rightarrow> bytes" where
  "compositeKey f key = put_at ((replicate (1 + length key) 0)[0 := f]) 1 key"

lemma compositeKey_eq: "compositeKey f key = f # key"
  by (simp add: compositeKey_def put_at_def)

record 'bm RocksBitmapWriter =
  rbwDbPath :: string
  rbwBitmaps :: "(bytes \<times> 'bm) list option"

definition RocksBitmap_NewWriter :: "string \<Rightarrow> 'bm RocksBitmapWriter" where
  "RocksBitmap_NewWriter dbPath = \<lparr>rbwDbPath = dbPath, rbwBitmaps = Some []\<rparr>"

definition rocks_bitmap_add ::
  "'bm roaring \<Rightarrow> 'bm RocksBitmapWriter \<Rightarrow> Field \<Rightarrow> bytes \<Rightarrow> uint32 \<Rightarrow> pf_error + 'bm RocksBitmapWriter" where
  "rocks_bitmap_add B w f key ordinal =
    (let ck = compositeKey f key
     in case rbwBitmaps w of
          None \<Rightarrow> Inl (Panic ''assignment to entry in nil map'')
        | Some m \<Rightarrow> Inr (w\<lparr>rbwBitmaps := Some (add_ordinal B m ck ordinal)\<rparr>))"

fun rocks_add_topics ::
  "'bm roaring \<Rightarrow> 'bm RocksBitmapWriter \<Rightarrow> nat \<Rightarrow> bytes list \<Rightarrow> uint32 \<Rightarrow> pf_error + 'bm RocksBitmapWriter" where
  "rocks_add_topics B w i [] ordinal = Inr w"
| "rocks_add_topics B w i (topic # topics) ordinal =
    (if i \<ge> 4 then Inr w
     else case rocks_bitmap_add B w (FieldTopic0 + of_nat i) topic ordinal of
            Inl e \<Rightarrow> Inl e
          | Inr w \<Rightarrow> rocks_add_topics B w (i + 1) topics ordinal)"

definition RocksBitmap_Add ::
  "'bm roaring \<Rightarrow> 'bm RocksBitmapWriter \<Rightarrow> Event \<Rightarrow> uint32 \<Rightarrow> pf_error + 'bm RocksBitmapWriter" where
  "RocksBitmap_Add B w ev ordinal =
    (case (case ContractID ev of None \<Rightarrow> Inr w | Some c \<Rightarrow> rocks_bitmap_add B w FieldContractID c ordinal) of
       Inl e \<Rightarrow> Inl e
     | Inr w \<Rightarrow> rocks_add_topics B w 0 (Topics ev) ordinal)"

fun sst_add_bitmaps ::
  "('w, 'sst, 'db) grocksdb \<Rightarrow> 'bm roaring \<Rightarrow> 'sst \<Rightarrow> (bytes \<times> 'bm) list \<Rightarrow> ix_error + 'sst" where
  "sst_add_bitmaps R B sfw [] = Inr sfw"
| "sst_add_bitmaps R B sfw ((ck, bm) # rest) =
    (case ToBytes B (RunOptimize B bm) of
       Inl e \<Rightarrow> Inl (lib_error ''rocksdb bitmapindex: serialize bitmap: '' e)
     | Inr val \<Rightarrow>
         (case SST_Add R sfw ck val of
            Inl e \<Rightarrow> Inl (lib_error ''rocksdb bitmapindex: sst add: '' e)
          | Inr sfw \<Rightarrow> sst_add_bitmaps R B sfw rest))"

definition bitmap_sst_config :: SSTWriteConfig where
  "bitmap_sst_config = \<lparr>cfgBlockSize = 4096, cfgBlockRestartInterval = 16, cfgBlockSizeDeviation = 0,
    cfgCompressionThreads = 0, cfgNoCompression = False\<rparr>"

text \<open>The SST file is removed when an error comes before it is finished.\<close>

definition RocksBitmap_Finish ::
  "('w, 'sst, 'db) grocksdb \<Rightarrow> 'bm roaring \<Rightarrow> 'w \<Rightarrow> 'bm RocksBitmapWriter
    \<Rightarrow> ix_error option \<times> 'w \<times> 'bm RocksBitmapWriter" where
  "RocksBitmap_Finish R B world w =
    (if nilable (rbwBitmaps w) = []
     then (Some (IxErr (ErrPlain ''rocksdb bitmapindex: no keys to index'')), world, w)
     else
       let entries = sort_key fst (nilable (rbwBitmaps w));
           w = w\<lparr>rbwBitmaps := None\<rparr>;
           cfg = bitmap_sst_config;
           sstPath = Join (Dir (rbwDbPath w)) ''bitmapindex_ingest.sst''
       in case SST_Open R (NewSSTWriteOptions R cfg) world sstPath of
            (Inl e, world) \<Rightarrow> (Some (lib_error ''rocksdb bitmapindex: sst open: '' e), Remove R world sstPath, w)
          | (Inr sfw, world) \<Rightarrow>
              (case sst_add_bitmaps R B sfw entries of
                 Inl e \<Rightarrow> (Some e, Remove R world sstPath, w)
               | Inr sfw \<Rightarrow>
                   (case SST_Finish R sfw world of
                      (Some e, world) \<Rightarrow>
                        (Some (lib_error ''rocksdb bitmapindex: sst finish: '' e), Remove R world sstPath, w)
                    | (None, world) \<Rightarrow>
                        (case IngestSST R world (rbwDbPath w) sstPath cfg of
                           (err, world) \<Rightarrow> (map_option (\<lambda>e. IxErr (ErrPlain e)) err, world, w)))))"

section \<open>Reader\<close>

record 'db RocksBitmapReader =
  rbDbPath :: string
  rbConcurrency :: int
  rbOpened :: "ix_error + 'db"
  rbReleased :: bool

definition RocksBitmap_Open ::
  "('w, 'sst, 'db) grocksdb \<Rightarrow> 'w \<Rightarrow> string \<Rightarrow> int list \<Rightarrow> 'db RocksBitmapReader" where
  "RocksBitmap_Open R world dbPath withConcurrency =
    (let concurrency = foldl (\<lambda>c n. n) 8 withConcurrency;
         concurrency = (if concurrency < 1 then 1 else concurrency)
     in \<lparr>rbDbPath = dbPath, rbConcurrency = concurrency,
         rbOpened = (case OpenReadOnly R world dbPath of Inl e \<Rightarrow> Inl (IxErr (ErrPlain e)) | Inr db \<Rightarrow> Inr db),
         rbReleased = False\<rparr>)"

definition RocksBitmap_Lookup ::
  "('w, 'sst, 'db) grocksdb \<Rightarrow> 'bm roaring \<Rightarrow> 'db RocksBitmapReader \<Rightarrow> Field \<Rightarrow> bytes \<Rightarrow> ix_error + 'bm option" where
  "RocksBitmap_Lookup R B r f key =
    (case rbOpened r of
       Inl e \<Rightarrow> Inl e
     | Inr db \<Rightarrow>
         (case GetPinned R (NewReadOptions R) db (compositeKey f key) of
            Inl e \<Rightarrow> Inl (lib_error ''rocksdb bitmapindex: get: '' e)
          | Inr None \<Rightarrow> Inl (IxErr ErrKeyNotFound)
          | Inr (Some val) \<Rightarrow>
              (case UnmarshalBinary B val of
                 Inl e \<Rightarrow> Inl (lib_error ''rocksdb bitmapindex: deserialize bitmap: '' e)
               | Inr bm \<Rightarrow> Inr (Some bm))))"

text \<open>The values of a batch: the first that does not deserialize ends the loop.\<close>

fun deserialize_into ::
  "'bm roaring \<Rightarrow> 'bm option list \<Rightarrow> nat \<Rightarrow> bytes option list \<Rightarrow> string option \<times> 'bm option list" where
  "deserialize_into B bitmaps k [] = (None, bitmaps)"
| "deserialize_into B bitmaps k (None # vals) = deserialize_into B bitmaps (k + 1) vals"
| "deserialize_into B bitmaps k (Some val # vals) =
    (case UnmarshalBinary B val of
       Inl e \<Rightarrow> (Some e, bitmaps)
     | Inr bm \<Rightarrow> deserialize_into B (bitmaps[k := Some bm]) (k + 1) vals)"

definition worker_lookup ::
  "('w, 'sst, 'db) grocksdb \<Rightarrow> 'bm roaring \<Rightarrow> read_options \<Rightarrow> 'db \<Rightarrow> bytes list
    \<Rightarrow> string option \<times> 'bm option list \<Rightarrow> nat \<times> nat \<Rightarrow> string option \<times> 'bm option list" where
  "worker_lookup R B ro db sortedKeys = (\<lambda>(firstErr, bitmaps) (lo, hi).
    case BatchedMultiGetCF R ro db (slice sortedKeys lo hi) of
      Inl e \<Rightarrow> (case firstErr of None \<Rightarrow> Some e | Some e' \<Rightarrow> Some e', bitmaps)
    | Inr vals \<Rightarrow>
        (case deserialize_into B bitmaps lo vals of
           (None, bitmaps) \<Rightarrow> (firstErr, bitmaps)
         | (Some e, bitmaps) \<Rightarrow> (case firstErr of None \<Rightarrow> Some e | Some e' \<Rightarrow> Some e', bitmaps)))"

definition scatter :: "nat \<Rightarrow> (nat \<times> 'bm option) list \<Rightarrow> 'bm option list" where
  "scatter n stores = foldl (\<lambda>out (i, bm). out[i := bm]) (replicate n None) stores"

text \<open>
  \<open>indexed\<close> are the keys with their original positions as the sort leaves them, and
  \<open>order\<close> the order in which the workers' reads return.
\<close>

definition RocksBitmap_LookupKeys ::
  "('w, 'sst, 'db) grocksdb \<Rightarrow> 'bm roaring \<Rightarrow> 'db RocksBitmapReader \<Rightarrow> (nat \<times> bytes) list \<Rightarrow> (nat \<times> nat) list
    \<Rightarrow> FieldKey list \<Rightarrow> ix_error + 'bm option list" where
  "RocksBitmap_LookupKeys R B r indexed order keys =
    (if keys = [] then Inr []
     else case rbOpened r of
       Inl e \<Rightarrow> Inl e
     | Inr db \<Rightarrow>
         let sortedKeys = map snd indexed;
             ro = (NewReadOptions R)\<lparr>asyncIO := True\<rparr>;
             bitmaps = replicate (length sortedKeys) None;
             concurrency = min (rbConcurrency r) (int (length sortedKeys));
             fetched =
               (if concurrency \<le> 1
                then case BatchedMultiGetCF R ro db sortedKeys of
                       Inl e \<Rightarrow> Inl (lib_error ''rocksdb bitmapindex: batched multi get: '' e)
                     | Inr vals \<Rightarrow>
                         (case deserialize_into B bitmaps 0 vals of
                            (Some e, bitmaps) \<Rightarrow> Inl (lib_error ''rocksdb bitmapindex: deserialize bitmap for key: '' e)
                          | (None, bitmaps) \<Rightarrow> Inr bitmaps)
                else case foldl (worker_lookup R B ro db sortedKeys) (None, bitmaps) order of
                       (Some e, bitmaps) \<Rightarrow> Inl (lib_error ''rocksdb bitmapindex: batched multi get: '' e)
                     | (None, bitmaps) \<Rightarrow> Inr bitmaps)
         in case fetched of
              Inl e \<Rightarrow> Inl e
            | Inr bitmaps \<Rightarrow> Inr (scatter (length keys) (zip (map fst indexed) bitmaps)))"

text \<open>What the unstable sort and the workers may do.\<close>

definition indexed_keys :: "FieldKey list \<Rightarrow> (nat \<times> bytes) list" where
  "indexed_keys keys = enumerate 0 (map (\<lambda>k. compositeKey (fkField k) (fkKey k)) keys)"

definition possible_sort :: "FieldKey list \<Rightarrow> (nat \<times> bytes) list \<Rightarrow> bool" where
  "possible_sort keys indexed \<longleftrightarrow> mset indexed = mset (indexed_keys keys) \<and> sorted (map snd indexed)"

definition possible_workers :: "'db RocksBitmapReader \<Rightarrow> FieldKey list \<Rightarrow> (nat \<times> nat) list \<Rightarrow> bool" where
  "possible_workers r keys order \<longleftrightarrow>
    mset order = mset (worker_ranges (length keys) (nat (min (rbConcurrency r) (int (length keys)))))"

definition RocksBitmap_Close :: "'db RocksBitmapReader \<Rightarrow> pf_error option \<times> 'db RocksBitmapReader" where
  "RocksBitmap_Close r = (None, if rbReleased r then r else r\<lparr>rbReleased := True\<rparr>)"

section \<open>Sessions\<close>

fun rocks_add_events ::
  "'bm roaring \<Rightarrow> 'bm RocksBitmapWriter \<Rightarrow> (Event \<times> uint32) list \<Rightarrow> pf_error + 'bm RocksBitmapWriter" where
  "rocks_add_events B w [] = Inr w"
| "rocks_add_events B w ((ev, ordinal) # evs) =
    (case RocksBitmap_Add B w ev ordinal of Inl e \<Rightarrow> Inl e | Inr w \<Rightarrow> rocks_add_events B w evs)"

definition write_rocks_index ::
  "('w, 'sst, 'db) grocksdb \<Rightarrow> 'bm roaring \<Rightarrow> string \<Rightarrow> 'w \<Rightarrow> (Event \<times> uint32) list \<Rightarrow> ix_error option \<times> 'w" where
  "write_rocks_index R B dbPath world evs =
    (case rocks_add_events B (RocksBitmap_NewWriter dbPath) evs of
       Inl e \<Rightarrow> (Some (IxErr e), world)
     | Inr w \<Rightarrow> (case RocksBitmap_Finish R B world w of (err, world, w) \<Rightarrow> (err, world)))"

section \<open>The collected bitmaps\<close>

lemma compositeKey_inject [simp]: "compositeKey f key = compositeKey f' key' \<longleftrightarrow> f = f' \<and> key = key'"
  by (simp add: compositeKey_eq)

lemma keyed_composite: "keyed compositeKey evs (compositeKey f key) = ids_with evs f key"
  by (auto simp: keyed_def ids_with_def)

lemma rocks_add_topics_fold:
  "rbwBitmaps w = Some m \<Longrightarrow> rocks_add_topics B w i topics x =
    Inr (w\<lparr>rbwBitmaps := Some (foldl (\<lambda>m (f, k). add_ordinal B m (compositeKey f k) x) m
      (map (\<lambda>(i, topic). (FieldTopic0 + of_nat i, topic)) (enumerate i (take (4 - i) topics))))\<rparr>)"
proof (induction topics arbitrary: i w m)
  case (Cons topic topics)
  show ?case
  proof (cases "4 \<le> i")
    case False
    then have "4 - i = Suc (4 - Suc i)" by simp
    then show ?thesis
      using False Cons.prems by (simp add: rocks_bitmap_add_def Let_def Cons.IH)
  qed (use Cons.prems in simp)
qed simp

lemma RocksBitmap_Add_fold:
  assumes "rbwBitmaps w = Some m"
  shows "RocksBitmap_Add B w ev x =
    Inr (w\<lparr>rbwBitmaps := Some (foldl (\<lambda>m (f, k). add_ordinal B m (compositeKey f k) x) m (event_fields ev))\<rparr>)"
  using assms
  by (cases "ContractID ev")
    (simp_all add: RocksBitmap_Add_def event_fields_def rocks_add_topics_fold rocks_bitmap_add_def Let_def)

lemma rocks_add_events_bitmaps:
  assumes B: "roaring_contract B members"
  shows "rbwBitmaps w = Some m \<Longrightarrow> bitmaps_of members m (keyed compositeKey evs0) \<Longrightarrow>
    \<exists>m'. rocks_add_events B w evs = Inr (w\<lparr>rbwBitmaps := Some m'\<rparr>) \<and>
      bitmaps_of members m' (keyed compositeKey (evs0 @ evs))"
proof (induction evs arbitrary: w m evs0)
  case Nil
  from Nil(1) have "w\<lparr>rbwBitmaps := Some m\<rparr> = w" by (cases w) simp
  then show ?case using Nil(2) by (intro exI [of _ m]) simp
next
  case (Cons e evs)
  obtain ev x where e: "e = (ev, x)" by (cases e)
  let ?m = "foldl (\<lambda>m (f, k). add_ordinal B m (compositeKey f k) x) m (event_fields ev)"
  have "bitmaps_of members ?m (keyed compositeKey (evs0 @ [e]))"
    using foldl_add_ordinal [OF B Cons.prems(2), of compositeKey x "event_fields ev"] by (simp add: e with_fields_keyed)
  with Cons.IH [of "w\<lparr>rbwBitmaps := Some ?m\<rparr>" ?m "evs0 @ [e]"] show ?case
    by (simp add: e RocksBitmap_Add_fold [OF Cons.prems(1)])
qed

section \<open>The database of a finished index\<close>

text \<open>The entries hold a serialization of the bitmap of every key.\<close>

definition bitmap_entries ::
  "'bm roaring \<Rightarrow> ('bm \<Rightarrow> uint32 set) \<Rightarrow> (bytes \<Rightarrow> uint32 set) \<Rightarrow> entries \<Rightarrow> bool" where
  "bitmap_entries B members T es \<longleftrightarrow>
    (\<forall>ck. case map_of es ck of
       None \<Rightarrow> T ck = {}
     | Some raw \<Rightarrow> T ck \<noteq> {} \<and> (\<exists>bm. UnmarshalBinary B raw = Inr bm \<and> members bm = T ck))"

lemma sst_add_bitmaps_entries:
  assumes c: "sst_contract R V"
  shows "sst_file V sfw = (p, es) \<Longrightarrow> sst_add_bitmaps R B sfw bms = Inr sfw' \<Longrightarrow>
    \<exists>raws. sst_file V sfw' = (p, es @ zip (map fst bms) raws) \<and>
      list_all2 (\<lambda>(ck, bm) raw. ToBytes B (RunOptimize B bm) = Inr raw) bms raws"
proof (induction bms arbitrary: sfw es)
  case (Cons b bms)
  obtain ck bm where b: "b = (ck, bm)" by (cases b)
  from Cons.prems(2) obtain val sfw1 where s: "ToBytes B (RunOptimize B bm) = Inr val" "SST_Add R sfw ck val = Inr sfw1"
    "sst_add_bitmaps R B sfw1 bms = Inr sfw'"
    by (auto simp: b split: sum.splits)
  have "sst_file V sfw1 = (p, es @ [(ck, val)])"
    using c Cons.prems(1) s(2) unfolding sst_contract_def by blast
  from Cons.IH [OF this s(3)] obtain raws where "sst_file V sfw' = (p, es @ zip (map fst (b # bms)) (val # raws))"
    "list_all2 (\<lambda>(ck, bm) raw. ToBytes B (RunOptimize B bm) = Inr raw) (b # bms) (val # raws)"
    using s(1) by (auto simp: b)
  then show ?case by blast
qed simp

lemma SST_Finish_disk:
  "sst_contract R V \<Longrightarrow> sst_file V sfw = (p, es) \<Longrightarrow> SST_Finish R sfw w = (None, w') \<Longrightarrow>
    sst_on_disk V w' p = Some es \<and> db_on_disk V w' = db_on_disk V w"
  unfolding sst_contract_def by blast

lemma bitmaps_of_case:
  "bitmaps_of members m T \<Longrightarrow> case map_of m ck of None \<Rightarrow> T ck = {} | Some bm \<Rightarrow> members bm = T ck \<and> T ck \<noteq> {}"
  by (simp add: bitmaps_of_def)

lemma map_of_zip_sorted:
  assumes "distinct (map fst m)" "list_all2 P (sort_key fst m) raws"
  shows "map_of m ck = None \<Longrightarrow> map_of (zip (map fst (sort_key fst m)) raws) ck = None"
    "map_of m ck = Some bm \<Longrightarrow> \<exists>raw. map_of (zip (map fst (sort_key fst m)) raws) ck = Some raw \<and> P (ck, bm) raw"
proof -
  let ?s = "sort_key fst m" let ?z = "zip (map fst (sort_key fst m)) raws"
  have len: "length ?s = length raws" using assms(2) by (rule list_all2_lengthD)
  have keys: "map fst ?z = map fst ?s" using len by simp
  have d: "distinct (map fst ?s)" 
    using assms(1) mset_eq_imp_distinct_iff [of "map fst ?s" "map fst m"] by simp
  show "map_of m ck = None \<Longrightarrow> map_of ?z ck = None"
    using keys by (simp add: map_of_eq_None_iff flip: set_map) (metis list.set_map set_sort)
  assume "map_of m ck = Some bm"
  then have "(ck, bm) \<in> set ?s" by (simp add: map_of_SomeD)
  then obtain i where i: "i < length ?s" "?s ! i = (ck, bm)" unfolding in_set_conv_nth by blast
  then have "(ck, raws ! i) \<in> set ?z" using len by (force simp: set_zip)
  then have "map_of ?z ck = Some (raws ! i)" using d keys by (intro map_of_is_SomeI) simp_all
  then show "\<exists>raw. map_of ?z ck = Some raw \<and> P (ck, bm) raw"
    using list_all2_nthD [OF assms(2) i(1)] i(2) by auto
qed

lemma write_rocks_index_entries:
  assumes c: "sst_contract R V" "db_contract R V" "roaring_contract B members"
    and fresh: "db_on_disk V world dbPath = None"
    and run: "write_rocks_index R B dbPath world evs = (None, world')"
  shows "\<exists>es. db_on_disk V world' dbPath = Some es \<and> bitmap_entries B members (keyed compositeKey evs) es"
proof -
  let ?w0 = "RocksBitmap_NewWriter dbPath :: 'bm RocksBitmapWriter"
  have "rbwBitmaps ?w0 = Some []" by (simp add: RocksBitmap_NewWriter_def)
  from rocks_add_events_bitmaps [OF c(3) this bitmaps_of_empty, of evs] obtain m where
    m: "rocks_add_events B ?w0 evs = Inr (?w0\<lparr>rbwBitmaps := Some m\<rparr>)" "bitmaps_of members m (keyed compositeKey evs)"
    by auto
  let ?s = "sort_key fst m" let ?p = "Join (Dir dbPath) ''bitmapindex_ingest.sst''"
  from run m(1) obtain sfw sfw' w1 w2 where s: "SST_Open R (NewSSTWriteOptions R bitmap_sst_config) world ?p = (Inr sfw, w1)"
    "sst_add_bitmaps R B sfw ?s = Inr sfw'" "SST_Finish R sfw' w1 = (None, w2)"
    "IngestSST R w2 dbPath ?p bitmap_sst_config = (None, world')"
    by (auto simp: write_rocks_index_def RocksBitmap_Finish_def RocksBitmap_NewWriter_def Let_def
        split: prod.splits sum.splits option.splits if_splits)
  have o': "sst_file V sfw = (?p, [])" "db_on_disk V w1 = db_on_disk V world"
    using c(1) s(1) unfolding sst_contract_def by blast+
  from sst_add_bitmaps_entries [OF c(1) o'(1) s(2)] obtain raws where
    r: "sst_file V sfw' = (?p, zip (map fst ?s) raws)"
    "list_all2 (\<lambda>(ck, bm) raw. ToBytes B (RunOptimize B bm) = Inr raw) ?s raws" by auto
  have "sst_on_disk V w2 ?p = Some (zip (map fst ?s) raws)" "db_on_disk V w2 dbPath = None"
    using SST_Finish_disk [OF c(1) r(1) s(3)] o'(2) fresh by simp_all
  from IngestSST_fresh [OF c(2) s(4) this(2,1)] have
    disk: "db_on_disk V world' dbPath = Some (zip (map fst ?s) raws)" .
  have d: "distinct (map fst m)" using m(2) by (simp add: bitmaps_of_def)
  have "case map_of (zip (map fst ?s) raws) ck of None \<Rightarrow> keyed compositeKey evs ck = {}
      | Some raw \<Rightarrow> keyed compositeKey evs ck \<noteq> {} \<and> (\<exists>bm. UnmarshalBinary B raw = Inr bm \<and> members bm = keyed compositeKey evs ck)"
    for ck
  proof (cases "map_of m ck")
    case None
    then show ?thesis
      using map_of_zip_sorted(1) [OF d r(2) None] bitmaps_of_case [OF m(2), of ck] None by simp
  next
    case (Some bm)
    from map_of_zip_sorted(2) [OF d r(2) Some] obtain raw where
      raw: "map_of (zip (map fst ?s) raws) ck = Some raw" "ToBytes B (RunOptimize B bm) = Inr raw" by auto
    have "members bm = keyed compositeKey evs ck" "keyed compositeKey evs ck \<noteq> {}"
      using bitmaps_of_case [OF m(2), of ck] Some by simp_all
    moreover obtain bm' where "UnmarshalBinary B raw = Inr bm'" "members bm' = members bm"
      using c(3) raw(2) unfolding roaring_contract_def by metis
    ultimately show ?thesis using raw(1) by simp
  qed
  with disk show ?thesis unfolding bitmap_entries_def by blast
qed

section \<open>The index keeps its contract\<close>

text \<open>The answer for a key of the database.\<close>

definition entry_bitmap :: "'bm roaring \<Rightarrow> bytes option \<Rightarrow> 'bm option" where
  "entry_bitmap B val =
    (case val of
       None \<Rightarrow> None
     | Some raw \<Rightarrow> (case UnmarshalBinary B raw of Inl e \<Rightarrow> None | Inr bm \<Rightarrow> Some bm))"

definition rocks_index_holds ::
  "('w, 'sst, 'db) grocksdb \<Rightarrow> ('w, 'sst, 'db) rocks_view \<Rightarrow> 'bm roaring \<Rightarrow> ('bm \<Rightarrow> uint32 set)
    \<Rightarrow> 'db RocksBitmapReader \<Rightarrow> (Field \<Rightarrow> bytes \<Rightarrow> uint32 set) \<Rightarrow> bool" where
  "rocks_index_holds R V B members r ix \<longleftrightarrow> read_contract R V \<and>
    (\<exists>db T. rbOpened r = Inr db \<and> bitmap_entries B members T (db_entries V db) \<and>
      (\<forall>f key. ix f key = T (compositeKey f key)))"

lemma bitmap_entries_case:
  assumes "bitmap_entries B members T es"
  shows "T ck \<noteq> {} \<Longrightarrow> \<exists>bm raw. map_of es ck = Some raw \<and> UnmarshalBinary B raw = Inr bm \<and> members bm = T ck"
    "T ck = {} \<Longrightarrow> map_of es ck = None"
  using assms by (auto simp: bitmap_entries_def split: option.splits dest: spec [of _ ck])

lemma RocksBitmap_Lookup_entry:
  assumes "read_contract R V" "rbOpened r = Inr db" "bitmap_entries B members T (db_entries V db)"
  shows "RocksBitmap_Lookup R B r f key =
    (case entry_bitmap B (map_of (db_entries V db) (compositeKey f key)) of
       None \<Rightarrow> Inl (IxErr ErrKeyNotFound) | Some bm \<Rightarrow> Inr (Some bm))"
  using assms(1,2) bitmap_entries_case [OF assms(3), of "compositeKey f key"]
  by (cases "T (compositeKey f key) = {}")
    (auto simp: RocksBitmap_Lookup_def entry_bitmap_def read_contract_def split: option.split)

text \<open>
  While the workers run, every slot of \<open>bitmaps\<close> is empty or final: \<open>final i\<close> is what the
  database has for the \<open>i\<close>-th sorted key.
\<close>

definition slots_ok :: "(nat \<Rightarrow> 'bm option) \<Rightarrow> nat \<Rightarrow> nat set \<Rightarrow> 'bm option list \<Rightarrow> bool" where
  "slots_ok final n done bitmaps \<longleftrightarrow> length bitmaps = n \<and>
    (\<forall>i < n. bitmaps ! i = None \<or> bitmaps ! i = final i) \<and> (\<forall>i \<in> done. i < n \<longrightarrow> bitmaps ! i = final i)"

lemma deserialize_into_slots:
  assumes "\<And>i raw. i < length vals \<Longrightarrow> vals ! i = Some raw \<Longrightarrow> \<exists>bm. UnmarshalBinary B raw = Inr bm"
    and "\<And>i. i < length vals \<Longrightarrow> final (k + i) = entry_bitmap B (vals ! i)"
    and "slots_ok final n done bitmaps" "k + length vals \<le> n"
  shows "\<exists>bitmaps'. deserialize_into B bitmaps k vals = (None, bitmaps') \<and>
    slots_ok final n (done \<union> {k..<k + length vals}) bitmaps'"
  using assms
proof (induction B bitmaps k vals arbitrary: "done" rule: deserialize_into.induct)
  case (2 B bitmaps k vals)
  have "final k = None" using 2(3) [of 0] by (simp add: entry_bitmap_def)
  then have "slots_ok final n (insert k done) bitmaps"
    using 2(4,5) by (auto simp: slots_ok_def dest: spec [of _ k])
  moreover have "insert k done \<union> {k + 1..<k + 1 + length vals} = done \<union> {k..<k + length (None # vals)}" by auto
  ultimately show ?case
    using 2(1) [of "insert k done"] 2(2) [of "Suc i" for i] 2(3) [of "Suc i" for i] 2(5) by fastforce
next
  case (3 B bitmaps k val vals)
  obtain bm where bm: "UnmarshalBinary B val = Inr bm" using 3(2) [of 0] by auto
  have "final k = Some bm" using 3(3) [of 0] bm by (simp add: entry_bitmap_def)
  then have "slots_ok final n (insert k done) (bitmaps[k := Some bm])"
    using 3(4,5) by (auto simp: slots_ok_def nth_list_update)
  moreover have "insert k done \<union> {k + 1..<k + 1 + length vals} = done \<union> {k..<k + length (Some val # vals)}" by auto
  ultimately show ?case
    using 3(1) [OF bm, of "insert k done"] 3(2) [of "Suc i" for i] 3(3) [of "Suc i" for i] 3(5) bm by fastforce
qed simp

lemma foldl_scatter:
  assumes "\<And>i b. (i, b) \<in> set stores \<Longrightarrow> f i = b" "\<And>i. i < n \<Longrightarrow> i \<in> fst ` set stores"
  shows "scatter n stores = map f [0..<n]"
proof -
  have "length (foldl (\<lambda>out (i, bm). out[i := bm]) out stores) = length out \<and>
    (\<forall>i < length out. foldl (\<lambda>out (i, bm). out[i := bm]) out stores ! i =
      (if i \<in> fst ` set stores then f i else out ! i))" for out
    using assms(1)
  proof (induction stores arbitrary: out)
    case (Cons s stores)
    obtain i b where s: "s = (i, b)" by (cases s)
    have f: "f i = b" using Cons.prems [of i b] by (simp add: s)
    have "length (foldl (\<lambda>out (i, bm). out[i := bm]) (out[i := b]) stores) = length (out[i := b]) \<and>
      (\<forall>k < length (out[i := b]). foldl (\<lambda>out (i, bm). out[i := bm]) (out[i := b]) stores ! k =
        (if k \<in> fst ` set stores then f k else out[i := b] ! k))"
      by (rule Cons.IH) (rule Cons.prems, simp)
    then show ?case using f by (auto simp: s nth_list_update)
  qed simp
  from this [of "replicate n None"] assms(2) show ?thesis
    by (intro nth_equalityI) (simp_all add: scatter_def)
qed

definition final_slot :: "'bm roaring \<Rightarrow> entries \<Rightarrow> bytes list \<Rightarrow> nat \<Rightarrow> 'bm option" where
  "final_slot B es sortedKeys i = entry_bitmap B (map_of es (sortedKeys ! i))"

lemma fetched_slots:
  assumes "bitmap_entries B members T es" "hi \<le> length keys" "slots_ok (final_slot B es keys) (length keys) done bitmaps"
  shows "\<exists>bitmaps'. deserialize_into B bitmaps lo (map (map_of es) (slice keys lo hi)) = (None, bitmaps') \<and>
    slots_ok (final_slot B es keys) (length keys) (done \<union> {lo..<hi}) bitmaps'"
proof -
  have nth: "slice keys lo hi ! i = keys ! (lo + i)" if "i < hi - lo" for i
    using that assms(2) by (simp add: slice_def)
  have "\<exists>bm. UnmarshalBinary B raw = Inr bm" if "map_of es ck = Some raw" for ck raw
    using bitmap_entries_case [OF assms(1), of ck] that by (cases "T ck = {}") auto
  moreover have "lo + (hi - lo) \<le> length keys \<or> hi < lo" using assms(2) by auto
  ultimately show ?thesis
    using deserialize_into_slots [of "map (map_of es) (slice keys lo hi)" B "final_slot B es keys" lo "length keys" "done" bitmaps]
      assms(2,3) nth
    by (cases "lo \<le> hi") (auto simp: final_slot_def length_slice, simp add: slice_def)
qed

lemma workers_lookup_slots:
  assumes "read_contract R V" "bitmap_entries B members T (db_entries V db)"
    and "\<forall>(lo, hi) \<in> set order. hi \<le> length keys"
    and "slots_ok (final_slot B (db_entries V db) keys) (length keys) done bitmaps"
  shows "\<exists>bitmaps'. foldl (worker_lookup R B ro db keys) (None, bitmaps) order = (None, bitmaps') \<and>
    slots_ok (final_slot B (db_entries V db) keys) (length keys) (done \<union> (\<Union>(lo, hi) \<in> set order. {lo..<hi})) bitmaps'"
  using assms(3,4)
proof (induction order arbitrary: bitmaps "done")
  case (Cons range order)
  obtain lo hi where range: "range = (lo, hi)" by (cases range)
  with Cons.prems(1) have "hi \<le> length keys" by simp
  from fetched_slots [OF assms(2) this Cons.prems(2), of lo] obtain b1 where
    b1: "deserialize_into B bitmaps lo (map (map_of (db_entries V db)) (slice keys lo hi)) = (None, b1)"
    "slots_ok (final_slot B (db_entries V db) keys) (length keys) (done \<union> {lo..<hi}) b1" by blast
  have "worker_lookup R B ro db keys (None, bitmaps) range = (None, b1)"
    using assms(1) b1(1) by (simp add: worker_lookup_def range read_contract_def)
  moreover have "done \<union> {lo..<hi} \<union> (\<Union>(lo, hi) \<in> set order. {lo..<hi}) = done \<union> (\<Union>(lo, hi) \<in> set (range # order). {lo..<hi})"
    by (auto simp: range)
  ultimately show ?case using Cons.IH [OF _ b1(2)] Cons.prems(1) by simp
qed simp

lemma RocksBitmap_LookupKeys_entries:
  assumes R: "read_contract R V" "rbOpened r = Inr db" "bitmap_entries B members T (db_entries V db)"
    and sort: "possible_sort keys indexed" and workers: "possible_workers r keys order"
  shows "RocksBitmap_LookupKeys R B r indexed order keys =
    Inr (map (\<lambda>k. entry_bitmap B (map_of (db_entries V db) (compositeKey (fkField k) (fkKey k)))) keys)"
proof (cases "keys = []")
  case False
  let ?es = "db_entries V db" let ?sorted = "map snd indexed" let ?n = "length keys"
  have set: "set indexed = set (indexed_keys keys)" using sort by (metis possible_sort_def mset_eq_setD)
  have len: "length indexed = ?n" using sort mset_eq_length by (fastforce simp: possible_sort_def indexed_keys_def)
  have start: "slots_ok (final_slot B ?es ?sorted) (length ?sorted) {} (replicate (length ?sorted) None)"
    by (simp add: slots_ok_def)
  have all: "map (final_slot B ?es ?sorted) [0..<length ?sorted] = bitmaps"
    if "slots_ok (final_slot B ?es ?sorted) (length ?sorted) done bitmaps" "{..<length ?sorted} \<subseteq> done" for "done" bitmaps
    using that by (intro nth_equalityI) (auto simp: slots_ok_def)
  let ?c = "min (rbConcurrency r) (int (length ?sorted))"
  have fetched: "(if ?c \<le> 1
      then case BatchedMultiGetCF R ro db ?sorted of
             Inl e \<Rightarrow> Inl (lib_error ''rocksdb bitmapindex: batched multi get: '' e)
           | Inr vals \<Rightarrow>
               (case deserialize_into B (replicate (length ?sorted) None) 0 vals of
                  (Some e, bitmaps) \<Rightarrow> Inl (lib_error ''rocksdb bitmapindex: deserialize bitmap for key: '' e)
                | (None, bitmaps) \<Rightarrow> Inr bitmaps)
      else case foldl (worker_lookup R B ro db ?sorted) (None, replicate (length ?sorted) None) order of
             (Some e, bitmaps) \<Rightarrow> Inl (lib_error ''rocksdb bitmapindex: batched multi get: '' e)
           | (None, bitmaps) \<Rightarrow> Inr bitmaps) = Inr (map (final_slot B ?es ?sorted) [0..<length ?sorted])" for ro
  proof (cases "?c \<le> 1")
    case True
    from fetched_slots [OF R(3) _ start, of "length ?sorted" 0] obtain bitmaps where
      "deserialize_into B (replicate (length ?sorted) None) 0 (map (map_of ?es) ?sorted) = (None, bitmaps)"
      "slots_ok (final_slot B ?es ?sorted) (length ?sorted) ({} \<union> {0..<length ?sorted}) bitmaps"
      by (auto simp: slice_all slice_def)
    moreover have "{..<length ?sorted} \<subseteq> {} \<union> {0..<length ?sorted}" by auto
    moreover have "BatchedMultiGetCF R ro db ?sorted = Inr (map (map_of ?es) ?sorted)"
      using R(1) by (simp add: read_contract_def)
    ultimately show ?thesis using all True by simp
  next
    case c: False
    have order: "set order = set (worker_ranges (length ?sorted) (nat ?c))"
      using workers by (auto simp: possible_workers_def len dest: mset_eq_setD)
    then have bounds: "\<forall>(lo, hi) \<in> set order. hi \<le> length ?sorted"
      using worker_ranges_bounds [of _ _ "length ?sorted" "nat ?c"] by auto
    have cover: "{..<length ?sorted} \<subseteq> {} \<union> (\<Union>(lo, hi) \<in> set order. {lo..<hi})"
    proof
      fix k assume "k \<in> {..<length ?sorted}"
      then have k: "k < length ?sorted" by simp
      have "0 < nat ?c" using c by linarith
      from worker_ranges_cover [OF k this] order
      have "\<exists>(lo, hi) \<in> set order. lo \<le> k \<and> k < hi" by (simp only:)
      then obtain lo hi where "(lo, hi) \<in> set order" "k \<in> {lo..<hi}" by auto
      then show "k \<in> {} \<union> (\<Union>(lo, hi) \<in> set order. {lo..<hi})" by blast
    qed
    from workers_lookup_slots [OF R(1,3) bounds start, of ro] obtain bitmaps where
      "foldl (worker_lookup R B ro db ?sorted) (None, replicate (length ?sorted) None) order = (None, bitmaps)"
      "slots_ok (final_slot B ?es ?sorted) (length ?sorted) ({} \<union> (\<Union>(lo, hi) \<in> set order. {lo..<hi})) bitmaps"
      by blast
    with all [OF this(2) cover] c show ?thesis by simp
  qed
  let ?f = "\<lambda>j. entry_bitmap B (map_of ?es (compositeKey (fkField (keys ! j)) (fkKey (keys ! j))))"
  let ?stores = "zip (map fst indexed) (map (final_slot B ?es ?sorted) [0..<length ?sorted])"
  have ix: "ck = compositeKey (fkField (keys ! j)) (fkKey (keys ! j)) \<and> j < ?n" if "(j, ck) \<in> set indexed" for j ck
    using that unfolding set by (auto simp: indexed_keys_def in_set_enumerate_eq)
  have "scatter ?n ?stores = map ?f [0..<?n]"
  proof (rule foldl_scatter)
    fix j b assume "(j, b) \<in> set ?stores"
    then obtain i where i: "i < length indexed" "j = fst (indexed ! i)" "b = entry_bitmap B (map_of ?es (snd (indexed ! i)))"
      by (auto simp: in_set_zip final_slot_def)
    then have "(j, snd (indexed ! i)) \<in> set indexed" by (metis nth_mem prod.collapse)
    from ix [OF this] i(3) show "?f j = b" by simp
  next
    fix j assume "j < ?n"
    then have "(j, compositeKey (fkField (keys ! j)) (fkKey (keys ! j))) \<in> set indexed"
      unfolding set by (simp add: indexed_keys_def in_set_enumerate_eq)
    then have "j \<in> set (map fst indexed)" by force
    then show "j \<in> fst ` set ?stores" by (metis diff_zero length_map length_upt map_fst_zip set_map)
  qed
  also have "\<dots> = map (\<lambda>k. entry_bitmap B (map_of ?es (compositeKey (fkField k) (fkKey k)))) keys"
    by (rule nth_equalityI) simp_all
  finally show ?thesis
    using False R(2) fetched by (simp add: RocksBitmap_LookupKeys_def Let_def)
qed (simp add: RocksBitmap_LookupKeys_def)

lemma rocks_index_holds_lookup:
  assumes "rocks_index_holds R V B members r ix"
  shows "ix f key \<noteq> {} \<Longrightarrow> \<exists>bm. RocksBitmap_Lookup R B r f key = Inr (Some bm) \<and> members bm = ix f key"
    "ix f key = {} \<Longrightarrow> RocksBitmap_Lookup R B r f key = Inl (IxErr ErrKeyNotFound) \<or>
      (\<exists>bm f' key'. RocksBitmap_Lookup R B r f key = Inr (Some bm) \<and> members bm = ix f' key')"
    "ix f key = {} \<Longrightarrow> RocksBitmap_Lookup R B r f key = Inl (IxErr ErrKeyNotFound)"
proof -
  from assms obtain db T where db: "read_contract R V" "rbOpened r = Inr db"
    "bitmap_entries B members T (db_entries V db)" and T: "ix f key = T (compositeKey f key)"
    by (auto simp: rocks_index_holds_def)
  note entry = RocksBitmap_Lookup_entry [OF db, of f key]
  show "\<exists>bm. RocksBitmap_Lookup R B r f key = Inr (Some bm) \<and> members bm = ix f key" if "ix f key \<noteq> {}"
  proof -
    from that have "T (compositeKey f key) \<noteq> {}" by (simp only: T not_False_eq_True)
    from bitmap_entries_case(1) [OF db(3) this] obtain bm raw where
      "map_of (db_entries V db) (compositeKey f key) = Some raw" "UnmarshalBinary B raw = Inr bm"
      "members bm = T (compositeKey f key)" by blast
    then show ?thesis using entry T by (simp add: entry_bitmap_def)
  qed
  show absent: "RocksBitmap_Lookup R B r f key = Inl (IxErr ErrKeyNotFound)" if "ix f key = {}"
    using entry bitmap_entries_case(2) [OF db(3), of "compositeKey f key"] that T by (simp add: entry_bitmap_def)
  then show "RocksBitmap_Lookup R B r f key = Inl (IxErr ErrKeyNotFound) \<or>
      (\<exists>bm f' key'. RocksBitmap_Lookup R B r f key = Inr (Some bm) \<and> members bm = ix f' key')" if "ix f key = {}"
    using that by blast
qed

lemma rocks_index_holds_LookupKeys:
  assumes "rocks_index_holds R V B members r ix" "possible_sort keys indexed" "possible_workers r keys order"
  shows "RocksBitmap_LookupKeys R B r indexed order keys =
    Inr (map (\<lambda>k. case RocksBitmap_Lookup R B r (fkField k) (fkKey k) of Inl e \<Rightarrow> None | Inr bm \<Rightarrow> bm) keys)"
proof -
  from assms(1) obtain db T where db: "read_contract R V" "rbOpened r = Inr db"
    "bitmap_entries B members T (db_entries V db)"
    by (auto simp: rocks_index_holds_def)
  have "(case RocksBitmap_Lookup R B r f key of Inl e \<Rightarrow> None | Inr bm \<Rightarrow> bm) =
      entry_bitmap B (map_of (db_entries V db) (compositeKey f key))" for f key
    unfolding RocksBitmap_Lookup_entry [OF db] by (simp split: option.split)
  then show ?thesis using RocksBitmap_LookupKeys_entries [OF db assms(2,3)] by (simp only:)
qed

interpretation rocks_bitmap: exact_index "rocks_index_holds R V B members" "RocksBitmap_Lookup R B"
  "\<lambda>r keys res. \<exists>indexed order. possible_sort keys indexed \<and> possible_workers r keys order \<and>
    RocksBitmap_LookupKeys R B r indexed order keys = res"
  members "IxErr ErrKeyNotFound"
  for R V B members
proof (unfold_locales, goal_cases)
  case (1 r ix f key)
  then show ?case using rocks_index_holds_lookup(1) by blast
next
  case (2 r ix f key)
  then show ?case using rocks_index_holds_lookup(2) by blast
next
  case (3 r ix keys res)
  then show ?case using rocks_index_holds_LookupKeys by blast
next
  case (4 r ix f key)
  then show ?case using rocks_index_holds_lookup(3) by blast
qed

lemma RocksBitmap_LookupKeys_found:
  assumes "rocks_index_holds R V B members r ix" "possible_sort keys indexed" "possible_workers r keys order"
  shows "\<exists>bms. RocksBitmap_LookupKeys R B r indexed order keys = Inr bms \<and>
    map (map_option members) bms = map (\<lambda>k. found_ids (ix (fkField k) (fkKey k))) keys"
  using rocks_bitmap.lookup_keys_found [OF assms(1)] assms(2,3) by blast

text \<open>A session that succeeds leaves the index of its events.\<close>

definition rocks_index_accepts ::
  "('w, 'sst, 'db) grocksdb \<Rightarrow> ('w, 'sst, 'db) rocks_view \<Rightarrow> 'bm roaring \<Rightarrow> ('bm \<Rightarrow> uint32 set) \<Rightarrow> string \<Rightarrow> 'w \<Rightarrow> bool" where
  "rocks_index_accepts R V B members dbPath world \<longleftrightarrow> rocks_contract R V \<and> roaring_contract B members \<and>
    db_on_disk V world dbPath = None \<and>
    (\<forall>opts world'. db_on_disk V world' dbPath \<noteq> None \<longrightarrow> (\<exists>db. OpenDbForReadOnly R opts world' dbPath = Inr db))"

lemma write_rocks_index_holds:
  assumes "rocks_index_accepts R V B members dbPath world" "write_rocks_index R B dbPath world evs = (None, world')"
  shows "rocks_index_holds R V B members (RocksBitmap_Open R world' dbPath conc) (ids_with evs)"
proof -
  have c: "sst_contract R V" "db_contract R V" "read_contract R V" "roaring_contract B members" "db_on_disk V world dbPath = None"
    using assms(1) by (simp_all add: rocks_index_accepts_def rocks_contract_def)
  obtain es where es: "db_on_disk V world' dbPath = Some es" "bitmap_entries B members (keyed compositeKey evs) es"
    using write_rocks_index_entries [OF c(1,2,4,5) assms(2)] by blast
  then obtain db where db: "OpenDbForReadOnly R (read_only_options R) world' dbPath = Inr db"
    using assms(1) by (fastforce simp: rocks_index_accepts_def)
  from db_contractD(4) [OF c(2) this] es(1) have "db_entries V db = es" by simp
  then show ?thesis
    using c(3) es(2) db keyed_composite
    by (auto simp: rocks_index_holds_def RocksBitmap_Open_def OpenReadOnly_def Let_def)
qed

end
