(* ===== verification/Chunk_Reader.thy ===== *)
theory Chunk_Reader
  imports Os Binary Zstd
begin

text \<open>
  reader.go: a chunk is an index file (a header of eight bytes and little-endian offsets)
  and a data file of compressed ledgers. \<open>NewChunkReader\<close> parses the index,
  \<open>ReadLedger\<close> reads and decompresses one ledger.
\<close>

section \<open>The reader\<close>

definition indexHeaderSize :: nat where "indexHeaderSize = 8"
definition indexVersion :: byte where "indexVersion = 1"

datatype chunk_error =
    OpenIndex string
  | ReadHeader pf_error
  | BadVersion byte
  | BadOffsetSize byte
  | StatIndex
  | ReadOffsets pf_error
  | OpenData string
  | NewDecompressorFailed zstd_error
  | OutOfRange int int
  | ReadRecord int pf_error
  | DecompressRecord int zstd_error
  | ChunkPanic string

text \<open>The data file stays open: its contents, and whether it has been closed.\<close>

record ChunkReader =
  crDataFile :: bytes
  crFileClosed :: bool
  crOffsets :: "uint64 list"
  crDecompressor :: Decompressor
  crNumLedgers :: int

definition os_open :: "os_env \<Rightarrow> fs \<Rightarrow> string \<Rightarrow> string + bytes" where
  "os_open env fs path =
    (case fs path of
       None \<Rightarrow> Inl ''no such file''
     | Some contents \<Rightarrow> if open_fails env path then Inl ''open'' else Inr contents)"

definition parse_offset :: "byte \<Rightarrow> bytes \<Rightarrow> nat \<Rightarrow> uint64" where
  "parse_offset offsetSize offsetsData i =
    (if offsetSize = 4 then ucast (Uint32 (slice offsetsData (i * 4) (i * 4 + 4)))
     else Uint64 (slice offsetsData (i * 8) (i * 8 + 8)))"

definition NewChunkReader ::
  "os_env \<Rightarrow> libzstd \<Rightarrow> fs \<Rightarrow> string \<Rightarrow> string \<Rightarrow> chunk_error + ChunkReader" where
  "NewChunkReader env z fs indexPath dataPath =
    (case os_open env fs indexPath of
       Inl e \<Rightarrow> Inl (OpenIndex e)
     | Inr indexFile \<Rightarrow>
         (case ReadAt env indexFile indexHeaderSize 0 of
            Inl e \<Rightarrow> Inl (ReadHeader e)
          | Inr header \<Rightarrow>
              let version = header ! 0; offsetSize = header ! 1
              in if version \<noteq> indexVersion then Inl (BadVersion version)
                 else if offsetSize \<noteq> 4 \<and> offsetSize \<noteq> 8 then Inl (BadOffsetSize offsetSize)
                 else if stat_fails env indexPath then Inl StatIndex
                 else
                   let numOffsets = (length indexFile - indexHeaderSize) div unat offsetSize;
                       numLedgers = int numOffsets - 1
                   in case ReadAt env indexFile (numOffsets * unat offsetSize) (int indexHeaderSize) of
                        Inl e \<Rightarrow> Inl (ReadOffsets e)
                      | Inr offsetsData \<Rightarrow>
                          let offsets = map (parse_offset offsetSize offsetsData) [0..<numOffsets]
                          in case os_open env fs dataPath of
                               Inl e \<Rightarrow> Inl (OpenData e)
                             | Inr dataFile \<Rightarrow>
                                 (case NewDecompressor z of
                                    Inl e \<Rightarrow> Inl (NewDecompressorFailed e)
                                  | Inr d \<Rightarrow> Inr \<lparr>crDataFile = dataFile, crFileClosed = False,
                                      crOffsets = offsets, crDecompressor = d, crNumLedgers = numLedgers\<rparr>)))"

definition NumLedgers :: "ChunkReader \<Rightarrow> int" where
  "NumLedgers r = crNumLedgers r"

text \<open>Reading a closed file fails, but not when no bytes are asked for.\<close>

definition chunk_ReadAt :: "os_env \<Rightarrow> ChunkReader \<Rightarrow> nat \<Rightarrow> int \<Rightarrow> pf_error + bytes" where
  "chunk_ReadAt env r n off =
    (if off < 0 then Inl (ErrIO ''negative offset'')
     else if n = 0 then Inr []
     else if crFileClosed r then Inl (ErrIO ''file already closed'')
     else ReadAt env (crDataFile r) n off)"

text \<open>
  The two buffers of the reader only save allocations: a record of negative size never
  exceeds a capacity, so it reaches the slicing of the buffer, which panics, and a
  record larger than any capacity is allocated, which panics too.
\<close>

definition ReadLedger :: "os_env \<Rightarrow> libzstd \<Rightarrow> ChunkReader \<Rightarrow> int \<Rightarrow> chunk_error + bytes" where
  "ReadLedger env z r localIndex =
    (if localIndex < 0 \<or> localIndex \<ge> crNumLedgers r then Inl (OutOfRange localIndex (crNumLedgers r))
     else if nat localIndex + 1 \<ge> length (crOffsets r) then Inl (ChunkPanic ''index out of range'')
     else
       let startOffset = crOffsets r ! nat localIndex;
           endOffset = crOffsets r ! (nat localIndex + 1);
           recordSize = sint (endOffset - startOffset)
       in if recordSize < 0 then Inl (ChunkPanic ''slice bounds out of range'')
          else if recordSize > int maxAlloc then Inl (ChunkPanic ''makeslice: len out of range'')
          else case chunk_ReadAt env r (nat recordSize) (sint startOffset) of
                 Inl e \<Rightarrow> Inl (ReadRecord localIndex e)
               | Inr compBuf \<Rightarrow>
                   (case Decompressor_Decode z (crDecompressor r) compBuf of
                      Inl e \<Rightarrow> Inl (DecompressRecord localIndex e)
                    | Inr decompressed \<Rightarrow> Inr decompressed))"

definition Chunk_Close :: "ChunkReader \<Rightarrow> ChunkReader" where
  "Chunk_Close r = r\<lparr>crDecompressor := Decompressor_Close (crDecompressor r), crFileClosed := True\<rparr>"

fun chunk_panic :: "chunk_error \<Rightarrow> bool" where
  "chunk_panic (ChunkPanic _) = True"
| "chunk_panic (NewDecompressorFailed (ZPanic _)) = True"
| "chunk_panic (DecompressRecord _ (ZPanic _)) = True"
| "chunk_panic _ = False"

section \<open>Well-formed readers\<close>

text \<open>One offset more than there are ledgers; an index without offsets counts -1 ledgers.\<close>

definition chunk_ok :: "ChunkReader \<Rightarrow> bool" where
  "chunk_ok r \<longleftrightarrow> int (length (crOffsets r)) = crNumLedgers r + 1"

lemma NewChunkReader_ok: "NewChunkReader env z fs indexPath dataPath = Inr r \<Longrightarrow> chunk_ok r"
  by (auto simp: NewChunkReader_def chunk_ok_def Let_def split: sum.splits if_splits)

lemma Chunk_Close_ok: "chunk_ok r \<Longrightarrow> chunk_ok (Chunk_Close r)"
  by (simp add: chunk_ok_def Chunk_Close_def)

text \<open>
  On a well-formed reader only a record of negative size or one too large to allocate
  makes ReadLedger panic, or a frame that claims such a content.
\<close>

lemma ReadLedger_panic:
  assumes "chunk_ok r" and "n = sint (crOffsets r ! (nat i + 1) - crOffsets r ! nat i)"
  shows "(\<exists>e. ReadLedger env z r i = Inl e \<and> chunk_panic e) \<longleftrightarrow>
    0 \<le> i \<and> i < crNumLedgers r \<and> (n < 0 \<or> n > int maxAlloc \<or>
      (\<exists>frame. chunk_ReadAt env r (nat n) (sint (crOffsets r ! nat i)) = Inr frame \<and>
        Decompressor_Decode z (crDecompressor r) frame = Inl makeslice))"
proof -
  have "nat i + 1 < length (crOffsets r)" if "0 \<le> i" "i < crNumLedgers r"
    using that assms(1) by (simp add: chunk_ok_def)
  then show ?thesis
    unfolding assms(2)
    by (auto simp: ReadLedger_def Let_def not_le elim!: chunk_panic.elims split: sum.splits if_splits
        dest!: Decompressor_Decode_panic)
qed

section \<open>Reading a chunk back\<close>

text \<open>The index of some offsets; the last six bytes of the header are not looked at.\<close>

definition put_offset :: "byte \<Rightarrow> uint64 \<Rightarrow> bytes" where
  "put_offset offsetSize off = (if offsetSize = 4 then PutUint32 (ucast off) else PutUint64 off)"

definition chunk_index :: "byte \<Rightarrow> bytes \<Rightarrow> uint64 list \<Rightarrow> bytes" where
  "chunk_index offsetSize reserved offsets =
    [indexVersion, offsetSize] @ reserved @ concat (map (put_offset offsetSize) offsets)"

text \<open>The offsets of consecutive records, from the end of some bytes before them.\<close>

definition record_offsets :: "nat \<Rightarrow> bytes list \<Rightarrow> uint64 list" where
  "record_offsets before frames =
    map (\<lambda>i. of_nat (before + length (concat (take i frames)))) [0..<Suc (length frames)]"

lemma length_concat_fixed: "(\<And>x. x \<in> set xs \<Longrightarrow> length (g x) = n) \<Longrightarrow> length (concat (map g xs)) = n * length xs"
  by (induction xs) auto

lemma slice_concat_fixed:
  assumes "\<And>x. x \<in> set xs \<Longrightarrow> length (g x) = n" "i < length xs"
  shows "slice (concat (map g xs)) (i * n) (i * n + n) = g (xs ! i)"
  using assms
proof (induction xs arbitrary: i)
  case (Cons x xs)
  have "length (g x) = n" using Cons.prems(1) by simp
  then show ?case using Cons by (cases i) (simp_all add: slice_def)
qed simp

lemma put_offset_length: "offsetSize = 4 \<or> offsetSize = 8 \<Longrightarrow> length (put_offset offsetSize off) = unat offsetSize"
  by (auto simp: put_offset_def codec_len)

text \<open>An offset of four bytes must be below 2^32.\<close>

lemma parse_put_offset:
  assumes "offsetSize = 4 \<or> offsetSize = 8" "offsetSize = 4 \<Longrightarrow> \<forall>off \<in> set offsets. unat off < 2 ^ 32" "i < length offsets"
  shows "parse_offset offsetSize (concat (map (put_offset offsetSize) offsets)) i = offsets ! i"
proof -
  note len = put_offset_length [OF assms(1)]
  have small: "ucast (ucast w :: uint32) = w" if "unat w < 2 ^ 32" for w :: uint64
    using that by (simp add: word_unat_eq_iff unsigned_ucast_eq unsigned_take_bit_eq take_bit_nat_eq_self)
  show ?thesis
    using assms(1) slice_concat_fixed [of offsets "put_offset offsetSize", OF len assms(3)] assms(2,3) small
    by (auto simp: parse_offset_def put_offset_def)
qed

lemma NewChunkReader_index:
  assumes env: "read_ok env" "zstd_contract z" and size: "offsetSize = 4 \<or> offsetSize = 8"
    and small: "offsetSize = 4 \<Longrightarrow> \<forall>off \<in> set offsets. unat off < 2 ^ 32"
    and files: "fs indexPath = Some (chunk_index offsetSize reserved offsets)" "length reserved = 6"
    "fs dataPath = Some data"
  shows "NewChunkReader env z fs indexPath dataPath =
    Inr \<lparr>crDataFile = data, crFileClosed = False, crOffsets = offsets, crDecompressor = \<lparr>dctx = True\<rparr>,
      crNumLedgers = int (length offsets) - 1\<rparr>"
proof -
  let ?file = "chunk_index offsetSize reserved offsets" and ?offs = "concat (map (put_offset offsetSize) offsets)"
  have header: "?file = ([indexVersion, offsetSize] @ reserved) @ ?offs" by (simp add: chunk_index_def)
  have "length ?offs = unat offsetSize * length offsets"
    by (rule length_concat_fixed) (rule put_offset_length [OF size])
  then have len: "length ?file = 8 + length offsets * unat offsetSize" "length ?offs = length offsets * unat offsetSize"
    using files(2) by (simp_all add: header)
  have "ReadAt env ?file indexHeaderSize 0 = Inr (slice ?file 0 8)"
    using ReadAt_ok [OF env(1), of 0 8 ?file] len(1) by (simp add: indexHeaderSize_def)
  moreover have "slice ?file 0 8 = [indexVersion, offsetSize] @ reserved"
    using files(2) by (simp add: slice_def header)
  moreover have "ReadAt env ?file (length offsets * unat offsetSize) (int indexHeaderSize) = Inr ?offs"
    using ReadAt_ok [OF env(1), of 8 "length offsets * unat offsetSize" ?file] len files(2)
    by (simp add: indexHeaderSize_def slice_def header)
  moreover have "(length ?file - indexHeaderSize) div unat offsetSize = length offsets"
    using size by (auto simp: len indexHeaderSize_def)
  moreover have "map (parse_offset offsetSize ?offs) [0..<length offsets] = offsets"
    by (rule nth_equalityI) (simp_all add: parse_put_offset [OF size small])
  ultimately show ?thesis
    using env size files NewDecompressor_ok [OF env(2)]
    by (auto simp: NewChunkReader_def Let_def os_open_def read_ok_def)
qed

lemma ReadLedger_record:
  assumes env: "read_ok env" and r: "crDataFile r = before @ concat frames @ after'" "\<not> crFileClosed r"
    "crOffsets r = record_offsets (length before) frames" "crNumLedgers r = int (length frames)"
    and size: "length (crDataFile r) < 2 ^ 48" and i: "i < length frames"
    and dec: "Decompressor_Decode z (crDecompressor r) (frames ! i) = Inr ledger"
  shows "ReadLedger env z r (int i) = Inr ledger"
proof -
  let ?start = "length before + length (concat (take i frames))"
  have split: "concat frames = concat (take i frames) @ frames ! i @ concat (drop (Suc i) frames)"
    by (metis i id_take_nth_drop concat_append concat.simps(2))
  have end': "length before + length (concat (take (Suc i) frames)) = ?start + length (frames ! i)"
    using i by (simp add: take_Suc_conv_app_nth)
  have bound: "?start + length (frames ! i) < 2 ^ 48"
    using size unfolding r(1) split by simp
  have offs: "crOffsets r ! i = of_nat ?start" "crOffsets r ! (i + 1) = of_nat (?start + length (frames ! i))"
    "i + 1 < length (crOffsets r)"
    unfolding r(3) record_offsets_def using i end' by (simp_all del: upt_Suc)
  have word: "sint (of_nat n :: uint64) = int n" if "n < 2 ^ 63" for n
    using that sint_unat [of "of_nat n :: uint64"] by (simp add: unat_of_nat take_bit_nat_eq_self)
  have "crOffsets r ! (i + 1) - crOffsets r ! i = of_nat (length (frames ! i))" unfolding offs by simp
  moreover have alloc: "length (frames ! i) < 2 ^ 48" "?start < 2 ^ 48" using bound by linarith+
  then have "length (frames ! i) < 2 ^ 63" "?start < 2 ^ 63" by simp_all
  ultimately have rs: "sint (crOffsets r ! (i + 1) - crOffsets r ! i) = int (length (frames ! i))"
    "sint (crOffsets r ! i) = int ?start"
    by (simp_all only: offs(1) word)
  have "slice (crDataFile r) ?start (?start + length (frames ! i)) = frames ! i"
    unfolding r(1) split by (simp add: slice_def)
  moreover have "?start + length (frames ! i) \<le> length (crDataFile r)" unfolding r(1) split by simp
  ultimately have "ReadAt env (crDataFile r) (length (frames ! i)) (int ?start) = Inr (frames ! i)"
    using ReadAt_ok [OF env, of "int ?start" "length (frames ! i)" "crDataFile r"] by (simp only: nat_int of_nat_0_le_iff)
  then have "chunk_ReadAt env r (length (frames ! i)) (int ?start) = Inr (frames ! i)"
    using r(2) by (auto simp: chunk_ReadAt_def)
  then show ?thesis
    using i r(4) rs offs(3) dec alloc(1) by (simp add: ReadLedger_def Let_def)
qed

lemma record_offsets_small:
  assumes "length (before @ concat frames) < 2 ^ 32" "off \<in> set (record_offsets (length before) frames)"
  shows "unat off < 2 ^ 32"
proof -
  from assms(2) obtain i where off: "off = of_nat (length before + length (concat (take i frames)))"
    by (auto simp: record_offsets_def simp del: of_nat_add upt_Suc)
  have "concat frames = concat (take i frames) @ concat (drop i frames)"
    by (metis append_take_drop_id concat_append)
  then have "length before + length (concat (take i frames)) < 2 ^ 32" using assms(1) by simp
  then show ?thesis by (simp add: off unat_of_nat take_bit_nat_eq_self del: of_nat_add)
qed

lemma chunk_opens_reads:
  assumes "read_ok env" "zstd_contract z" "cctx c" "\<forall>ledger \<in> set ledgers. length ledger < 2 ^ 46"
    and frames: "list_all2 (\<lambda>ledger frame. Compressor_Encode z c ledger = Inr frame) ledgers frames"
    and size: "offsetSize = 4 \<and> length (before @ concat frames) < 2 ^ 32 \<or> offsetSize = 8" and "length reserved = 6"
    and index: "fs indexPath = Some (chunk_index offsetSize reserved (record_offsets (length before) frames))"
    and data: "fs dataPath = Some (before @ concat frames @ rest)" "length (before @ concat frames @ rest) < 2 ^ 48"
  shows "\<exists>r. NewChunkReader env z fs indexPath dataPath = Inr r \<and> NumLedgers r = int (length ledgers) \<and>
    (\<forall>i. ReadLedger env z r i =
      (if 0 \<le> i \<and> i < int (length ledgers) then Inr (ledgers ! nat i) else Inl (OutOfRange i (int (length ledgers)))))"
proof -
  let ?offsets = "record_offsets (length before) frames"
  let ?r = "\<lparr>crDataFile = before @ concat frames @ rest, crFileClosed = False, crOffsets = ?offsets,
    crDecompressor = \<lparr>dctx = True\<rparr>, crNumLedgers = int (length ?offsets) - 1\<rparr>"
  have n: "length frames = length ledgers" using frames by (simp add: list_all2_lengthD)
  have "NewChunkReader env z fs indexPath dataPath = Inr ?r"
    by (rule NewChunkReader_index [OF assms(1,2) _ _ index assms(7) data(1)]) (use size record_offsets_small in auto)
  moreover have "ReadLedger env z ?r (int i) = Inr (ledgers ! i)" if "i < length ledgers" for i
  proof -
    have "length (ledgers ! i) < 2 ^ 46" "Compressor_Encode z c (ledgers ! i) = Inr (frames ! i)"
      using that assms(4) list_all2_nthD [OF frames that] by auto
    with zstd_round_trip [OF assms(2,3), of "\<lparr>dctx = True\<rparr>" "ledgers ! i"]
    have "Decompressor_Decode z \<lparr>dctx = True\<rparr> (frames ! i) = Inr (ledgers ! i)" by simp
    then show ?thesis
      using that n data(2) by (intro ReadLedger_record [OF assms(1), where before = before and frames = frames and after' = rest])
        (simp_all add: record_offsets_def)
  qed
  then have "ReadLedger env z ?r i = Inr (ledgers ! nat i)" if "0 \<le> i" "i < int (length ledgers)" for i
    using that by (metis nat_less_iff int_nat_eq)
  moreover have "ReadLedger env z ?r i = Inl (OutOfRange i (int (length ledgers)))" if "\<not> (0 \<le> i \<and> i < int (length ledgers))" for i
    using that n by (auto simp: ReadLedger_def record_offsets_def)
  ultimately show ?thesis using n by (intro exI [of _ ?r]) (simp add: NumLedgers_def record_offsets_def)
qed

end
