(* ===== verification/Extractor.thy ===== *)
theory Extractor
  imports Event
begin

text \<open>
  extractor.go: the events of a ledger. The Stellar SDK (packages xdr and ingest) is not
  part of the repository: its calls are the fields of the record \<open>stellar_sdk\<close>, over its
  types of ledgers, transaction readers, transactions and values. Of a contract event the
  code reads the fields of \<open>ContractEvent\<close>.
\<close>

section \<open>The SDK\<close>

record 'sc ContractEvent =
  ceType :: int
  ceContractId :: "bytes option"
  ceBodyV :: int
  ceV0 :: "('sc list \<times> 'sc) option"

record 'sc TransactionEvents =
  teTransactionEvents :: "'sc ContractEvent list"
  teOperationEvents :: "'sc ContractEvent list list"

datatype 'tx read_result = ReadTx 'tx | ReadEOF | ReadError string

record ('lcm, 'rd, 'tx, 'sc) stellar_sdk =
  LedgerUnmarshal :: "bytes \<Rightarrow> string + 'lcm"
  CountTransactions :: "'lcm \<Rightarrow> nat"
  LcmSequence :: "'lcm \<Rightarrow> uint32"
  LedgerCloseTime :: "'lcm \<Rightarrow> int"
  NewTransactionReader :: "string \<Rightarrow> 'lcm \<Rightarrow> string + 'rd"
  ReadTransaction :: "'rd \<Rightarrow> 'tx read_result \<times> 'rd"
  TxSuccessful :: "'tx \<Rightarrow> bool"
  HashOfTx :: "'tx \<Rightarrow> bytes"
  TxIndex :: "'tx \<Rightarrow> uint32"
  GetTransactionEvents :: "'tx \<Rightarrow> string + 'sc TransactionEvents"
  ScMarshal :: "'sc \<Rightarrow> string + bytes"

definition ContractEventTypeDiagnostic :: int where "ContractEventTypeDiagnostic = 2"

definition MainnetPassphrase :: string where
  "MainnetPassphrase = ''Public Global Stellar Network ; September 2015''"

datatype extract_error =
    UnmarshalLedger string
  | OpenTransactions uint32 string
  | ReadTransactionFailed string
  | TransactionEventsFailed string
  | MarshalTopic string
  | MarshalData string
  | ExtractPanic string

section \<open>One event\<close>

fun marshal_values :: "('lcm, 'rd, 'tx, 'sc) stellar_sdk \<Rightarrow> 'sc list \<Rightarrow> bytes list \<Rightarrow> extract_error + bytes list" where
  "marshal_values L [] topics = Inr topics"
| "marshal_values L (topic # rest) topics =
    (case ScMarshal L topic of
       Inl e \<Rightarrow> Inl (MarshalTopic e)
     | Inr topicBytes \<Rightarrow> marshal_values L rest (topics @ [topicBytes]))"

text \<open>\<open>MustV0\<close> panics when the arm of the union is not set.\<close>

definition marshal_body :: "('lcm, 'rd, 'tx, 'sc) stellar_sdk \<Rightarrow> 'sc ContractEvent \<Rightarrow> extract_error + bytes list \<times> bytes" where
  "marshal_body L xdrEvent =
    (if ceBodyV xdrEvent = 0
     then case ceV0 xdrEvent of
            None \<Rightarrow> Inl (ExtractPanic ''arm V0 is not set'')
          | Some (bodyTopics, bodyData) \<Rightarrow>
              (case marshal_values L bodyTopics [] of
                 Inl e \<Rightarrow> Inl e
               | Inr topics \<Rightarrow>
                   (case ScMarshal L bodyData of
                      Inl e \<Rightarrow> Inl (MarshalData e)
                    | Inr dataBytes \<Rightarrow> Inr (topics, dataBytes)))
     else Inr ([], []))"

definition makeEventFromXDR ::
  "('lcm, 'rd, 'tx, 'sc) stellar_sdk \<Rightarrow> 'sc ContractEvent \<Rightarrow> bytes \<Rightarrow> uint32 \<Rightarrow> uint32 \<Rightarrow> uint16 \<Rightarrow> uint16
    \<Rightarrow> Time \<Rightarrow> bool \<Rightarrow> extract_error + Event" where
  "makeEventFromXDR L xdrEvent txHash ledgerSeq txIdx opIdx eventIdx closeTime successful =
    (case marshal_body L xdrEvent of
       Inl e \<Rightarrow> Inl e
     | Inr (topics, dataBytes) \<Rightarrow> Inr
         \<lparr>ContractID = ceContractId xdrEvent, Topics = topics, TxHash = txHash, EventType = ceType xdrEvent,
          DataBytes = dataBytes, LedgerClosedAt = closeTime, Successful = successful,
          LedgerSequence = ledgerSeq, TransactionIndex = txIdx, OperationIndex = opIdx, EventIndex = eventIdx\<rparr>)"

section \<open>A ledger\<close>

text \<open>The loop over some events of one operation, or of the transaction itself.\<close>

fun event_loop ::
  "('lcm, 'rd, 'tx, 'sc) stellar_sdk \<Rightarrow> (uint16 \<Rightarrow> 'sc ContractEvent \<Rightarrow> extract_error + Event)
    \<Rightarrow> nat \<Rightarrow> 'sc ContractEvent list \<Rightarrow> Event list \<Rightarrow> extract_error option \<times> Event list" where
  "event_loop L mk eventIndex [] events = (None, events)"
| "event_loop L mk eventIndex (ev # rest) events =
    (if ceType ev = ContractEventTypeDiagnostic then event_loop L mk (eventIndex + 1) rest events
     else case mk (of_nat eventIndex) ev of
            Inl e \<Rightarrow> (Some e, events)
          | Inr parsed \<Rightarrow> event_loop L mk (eventIndex + 1) rest (events @ [parsed]))"

fun operation_loop ::
  "('lcm, 'rd, 'tx, 'sc) stellar_sdk \<Rightarrow> (uint16 \<Rightarrow> uint16 \<Rightarrow> 'sc ContractEvent \<Rightarrow> extract_error + Event)
    \<Rightarrow> nat \<Rightarrow> 'sc ContractEvent list list \<Rightarrow> Event list \<Rightarrow> extract_error option \<times> Event list" where
  "operation_loop L mk opIndex [] events = (None, events)"
| "operation_loop L mk opIndex (opEvents # rest) events =
    (case event_loop L (mk (of_nat opIndex)) 0 opEvents events of
       (Some e, events) \<Rightarrow> (Some e, events)
     | (None, events) \<Rightarrow> operation_loop L mk (opIndex + 1) rest events)"

definition transaction_step ::
  "('lcm, 'rd, 'tx, 'sc) stellar_sdk \<Rightarrow> uint32 \<Rightarrow> Time \<Rightarrow> 'tx \<Rightarrow> Event list \<Rightarrow> extract_error option \<times> Event list" where
  "transaction_step L ledgerSeq ledgerCloseTime tx events =
    (let txSuccessful = TxSuccessful L tx;
         txHash = HashOfTx L tx;
         mk = (\<lambda>opIdx eventIdx ev.
           makeEventFromXDR L ev txHash ledgerSeq (TxIndex L tx) opIdx eventIdx ledgerCloseTime txSuccessful)
     in case GetTransactionEvents L tx of
          Inl e \<Rightarrow> (Some (TransactionEventsFailed e), events)
        | Inr txEvents \<Rightarrow>
            (case event_loop L (mk 0xFFFF) 0 (teTransactionEvents txEvents) events of
               (Some e, events) \<Rightarrow> (Some e, events)
             | (None, events) \<Rightarrow> operation_loop L mk 0 (teOperationEvents txEvents) events))"

text \<open>The loop over the transactions ends when the reader does: None stands for never.\<close>

partial_function (option) transaction_loop ::
  "('lcm, 'rd, 'tx, 'sc) stellar_sdk \<Rightarrow> uint32 \<Rightarrow> Time \<Rightarrow> 'rd \<Rightarrow> Event list
    \<Rightarrow> (extract_error option \<times> Event list) option" where
  "transaction_loop L ledgerSeq ledgerCloseTime txReader events =
    (case ReadTransaction L txReader of (res, txReader) \<Rightarrow>
       (case res of
          ReadEOF \<Rightarrow> Some (None, events)
        | ReadError e \<Rightarrow> Some (Some (ReadTransactionFailed e), events)
        | ReadTx tx \<Rightarrow>
            (case transaction_step L ledgerSeq ledgerCloseTime tx events of (err, events) \<Rightarrow>
               (case err of
                  Some e \<Rightarrow> Some (Some e, events)
                | None \<Rightarrow> transaction_loop L ledgerSeq ledgerCloseTime txReader events))))"

text \<open>The slice that is passed in is only a buffer: its events are dropped.\<close>

definition ExtractEvents ::
  "('lcm, 'rd, 'tx, 'sc) stellar_sdk \<Rightarrow> bytes \<Rightarrow> Event list \<Rightarrow> (extract_error option \<times> Event list) option" where
  "ExtractEvents L ledgerXDR events =
    (let events = take 0 events
     in case LedgerUnmarshal L ledgerXDR of
          Inl e \<Rightarrow> Some (Some (UnmarshalLedger e), events)
        | Inr meta \<Rightarrow>
            if CountTransactions L meta = 0 then Some (None, events)
            else case NewTransactionReader L MainnetPassphrase meta of
                   Inl e \<Rightarrow> Some (Some (OpenTransactions (LcmSequence L meta) e), events)
                 | Inr txReader \<Rightarrow>
                     (let ledgerSeq = LcmSequence L meta;
                          ledgerCloseTime = \<lparr>unixSec = LedgerCloseTime L meta, nanos = 0\<rparr>
                      in transaction_loop L ledgerSeq ledgerCloseTime txReader events))"

section \<open>What is extracted\<close>

text \<open>A transaction reader that delivers some transactions and then ends.\<close>

fun delivers :: "('lcm, 'rd, 'tx, 'sc) stellar_sdk \<Rightarrow> 'rd \<Rightarrow> 'tx list \<Rightarrow> bool" where
  "delivers L rd [] \<longleftrightarrow> fst (ReadTransaction L rd) = ReadEOF"
| "delivers L rd (tx # txs) \<longleftrightarrow> (case ReadTransaction L rd of (res, rd') \<Rightarrow> res = ReadTx tx \<and> delivers L rd' txs)"

text \<open>The events of a transaction that are kept, with their operation and position.\<close>

definition kept :: "uint16 \<Rightarrow> 'sc ContractEvent list \<Rightarrow> (uint16 \<times> uint16 \<times> 'sc ContractEvent) list" where
  "kept opIdx evs = [(opIdx, of_nat i, ev). (i, ev) \<leftarrow> enumerate 0 evs, ceType ev \<noteq> ContractEventTypeDiagnostic]"

definition kept_events :: "'sc TransactionEvents \<Rightarrow> (uint16 \<times> uint16 \<times> 'sc ContractEvent) list" where
  "kept_events te = kept 0xFFFF (teTransactionEvents te) @
    concat (map (\<lambda>(op, evs). kept (of_nat op) evs) (enumerate 0 (teOperationEvents te)))"

text \<open>The event an XDR event becomes, when its values can be marshalled.\<close>

definition marshalled :: "('lcm, 'rd, 'tx, 'sc) stellar_sdk \<Rightarrow> 'sc \<Rightarrow> bytes" where
  "marshalled L v = (case ScMarshal L v of Inl e \<Rightarrow> [] | Inr b \<Rightarrow> b)"

definition extracted ::
  "('lcm, 'rd, 'tx, 'sc) stellar_sdk \<Rightarrow> 'lcm \<Rightarrow> 'tx \<Rightarrow> uint16 \<times> uint16 \<times> 'sc ContractEvent \<Rightarrow> Event" where
  "extracted L meta tx k =
    (case k of (opIdx, eventIdx, ev) \<Rightarrow>
      \<lparr>ContractID = ceContractId ev,
       Topics = (if ceBodyV ev = 0 then map (marshalled L) (fst (the (ceV0 ev))) else []),
       TxHash = HashOfTx L tx, EventType = ceType ev,
       DataBytes = (if ceBodyV ev = 0 then marshalled L (snd (the (ceV0 ev))) else []),
       LedgerClosedAt = \<lparr>unixSec = LedgerCloseTime L meta, nanos = 0\<rparr>, Successful = TxSuccessful L tx,
       LedgerSequence = LcmSequence L meta, TransactionIndex = TxIndex L tx,
       OperationIndex = opIdx, EventIndex = eventIdx\<rparr>)"

definition transaction_events :: "('lcm, 'rd, 'tx, 'sc) stellar_sdk \<Rightarrow> 'tx \<Rightarrow> 'sc TransactionEvents" where
  "transaction_events L tx =
    (case GetTransactionEvents L tx of
       Inl e \<Rightarrow> \<lparr>teTransactionEvents = [], teOperationEvents = []\<rparr> | Inr te \<Rightarrow> te)"

definition ledger_events :: "('lcm, 'rd, 'tx, 'sc) stellar_sdk \<Rightarrow> 'lcm \<Rightarrow> 'tx list \<Rightarrow> Event list" where
  "ledger_events L meta txs = concat (map (\<lambda>tx. map (extracted L meta tx) (kept_events (transaction_events L tx))) txs)"

text \<open>
  A sound ledger: every transaction has its events, all values can be marshalled and
  every body of version 0 has its arm.
\<close>

definition sound_event :: "('lcm, 'rd, 'tx, 'sc) stellar_sdk \<Rightarrow> 'sc ContractEvent \<Rightarrow> bool" where
  "sound_event L ev \<longleftrightarrow> (ceBodyV ev = 0 \<longrightarrow> (\<exists>ts d. ceV0 ev = Some (ts, d) \<and> (\<forall>v \<in> set (d # ts). \<exists>b. ScMarshal L v = Inr b)))"

definition sound_tx :: "('lcm, 'rd, 'tx, 'sc) stellar_sdk \<Rightarrow> 'tx \<Rightarrow> bool" where
  "sound_tx L tx \<longleftrightarrow> (\<exists>te. GetTransactionEvents L tx = Inr te \<and>
    (\<forall>ev \<in> set (teTransactionEvents te @ concat (teOperationEvents te)). sound_event L ev))"

lemma marshal_values_sound:
  "\<forall>v \<in> set vs. \<exists>b. ScMarshal L v = Inr b \<Longrightarrow> marshal_values L vs topics = Inr (topics @ map (marshalled L) vs)"
  by (induction L vs topics rule: marshal_values.induct) (auto simp: marshalled_def split: sum.splits)

lemma makeEventFromXDR_sound:
  assumes "sound_event L ev"
  shows "makeEventFromXDR L ev (HashOfTx L tx) (LcmSequence L meta) (TxIndex L tx) opIdx eventIdx
      \<lparr>unixSec = LedgerCloseTime L meta, nanos = 0\<rparr> (TxSuccessful L tx) = Inr (extracted L meta tx (opIdx, eventIdx, ev))"
  using assms marshal_values_sound [of _ L "[]"]
  by (auto simp: sound_event_def makeEventFromXDR_def marshal_body_def extracted_def marshalled_def)

lemma event_loop_sound:
  assumes "\<And>i ev. ev \<in> set evs \<Longrightarrow> mk i ev = Inr (f (opIdx, i, ev))"
  shows "event_loop L mk n evs events = (None, events @ map f
    [(opIdx, of_nat i, ev). (i, ev) \<leftarrow> enumerate n evs, ceType ev \<noteq> ContractEventTypeDiagnostic])"
  using assms by (induction L mk n evs events rule: event_loop.induct) auto

lemma operation_loop_sound:
  assumes "\<And>op i ev. ev \<in> set (concat opss) \<Longrightarrow> mk op i ev = Inr (f (op, i, ev))"
  shows "operation_loop L mk n opss events = (None, events @ map f
    (concat (map (\<lambda>(op, evs). kept (of_nat op) evs) (enumerate n opss))))"
  using assms
proof (induction L mk n opss events rule: operation_loop.induct)
  case (2 L mk op evs rest events)
  have "event_loop L (mk (of_nat op)) 0 evs events = (None, events @ map f (kept (of_nat op) evs))"
    unfolding kept_def by (rule event_loop_sound) (simp add: 2(2))
  with 2 show ?case by simp
qed simp

lemma transaction_step_sound:
  assumes "sound_tx L tx"
  shows "transaction_step L (LcmSequence L meta) \<lparr>unixSec = LedgerCloseTime L meta, nanos = 0\<rparr> tx events =
    (None, events @ map (extracted L meta tx) (kept_events (transaction_events L tx)))"
proof -
  from assms obtain te where te: "GetTransactionEvents L tx = Inr te"
    "\<forall>ev \<in> set (teTransactionEvents te @ concat (teOperationEvents te)). sound_event L ev"
    by (auto simp: sound_tx_def)
  let ?mk = "\<lambda>opIdx eventIdx ev. makeEventFromXDR L ev (HashOfTx L tx) (LcmSequence L meta) (TxIndex L tx) opIdx eventIdx
      \<lparr>unixSec = LedgerCloseTime L meta, nanos = 0\<rparr> (TxSuccessful L tx)"
  have mk: "?mk op i ev = Inr (extracted L meta tx (op, i, ev))"
    if "ev \<in> set (teTransactionEvents te @ concat (teOperationEvents te))" for op i ev
    by (rule makeEventFromXDR_sound) (use te(2) that in blast)
  have "event_loop L (?mk 0xFFFF) 0 (teTransactionEvents te) events =
      (None, events @ map (extracted L meta tx) (kept 0xFFFF (teTransactionEvents te)))"
    unfolding kept_def by (rule event_loop_sound) (simp add: mk)
  moreover have "operation_loop L ?mk 0 (teOperationEvents te) events' = (None, events' @ map (extracted L meta tx)
      (concat (map (\<lambda>(op, evs). kept (of_nat op) evs) (enumerate 0 (teOperationEvents te)))))" for events'
    by (rule operation_loop_sound) (simp add: mk)
  ultimately show ?thesis
    by (simp add: transaction_step_def te(1) transaction_events_def kept_events_def Let_def)
qed

lemma transaction_loop_sound:
  assumes "delivers L rd txs" "\<forall>tx \<in> set txs. sound_tx L tx"
  shows "transaction_loop L (LcmSequence L meta) \<lparr>unixSec = LedgerCloseTime L meta, nanos = 0\<rparr> rd events =
    Some (None, events @ ledger_events L meta txs)"
  using assms
proof (induction txs arbitrary: rd events)
  case Nil
  then show ?case by (subst transaction_loop.simps) (auto simp: ledger_events_def split: prod.split)
next
  case (Cons tx txs)
  then obtain rd' where rd': "ReadTransaction L rd = (ReadTx tx, rd')" "delivers L rd' txs" by (auto split: prod.splits)
  show ?case
    by (subst transaction_loop.simps)
      (use Cons rd' transaction_step_sound [of L tx meta events] in \<open>simp add: ledger_events_def\<close>)
qed

lemma ExtractEvents_sound:
  assumes "LedgerUnmarshal L data = Inr meta" "CountTransactions L meta = length txs"
    and "NewTransactionReader L MainnetPassphrase meta = Inr rd" "delivers L rd txs" "\<forall>tx \<in> set txs. sound_tx L tx"
  shows "ExtractEvents L data events = Some (None, ledger_events L meta txs)"
  using assms transaction_loop_sound [OF assms(4,5), of meta "[]"]
  by (cases txs) (simp_all add: ExtractEvents_def Let_def ledger_events_def)

section \<open>Positions\<close>

text \<open>The position of an event in its ledger, and that it identifies the event.\<close>

definition position :: "Event \<Rightarrow> uint32 \<times> uint16 \<times> uint16" where
  "position ev = (TransactionIndex ev, OperationIndex ev, EventIndex ev)"

text \<open>Fewer than 0xFFFF operations, and at most 2^16 events in each.\<close>

definition countable_events :: "'sc TransactionEvents \<Rightarrow> bool" where
  "countable_events te \<longleftrightarrow> length (teOperationEvents te) \<le> 0xFFFF \<and>
    (\<forall>evs \<in> set (teTransactionEvents te # teOperationEvents te). length evs \<le> 2 ^ 16)"

lemma distinct_tagged:
  assumes "distinct (map g xs)" "\<And>x. x \<in> set xs \<Longrightarrow> distinct (f x)" "\<And>x y. x \<in> set xs \<Longrightarrow> y \<in> set (f x) \<Longrightarrow> tag y = g x"
  shows "distinct (concat (map f xs))"
  using assms
proof (induction xs)
  case (Cons x xs)
  have "set (f x) \<inter> set (concat (map f xs)) = {}"
  proof (rule ccontr)
    assume "set (f x) \<inter> set (concat (map f xs)) \<noteq> {}"
    then obtain y x' where y: "y \<in> set (f x)" "x' \<in> set xs" "y \<in> set (f x')" by auto
    then have "g x = g x'" using Cons.prems(3) [of x y] Cons.prems(3) [of x' y] by simp
    then show False using Cons.prems(1) y(2) by auto
  qed
  with Cons show ?case by simp
qed simp

lemma in_concat_map: "y \<in> set (concat (map f xs)) \<Longrightarrow> \<exists>x \<in> set xs. y \<in> set (f x)"
  by auto

lemma of_nat_16_inject: "i < 2 ^ 16 \<Longrightarrow> j < 2 ^ 16 \<Longrightarrow> (of_nat i :: uint16) = of_nat j \<longleftrightarrow> i = j"
  by (simp add: word_unat_eq_iff unat_of_nat take_bit_nat_eq_self)

lemma kept_op: "k \<in> set (kept opIdx evs) \<Longrightarrow> fst k = opIdx"
  by (auto simp: kept_def split: if_splits)

lemma kept_positions:
  assumes "length evs \<le> 2 ^ 16"
  shows "distinct (map (\<lambda>(op, i, ev). (op, i)) (kept opIdx evs))"
proof -
  have kept: "kept opIdx evs = map (\<lambda>(i, ev). (opIdx, of_nat i, ev))
      (filter (\<lambda>(i, ev). ceType ev \<noteq> ContractEventTypeDiagnostic) (enumerate 0 evs))" (is "_ = map _ ?es")
  proof -
    have "[(opIdx, of_nat i, ev). (i, ev) \<leftarrow> ps, ceType ev \<noteq> ContractEventTypeDiagnostic] =
        map (\<lambda>(i, ev). (opIdx, of_nat i, ev)) (filter (\<lambda>(i, ev). ceType ev \<noteq> ContractEventTypeDiagnostic) ps)" for ps
      by (induction ps) auto
    then show ?thesis by (simp only: kept_def)
  qed
  have "distinct (map fst ?es)" by (metis (no_types) distinct_map_filter distinct_enumerate map_fst_enumerate distinct_upt)
  moreover have "fst p < 2 ^ 16" if "p \<in> set ?es" for p
    using that assms by (auto simp: in_set_enumerate_eq)
  ultimately have "distinct (map (\<lambda>p. (of_nat (fst p) :: uint16)) ?es)"
    using of_nat_16_inject by (auto simp: distinct_map inj_on_def)
  then show ?thesis
    unfolding kept by (auto simp: distinct_map inj_on_def)
qed

lemma kept_events_positions:
  assumes "countable_events te"
  shows "distinct (map (\<lambda>(op, i, ev). (op, i)) (kept_events te))"
proof -
  let ?ops = "enumerate 0 (teOperationEvents te)" and ?pos = "\<lambda>(op, i, ev). (op, i)"
  have n: "length (teOperationEvents te) \<le> 0xFFFF"
    "\<And>evs. evs \<in> set (teTransactionEvents te # teOperationEvents te) \<Longrightarrow> length evs \<le> 2 ^ 16"
    using assms unfolding countable_events_def by blast+
  have index: "fst p < 0xFFFF" "snd p \<in> set (teOperationEvents te)" if "p \<in> set ?ops" for p
    using that n(1) nth_mem [of "fst p" "teOperationEvents te"] by (auto simp: in_set_enumerate_eq)
  have pos: "map ?pos (kept_events te) = map ?pos (kept 0xFFFF (teTransactionEvents te)) @
      concat (map (\<lambda>p. map ?pos (kept (of_nat (fst p)) (snd p))) ?ops)"
    by (simp add: kept_events_def map_concat comp_def case_prod_unfold)
  have tag: "fst y = op" if "y \<in> set (map ?pos (kept op evs))" for y op evs
    using that by (auto dest!: kept_op)
  have "inj_on (of_nat :: nat \<Rightarrow> uint16) {..<0xFFFF}"
    by (rule inj_onI) (simp add: of_nat_16_inject)
  moreover have "set (map fst ?ops) \<subseteq> {..<0xFFFF}" using n(1) by auto
  moreover have "distinct (map fst ?ops)" by simp
  ultimately have "distinct (map (of_nat :: nat \<Rightarrow> uint16) (map fst ?ops))"
    unfolding distinct_map by (blast intro: inj_on_subset)
  then have "distinct (map (\<lambda>p. of_nat (fst p) :: uint16) ?ops)" by (simp only: map_map comp_def)
  then have "distinct (concat (map (\<lambda>p. map ?pos (kept (of_nat (fst p)) (snd p))) ?ops))"
  proof (rule distinct_tagged [where tag = fst])
    show "distinct (map ?pos (kept (of_nat (fst p)) (snd p)))" if "p \<in> set ?ops" for p
      using kept_positions n(2) index(2) [OF that] by (metis list.set_intros(2))
  qed (rule tag)
  moreover have "distinct (map ?pos (kept 0xFFFF (teTransactionEvents te)))"
    by (rule kept_positions) (rule n(2), simp)
  moreover have "fst y \<noteq> 0xFFFF" if y: "y \<in> set (concat (map (\<lambda>p. map ?pos (kept (of_nat (fst p)) (snd p))) ?ops))" for y
  proof -
    from in_concat_map [OF y] obtain p where p: "p \<in> set ?ops" "y \<in> set (map ?pos (kept (of_nat (fst p)) (snd p)))" by blast
    have "fst y = of_nat (fst p)" using p(2) by (rule tag)
    moreover have "(of_nat (fst p) :: uint16) = of_nat 0xFFFF \<longleftrightarrow> fst p = 0xFFFF"
      by (rule of_nat_16_inject) (use index(1) [OF p(1)] in simp_all)
    ultimately show ?thesis using index(1) [OF p(1)] by simp
  qed
  moreover have "fst y = 0xFFFF" if "y \<in> set (map ?pos (kept 0xFFFF (teTransactionEvents te)))" for y
    using that by (rule tag)
  ultimately show ?thesis unfolding pos distinct_append by blast
qed

lemma ledger_positions:
  assumes "distinct (map (TxIndex L) txs)" "\<forall>tx \<in> set txs. countable_events (transaction_events L tx)"
  shows "distinct (map position (ledger_events L meta txs))"
proof -
  let ?f = "\<lambda>tx. map position (map (extracted L meta tx) (kept_events (transaction_events L tx)))"
  have f: "?f tx = map (Pair (TxIndex L tx)) (map (\<lambda>(op, i, ev). (op, i)) (kept_events (transaction_events L tx)))" for tx
    by (auto simp: position_def extracted_def)
  have "distinct (concat (map ?f txs))"
  proof (rule distinct_tagged [where tag = fst, OF assms(1)])
    fix tx assume "tx \<in> set txs"
    then have "distinct (map (\<lambda>(op, i, ev). (op, i)) (kept_events (transaction_events L tx)))"
      using assms(2) kept_events_positions by blast
    then show "distinct (?f tx)" unfolding f by (subst distinct_map) (simp add: inj_on_def)
  next
    fix tx y assume "y \<in> set (?f tx)"
    then show "fst y = TxIndex L tx" unfolding f by auto
  qed
  then show ?thesis by (simp add: ledger_events_def map_concat comp_def)
qed

end
