(* ===== verification/Examples.thy ===== *)
theory Examples
  imports Pipeline Rocks_Store Query Rocks_Bitmap Chunk_Reader Extractor
begin

text \<open>A concrete session, on which the properties are instantiated.\<close>

definition demo_opts :: WriterOptions where
  "demo_opts = \<lparr>optItemsPerRecord = 2, optFormat = Compressed, optConcurrency = 4,
    optContentHash = True, optBytesPerSync = 0, optOverwrite = False\<rparr>"

definition demo_calls :: "bytes list list" where
  "demo_calls = [[[1, 2], [3]], [[4]], [[5, 6]]]"

lemma demo_items [simp]: "map concat demo_calls = [[1, 2, 3], [4], [5, 6]]"
  by (simp add: demo_calls_def)

lemma demo_session: "session_ok no_faults store_zstd (\<lambda>_. None) ''f'' demo_opts demo_calls [9]"
  by (auto simp: session_ok_def store_zstd_contract demo_opts_def demo_calls_def no_faults_def
      write_ok_def known_format_def)

lemma demo_fits: "session_fits demo_opts demo_calls"
  by (simp add: session_fits_simps demo_opts_def demo_calls_def items_per_record_def)

lemma demo_chunks: "chunks 2 [[1, 2, 3], [4], [5, 6 :: byte]] = [[[1, 2, 3], [4]], [[5, 6]]]"
  by (simp add: chunks.simps)

definition demo_blocks :: "bytes list" where
  "demo_blocks = map (\<lambda>c. case block_of store_zstd Compressed 2 c of Inl e \<Rightarrow> [] | Inr b \<Rightarrow> b)
    [[[1, 2, 3], [4]], [[5, 6]]]"

lemma demo_groups: "EncodeGroup [3, 1] = Inr [2, 2, 1, 0, 0, 0]" "EncodeGroup [2] = Inr [0, 1, 2, 0, 0, 0]"
  by code_simp+

lemma demo_block_lengths: "map length demo_blocks = [23, 21]"
  using demo_groups
  by (simp add: demo_blocks_def block_of_def Compressor_Encode_def default_compressor_def
      store_zstd_def item_index_def item_sizes_def Let_def)

lemma demo_block_of:
  "\<exists>b. block_of store_zstd Compressed 2 c = Inr b" if "length (concat c) < 2 ^ 46"
  using block_of_total [OF store_zstd_contract _ that] by (simp add: known_format_def)

lemma demo_image_blocks: "image_blocks store_zstd Compressed 2 [[1, 2, 3], [4], [5, 6]] demo_blocks"
  using demo_block_of [of "[[1, 2, 3], [4]]"] demo_block_of [of "[[5, 6]]"]
  by (auto simp: image_blocks_def demo_chunks demo_blocks_def)

lemma demo_blocks_small: "\<forall>b \<in> set demo_blocks. length b < 2 ^ 32" "length (concat demo_blocks) < 2 ^ 62"
proof -
  obtain x y where xy: "demo_blocks = [x, y]" "length x = 23" "length y = 21"
    using demo_block_lengths by (auto simp: map_eq_Cons_conv)
  show "\<forall>b \<in> set demo_blocks. length b < 2 ^ 32" "length (concat demo_blocks) < 2 ^ 62"
    unfolding xy(1) by (simp_all add: xy)
qed

lemma demo_written:
  obtains fs' contents where
    "write_file no_faults store_zstd (\<lambda>_. None) ''f'' demo_opts demo_calls [9] = (None, fs')"
    "fs' ''f'' = Some contents" "length contents < 2 ^ 63"
  using write_file_ok [OF demo_session _ _ demo_blocks_small] demo_image_blocks
  by (fastforce simp: demo_opts_def items_per_record_def demo_calls_def)

lemma demo_index:
  obtains index where "encodeIndex (block_offsets demo_blocks) = Inr index"
proof -
  obtain x y where xy: "demo_blocks = [x, y]"
    using demo_block_lengths by (auto simp: map_eq_Cons_conv)
  have "offset_table (block_offsets demo_blocks)"
    using demo_blocks_small by (intro offset_table_blocks) (simp_all add: xy)
  then show thesis using encodeIndex_groups that by metis
qed

lemma demo_readable:
  obtains r o' where "readable no_faults store_zstd r o' (map concat demo_calls)" "rconcurrency r = 8"
proof (rule demo_written)
  fix fs' contents
  assume w: "write_file no_faults store_zstd (\<lambda>_. None) ''f'' demo_opts demo_calls [9] = (None, fs')"
    "fs' ''f'' = Some contents" "length contents < 2 ^ 63"
  then have "length (os_contents fs' ''f'') < 2 ^ 63" by (simp add: os_contents_def)
  from session_readable [OF demo_session demo_fits no_faults_ok(2) w(1) this, of None] obtain o' where
    "readable no_faults store_zstd (Open no_faults fs' ''f'' None) o' (map concat demo_calls)" by blast
  then show thesis
    using that by (simp add: Open_def defaultConcurrency_def)
qed

lemma demo_opens:
  obtains contents o' t where "doOpen no_faults [''f'' \<mapsto> contents] ''f'' = Inr o'" "0 < length contents"
    "parse_trailer (drop (length contents - trailerSize) contents) = Inr t" "ItemsPerRecord t \<noteq> 0"
proof (rule demo_index)
  fix index assume index: "encodeIndex (block_offsets demo_blocks) = Inr index"
  obtain x y where xy: "demo_blocks = [x, y]"
    using demo_block_lengths by (auto simp: map_eq_Cons_conv)
  have "offset_table (block_offsets demo_blocks)"
    using demo_blocks_small by (intro offset_table_blocks) (simp_all add: xy)
  then have "length index < 2 ^ 32"
    using encodeIndex_length [OF _ index] by (simp add: xy group_count_def groupSize_def)
  then have ok: "image_ok store_zstd Compressed 2 [[1, 2, 3], [4], [5, 6]] demo_blocks index [9]"
    using demo_image_blocks demo_blocks_small(2) index by (simp add: image_ok_def known_format_def)
  let ?contents = "file_image Compressed True 2 [[1, 2, 3], [4], [5, 6]] demo_blocks index [9]"
  have "[''f'' \<mapsto> ?contents] ''f'' = Some ?contents" by simp
  from doOpen_image [where fs = "[''f'' \<mapsto> ?contents]" and path = "''f''", OF no_faults_ok(2) this ok]
  moreover have "\<exists>t. parse_trailer (drop (length ?contents - trailerSize) ?contents) = Inr t \<and> ItemsPerRecord t \<noteq> 0"
    using parse_trailer_image [of Compressed True 2 "[[1, 2, 3], [4], [5, 6]]" "length demo_blocks" "length index" 1
        "CRC32C (image_trailer Compressed True 2 [[1, 2, 3], [4], [5, 6]] (length demo_blocks) (length index) 1)"]
    by (simp add: file_image_def Let_def trailerSize_def known_format_def image_Trailer_def)
  moreover have "0 < length ?contents" by (simp add: file_image_def Let_def)
  ultimately show thesis using that by blast
qed

section \<open>A pipeline of two workers\<close>

definition demo_block :: "nat \<Rightarrow> blockResult" where
  "demo_block i = \<lparr>blockID = of_nat i, bdata = [1, of_nat i], bforIndex = [], bhashSizes = None,
    bdigest = [], bhasHash = False\<rparr>"

definition demo_writer :: Writer where
  "demo_writer = \<lparr>wpath = ''f'', wpos = 0, woffsets = [], wbytesPerSync = 0, wlastSyncPos = 0,
    wbuf = [], wsizes = [], wtotal = 0, witemsPerRecord = 1, wformat = Compressed, wcompressor = None,
    wcontentHash = False, wserialHasher = None, wdigests = [], wconcurrency = 2, wnextBlockID = 0,
    wworkCh = None, werr = None, wclosed = False, wfileClosed = False\<rparr>"

definition demo_pipe :: "libzstd \<Rightarrow> pipe_env" where
  "demo_pipe z = \<lparr>pipeOs = no_faults, pipeZstd = z, pipeConc = 2, pipePartial = False\<rparr>"

text \<open>A compression library that fails, and one schedule for each.\<close>

definition failing_zstd :: libzstd where
  "failing_zstd = store_zstd\<lparr>compress2 := (\<lambda>level checksum data bound. Inl ''allocation failed'')\<rparr>"

definition demo_frame :: "bytes \<Rightarrow> bytes" where
  "demo_frame data = (case compress2 store_zstd zstdLevel True data 0 of Inl e \<Rightarrow> [] | Inr frame \<Rightarrow> frame)"

lemma demo_compression:
  "NewCompressor store_zstd [] = Inr default_compressor" "NewCompressor failing_zstd [] = Inr default_compressor"
  "Compressor_Encode store_zstd default_compressor [x, y] = Inr (demo_frame [x, y])"
  "Compressor_Encode failing_zstd default_compressor [x, y] = Inl (ZErr ''allocation failed'')"
  by (simp_all add: NewCompressor_def Compressor_Encode_def failing_zstd_def store_zstd_def demo_frame_def
      default_compressor_def compressor_config_def Let_def)

lemmas demo_pipe_simps = pipe_start_def demo_pipe_def submit_step_def demo_writer_def upt_conv_Cons
  pipe_crashed_def block_worker_step_def collector_step_def numeral_eq_Suc results_closed_def
  blockWorker_def demo_block_def demo_compression Let_def

definition demo_jobs :: "nat \<Rightarrow> blockResult list" where
  "demo_jobs n = map demo_block [0..<n]"

lemma demo_job_ids: "n \<le> 5 \<Longrightarrow> job_ids (demo_jobs n)"
  by (simp add: job_ids_def demo_jobs_def demo_block_def)

lemma demo_processable: "processable (demo_pipe store_zstd) (wformat demo_writer) (demo_jobs n)"
  by (simp add: processable_def demo_jobs_def demo_pipe_simps)

text \<open>The second block overtakes the first.\<close>

lemma demo_overtaking:
  obtains st where "pipe_reachable (demo_pipe store_zstd)
      (pipe_start (demo_pipe store_zstd) [''f'' \<mapsto> []] demo_writer (demo_jobs 2)) st"
    "\<not> pipe_crashed st" "pmain st = Got True None"
proof -
  have "\<exists>st. pipe_run (demo_pipe store_zstd)
      [Caller, Caller, Caller, Caller, Worker 1, Worker 0, Worker 0, Collector, Collector, Worker 1,
       Collector, Collector, Collector, Collector, Caller, Caller, Worker 0, Worker 1, Collector, Caller]
      (pipe_start (demo_pipe store_zstd) [''f'' \<mapsto> []] demo_writer (demo_jobs 2)) = Some st \<and>
    \<not> pipe_crashed st \<and> pmain st = Got True None"
    by (simp add: demo_jobs_def demo_pipe_simps writeBlock_def os_write_def no_faults_def)
  then show thesis using that pipe_run_reachable by blast
qed

text \<open>A writer that has buffered a record of two items, and the decoder for its file.\<close>

definition demo_buffered :: Writer where
  "demo_buffered = demo_writer\<lparr>wformat := Uncompressed, witemsPerRecord := 2, wbuf := [1, 2, 3], wsizes := [2, 1]\<rparr>"

definition demo_built :: "bytes \<Rightarrow> blockResult" where
  "demo_built data = (demo_block 0)\<lparr>bdata := data,
    bforIndex := (case EncodeGroup [2, 1] of Inl e \<Rightarrow> [] | Inr g \<Rightarrow> g @ PutUint32 (CRC32C g))\<rparr>"

definition demo_pair_decoder :: decoder where
  "demo_pair_decoder = \<lparr>dformat = Uncompressed, dtotalItems = 2, ditemsPerRecord = 2, scratch = [],
    decompressed = [], sizes = [], item_offsets = [], decompressor = Some \<lparr>dctx = True\<rparr>\<rparr>"

lemma demo_buffered_block:
  "\<exists>w'. buildBlock demo_buffered = Inr ((bdata (demo_built [1, 2, 3]), bforIndex (demo_built [1, 2, 3])), w')"
proof -
  have "EncodeGroup [2, 1] = Inr [1, 1, 1, 0, 0, 0]" by code_simp
  then show ?thesis by (auto simp: buildBlock_def demo_buffered_def demo_built_def Let_def)
qed

lemma demo_built_processed:
  "\<exists>br. blockWorker store_zstd (dformat demo_pair_decoder) (demo_built [1, 2, 3]) = Inr br"
  by (simp add: blockWorker_def demo_pair_decoder_def demo_built_def demo_block_def Let_def)

section \<open>Two event stores\<close>

definition demo_events :: "bytes list" where
  "demo_events = [[1, 2, 3], [4], [5, 6]]"

definition demo_store_opts :: StoreOptions where
  "demo_store_opts = \<lparr>esItemsPerRecord = 2, esConcurrency = 4, esFormat = Compressed, esContentHash = True\<rparr>"

lemma demo_store_accepts:
  "store_accepts no_faults store_zstd ''f'' demo_store_opts (\<lambda>_. None) demo_events"
  "\<exists>fs'. write_store no_faults store_zstd (\<lambda>_. None) ''f'' demo_store_opts demo_events = (None, fs')"
proof -
  let ?calls = "single_parts demo_events" and ?opts = "packfileOpts demo_store_opts"
  have session: "session_ok no_faults store_zstd (\<lambda>_. None) ''f'' ?opts ?calls []"
    by (auto simp: session_ok_def store_zstd_contract packfileOpts_def demo_store_opts_def demo_events_def
        no_faults_def write_ok_def known_format_def)
  have fits: "session_fits ?opts ?calls"
    by (simp add: session_fits_simps packfileOpts_def demo_store_opts_def demo_events_def items_per_record_def)
  have "map concat ?calls = [[1, 2, 3], [4], [5, 6]]" by (simp add: demo_events_def)
  moreover have "items_per_record ?opts = 2" "optFormat ?opts = Compressed"
    by (simp_all add: items_per_record_def packfileOpts_def demo_store_opts_def)
  ultimately obtain fs' contents where
    w: "write_file no_faults store_zstd (\<lambda>_. None) ''f'' ?opts ?calls [] = (None, fs')"
    "fs' ''f'' = Some contents" "length contents < 2 ^ 63"
    using write_file_ok [OF session _ _ demo_blocks_small] demo_image_blocks by (fastforce simp: demo_events_def)
  then show "store_accepts no_faults store_zstd ''f'' demo_store_opts (\<lambda>_. None) demo_events"
    "\<exists>fs'. write_store no_faults store_zstd (\<lambda>_. None) ''f'' demo_store_opts demo_events = (None, fs')"
    using session fits by (simp_all add: store_accepts_def write_store_file no_faults_ok os_contents_def)
qed

definition demo_rocks_opts :: RocksWriterOptions where
  "demo_rocks_opts = \<lparr>rwoBlockSize = 0, rwoCompressionThreads = 0, rwoNoCompression = False\<rparr>"

lemma demo_rocks_accepts:
  "rocks_accepts list_rocks list_view ''db'' (\<lambda>_. None, \<lambda>_. None) demo_events"
  "\<exists>world'. write_rocks list_rocks ''db'' demo_rocks_opts (\<lambda>_. None, \<lambda>_. None) demo_events = (None, world')"
proof -
  show "rocks_accepts list_rocks list_view ''db'' (\<lambda>_. None, \<lambda>_. None) demo_events"
    unfolding rocks_accepts_def using list_rocks_contract by (auto simp: list_rocks_def list_view_def)
  have "PutUint32BE 0 < PutUint32BE 1" "PutUint32BE 0 < PutUint32BE 2" "PutUint32BE 1 < PutUint32BE 2"
    by (intro PutUint32BE_less; simp add: word_less_nat_alt)+
  then show "\<exists>world'. write_rocks list_rocks ''db'' demo_rocks_opts (\<lambda>_. None, \<lambda>_. None) demo_events = (None, world')"
    by (simp add: write_rocks_def Rocks_Create_def Rocks_AppendEvent_def Rocks_Finish_def list_rocks_def
        demo_events_def Let_def MaxUint32_def IngestSST_def)
qed

section \<open>Two bitmap indexes\<close>

definition demo_ledger_event :: "bytes option \<Rightarrow> bytes list \<Rightarrow> Event" where
  "demo_ledger_event contract topics = \<lparr>ContractID = contract, Topics = topics, TxHash = replicate 32 9,
    EventType = TypeContract, DataBytes = [], LedgerClosedAt = \<lparr>unixSec = 0, nanos = 0\<rparr>,
    Successful = True, LedgerSequence = 4, TransactionIndex = 3, OperationIndex = 2, EventIndex = 1\<rparr>"

definition demo_contract :: bytes where "demo_contract = replicate 32 7"

definition demo_first :: Event where "demo_first = demo_ledger_event (Some demo_contract) [[1]]"
definition demo_second :: Event where "demo_second = demo_ledger_event None [[1], [2]]"

definition demo_indexed :: "(Event \<times> uint32) list" where
  "demo_indexed = [(demo_first, 0), (demo_second, 1)]"

definition demo_ix_opts :: BitmapOptions where
  "demo_ix_opts = \<lparr>boBatchSize = 0, boCapacityHint = 0, boCompress = True, boContentHash = False\<rparr>"

text \<open>The hashed keys of the contract and of the two topics, and the collected bitmaps.\<close>

definition demo_hks :: "bytes list" where
  "demo_hks = [1 # 2 # replicate 14 0, 2 # 3 # replicate 14 0, replicate 16 7]"

definition demo_bitmaps :: "(bytes \<times> uint32 list) list" where
  "demo_bitmaps = [(demo_hks ! 2, [0]), (demo_hks ! 0, [1, 0]), (demo_hks ! 1, [1])]"

definition demo_prepared :: "(bytes \<times> bytes) list" where
  "demo_prepared = [([1, 2, 0, 0], [1, 0, 0, 0, 0, 0, 0, 0]), ([2, 3, 0, 0], [1, 0, 0, 0]), ([7, 7, 7, 7], [0, 0, 0, 0])]"

lemma demo_hash: "PreHash list_streamhash (composeKey FieldContractID demo_contract) = demo_hks ! 2"
  "PreHash list_streamhash (composeKey FieldTopic0 [1]) = demo_hks ! 0"
  "PreHash list_streamhash (composeKey (FieldTopic0 + 1) [2]) = demo_hks ! 1"
  by code_simp+

lemma demo_add_events:
  "add_events list_streamhash list_roaring (NewWriter mp dp opts) demo_indexed =
    Inr ((NewWriter mp dp opts)\<lparr>bwBitmaps := Some demo_bitmaps\<rparr>)"
proof -
  have "demo_hks ! 0 \<noteq> demo_hks ! 1" "demo_hks ! 2 \<noteq> demo_hks ! 0" "demo_hks ! 2 \<noteq> demo_hks ! 1"
    by code_simp+
  then show ?thesis
    by (simp add: demo_indexed_def demo_first_def demo_second_def demo_ledger_event_def Bitmap_Add_fold NewWriter_bitmaps event_fields_def demo_hash
        add_ordinal_def list_roaring_def demo_bitmaps_def)
qed

lemma demo_sorted: "sort (map fst demo_bitmaps) = demo_hks"
  by code_simp

lemma demo_rank:
  "rank_bitmaps list_streamhash demo_hks demo_bitmaps demo_hks (replicate 3 (replicate 4 0, None)) =
    Inr [([1, 2, 0, 0], Some [1, 0]), ([2, 3, 0, 0], Some [1]), ([7, 7, 7, 7], Some [0])]"
  by code_simp

lemma demo_prepare:
  "prepare_bitmaps list_roaring [([1, 2, 0, 0], Some [1, 0]), ([2, 3, 0, 0], Some [1]), ([7, 7, 7, 7], Some [0])] =
    Inr demo_prepared"
  by code_simp

lemma demo_group: "EncodeGroup [12, 8, 8] = Inr [4, 0, 3, 8, 0, 0, 0]"
  by code_simp

text \<open>A session whose items make up one small record.\<close>

lemma demo_single_record:
  assumes session: "session_ok no_faults store_zstd fs path opts calls []" and fmt: "optFormat opts = Compressed"
    and chunk: "chunks (items_per_record opts) (map concat calls) = [map concat calls]" and n: "length calls \<le> 10 ^ 9"
    and small: "length (concat (map concat calls)) < 2 ^ 16" "length (item_index (items_per_record opts) (map concat calls)) < 2 ^ 16"
  obtains fs' contents where "write_file no_faults store_zstd fs path opts calls [] = (None, fs')"
    "fs' path = Some contents" "length contents < 2 ^ 63"
proof -
  let ?items = "map concat calls"
  have "length (concat ?items) < 2 ^ 46" using small(1) by simp
  then obtain b where b: "block_of store_zstd Compressed (items_per_record opts) ?items = Inr b"
    using block_of_total [OF store_zstd_contract, of Compressed ?items "items_per_record opts"] by (auto simp: known_format_def)
  then have "length b \<le> 9 + length (concat ?items) + length (item_index (items_per_record opts) ?items)"
    by (auto simp: block_of_def Compressor_Encode_def default_compressor_def store_zstd_def Let_def split: sum.splits if_splits)
  then have "length b < 2 ^ 32" using small by simp
  moreover have "image_blocks store_zstd (optFormat opts) (items_per_record opts) ?items [b]"
    unfolding image_blocks_def chunk fmt using b by simp
  ultimately show thesis using write_file_ok [OF session n, of "[b]"] that by (auto simp: fmt)
qed

lemma demo_entries:
  assumes "fs ''d'' = None" and w: "w = (NewWriter ''m'' ''d'' demo_ix_opts)\<lparr>bwBitmaps := None\<rparr>"
  obtains fs' contents where "write_prepared no_faults store_zstd fs w demo_prepared = (None, fs')"
    "fs' ''d'' = Some contents" "length contents < 2 ^ 63"
proof -
  let ?opts = "bitmap_packfile_opts w" and ?calls = "entry_parts demo_prepared"
  have opts: "optItemsPerRecord ?opts = 128" "optFormat ?opts = Compressed" "items_per_record ?opts = 128" "bwDataPath w = ''d''"
    by (simp_all add: w bitmap_packfile_opts_def NewWriter_def demo_ix_opts_def defaultBatchSize_def Let_def items_per_record_def)
  have session: "session_ok no_faults store_zstd fs ''d'' ?opts ?calls []"
    using assms(1) by (simp add: session_ok_def store_zstd_contract opts demo_prepared_def no_faults_def write_ok_def known_format_def)
  have "chunks (items_per_record ?opts) (map concat ?calls) = [map concat ?calls]"
    by (simp add: chunks.simps opts demo_prepared_def)
  moreover have "length (concat (map concat ?calls)) < 2 ^ 16" "length ?calls \<le> 10 ^ 9"
    "length (item_index (items_per_record ?opts) (map concat ?calls)) < 2 ^ 16"
    by (simp_all add: demo_prepared_def opts item_index_def item_sizes_def demo_group Let_def)
  ultimately obtain fs' contents where "write_file no_faults store_zstd fs ''d'' ?opts ?calls [] = (None, fs')"
    "fs' ''d'' = Some contents" "length contents < 2 ^ 63"
    using demo_single_record [OF session opts(2)] by metis
  then show thesis using that write_prepared_done [of no_faults store_zstd fs w demo_prepared fs'] by (simp add: opts)
qed

lemma demo_add_keys:
  "add_keys list_streamhash (''m'', 3, []) fs demo_hks = (Inr (''m'', 3, demo_hks), fs)"
  by (simp add: demo_hks_def list_streamhash_def)

lemma demo_finish_keys:
  "Builder_Finish list_streamhash (''m'', 3, demo_hks) fs = (None, fs(''m'' \<mapsto> concat demo_hks))"
proof -
  have "distinct demo_hks \<and> length demo_hks = 3" by code_simp
  then show ?thesis by (simp add: list_streamhash_def)
qed

lemma demo_open_keys: "Mphf_Open list_streamhash (fs(''m'' \<mapsto> concat demo_hks)) ''m'' = Inr demo_hks"
proof -
  have "\<forall>k \<in> set demo_hks. length k = 16" by code_simp
  from list_keys_concat [OF this] show ?thesis by (simp add: list_streamhash_def)
qed

lemma demo_index_written_any:
  assumes "fs ''d'' = None"
  obtains fs' contents where
    "write_index no_faults store_zstd list_streamhash list_roaring ''m'' ''d'' demo_ix_opts fs demo_indexed = (None, fs')"
    "fs' ''d'' = Some contents" "length contents < 2 ^ 63"
proof -
  let ?w = "(NewWriter ''m'' ''d'' demo_ix_opts)\<lparr>bwBitmaps := Some demo_bitmaps\<rparr>"
  let ?fs1 = "fs(''m'' \<mapsto> [])"
  let ?fs2 = "?fs1(''m'' \<mapsto> concat demo_hks)"
  obtain fs' contents where d: "write_prepared no_faults store_zstd ?fs2 (?w\<lparr>bwBitmaps := None\<rparr>) demo_prepared = (None, fs')"
    "fs' ''d'' = Some contents" "length contents < 2 ^ 63"
    by (rule demo_entries [of ?fs2 "?w\<lparr>bwBitmaps := None\<rparr>"]) (simp_all add: assms)
  have path: "bwMphfPath ?w = ''m''" by (simp add: NewWriter_bitmaps)
  have len: "length demo_bitmaps = 3" "demo_bitmaps \<noteq> []" by (simp_all add: demo_bitmaps_def)
  have builder: "NewBuilder list_streamhash fs ''m'' (of_nat 3) 4 = (Inr (''m'', 3, []), ?fs1)"
    by (simp add: list_streamhash_def)
  have "build_index no_faults store_zstd list_streamhash list_roaring ?fs1 ?w demo_bitmaps demo_hks (''m'', 3, []) =
      (None, fs', ?w\<lparr>bwBitmaps := None\<rparr>)"
    unfolding build_index_def demo_add_keys Let_def
    by (simp only: prod.case sum.case option.case demo_finish_keys len demo_rank demo_prepare d(1)
        path demo_open_keys)
  then have "Bitmap_Finish no_faults store_zstd list_streamhash list_roaring fs ?w =
      (None, fs', ?w\<lparr>bwBitmaps := None\<rparr>)"
    using builder by (simp add: Bitmap_Finish_def demo_sorted len MaxUint32_def NewWriter_bitmaps)
  then have "write_index no_faults store_zstd list_streamhash list_roaring ''m'' ''d'' demo_ix_opts fs demo_indexed =
      (None, fs')"
    by (simp add: write_index_def demo_add_events)
  then show thesis using that d by blast
qed

lemma demo_index_accepts_any:
  assumes "fs ''d'' = None"
  shows "index_accepts no_faults store_zstd list_streamhash list_mphf_view list_roaring set ''m'' ''d'' demo_ix_opts fs demo_indexed"
proof -
  have "bitmaps_fit list_roaring demo_bitmaps" "boBatchSize demo_ix_opts < 2 ^ 32"
    by (simp_all add: bitmaps_fit_def demo_bitmaps_def list_roaring_def demo_ix_opts_def codec_len)
  then show ?thesis
    using assms by (simp add: index_accepts_def store_zstd_contract list_streamhash_contract list_roaring_contract demo_add_events)
qed

lemma demo_index_accepts:
  "index_accepts no_faults store_zstd list_streamhash list_mphf_view list_roaring set ''m'' ''d'' demo_ix_opts (\<lambda>_. None) demo_indexed"
  by (rule demo_index_accepts_any) simp

lemma demo_index_written:
  obtains fs' where
    "write_index no_faults store_zstd list_streamhash list_roaring ''m'' ''d'' demo_ix_opts (\<lambda>_. None) demo_indexed = (None, fs')"
    "length (os_contents fs' ''d'') < 2 ^ 63"
proof (rule demo_index_written_any [of "\<lambda>_. None"])
  fix fs' contents
  assume "write_index no_faults store_zstd list_streamhash list_roaring ''m'' ''d'' demo_ix_opts (\<lambda>_. None) demo_indexed = (None, fs')"
    "fs' ''d'' = Some contents" "length contents < 2 ^ 63"
  then show thesis using that by (simp add: os_contents_def)
qed simp

text \<open>The same events in RocksDB, under the whole keys.\<close>

definition demo_rocks_bitmaps :: "(bytes \<times> uint32 list) list" where
  "demo_rocks_bitmaps = [(1 # demo_contract, [0]), ([2, 1], [1, 0]), ([3, 2], [1])]"

lemma demo_composite: "compositeKey FieldContractID demo_contract = 1 # demo_contract"
  "compositeKey FieldTopic0 [1] = [2, 1]" "compositeKey (FieldTopic0 + 1) [2] = [3, 2]"
  by (simp_all add: compositeKey_eq FieldContractID_def FieldTopic0_def)

lemma demo_rocks_add_events:
  "rocks_add_events list_roaring (RocksBitmap_NewWriter dbPath) demo_indexed =
    Inr ((RocksBitmap_NewWriter dbPath)\<lparr>rbwBitmaps := Some demo_rocks_bitmaps\<rparr>)"
proof -
  have "length demo_contract = 32" by (simp add: demo_contract_def)
  then have "1 # demo_contract \<noteq> [2, 1]" "1 # demo_contract \<noteq> [3, 2]" by auto
  then show ?thesis
    by (simp add: demo_indexed_def demo_first_def demo_second_def demo_ledger_event_def RocksBitmap_Add_fold RocksBitmap_NewWriter_def event_fields_def
        demo_composite add_ordinal_def list_roaring_def demo_rocks_bitmaps_def)
qed

lemma demo_rocks_index_accepts:
  "rocks_index_accepts list_rocks list_view list_roaring set ''db'' (\<lambda>_. None, \<lambda>_. None)"
  using list_rocks_contract list_roaring_contract
  by (auto simp: rocks_index_accepts_def list_rocks_def list_view_def)

lemma demo_rocks_index_written:
  "\<exists>world'. write_rocks_index list_rocks list_roaring ''db'' (\<lambda>_. None, \<lambda>_. None) demo_indexed = (None, world')"
proof -
  have "sort_key fst demo_rocks_bitmaps = demo_rocks_bitmaps" by code_simp
  then show ?thesis
    unfolding write_rocks_index_def demo_rocks_add_events
    by (simp add: RocksBitmap_Finish_def RocksBitmap_NewWriter_def list_rocks_def demo_rocks_bitmaps_def list_roaring_def IngestSST_def Let_def)
qed

lemma demo_fields: "event_fields demo_first = [(1, demo_contract), (2, [1])]"
  "event_fields demo_second = [(2, [1]), (3, [2])]"
  by (simp_all add: demo_indexed_def demo_first_def demo_second_def demo_ledger_event_def event_fields_def FieldContractID_def FieldTopic0_def)

lemma demo_indexed_set: "set demo_indexed = {(demo_first, 0), (demo_second, 1)}"
  by (simp add: demo_indexed_def)

lemma demo_ids: "ids_with demo_indexed FieldTopic0 [1] = {0, 1}"
  by (auto simp: ids_with_def demo_indexed_set demo_fields FieldTopic0_def)

lemma demo_fingerprints: "fingerprint list_streamhash 1 demo_contract = [7, 7, 7, 7]"
  "fingerprint list_streamhash 2 [1] = [1, 2, 0, 0]" "fingerprint list_streamhash 3 [2] = [2, 3, 0, 0]"
  "fingerprint list_streamhash FieldTopic0 [9] = [9, 2, 0, 0]" "fingerprint list_streamhash FieldTopic0 [1] = [1, 2, 0, 0]"
  by code_simp+

lemma demo_absent:
  "\<not> ((ev, x) \<in> set demo_indexed \<and> (f', k') \<in> set (event_fields ev) \<and>
    fingerprint list_streamhash f' k' = fingerprint list_streamhash FieldTopic0 [9])"
  by (auto simp: demo_indexed_set demo_fields demo_fingerprints)

lemma demo_unambiguous: "unambiguous (fingerprint list_streamhash) demo_indexed FieldTopic0 [1]"
  by (auto simp: unambiguous_def demo_indexed_set demo_fields demo_fingerprints FieldTopic0_def)

section \<open>The indexed events in a store\<close>

definition demo_log :: "bytes list" where
  "demo_log = map (Marshal []) [demo_first, demo_second]"

lemma demo_log_lengths: "map length demo_log = [83, 86]"
  by (simp add: demo_log_def Marshal_def length_marshal_header demo_first_def demo_second_def demo_ledger_event_def
      HeaderSize_def codec_len)

lemma demo_log_store:
  "store_accepts no_faults store_zstd ''f'' demo_store_opts (\<lambda>_. None) demo_log"
  "\<exists>fs'. write_store no_faults store_zstd (\<lambda>_. None) ''f'' demo_store_opts demo_log = (None, fs') \<and> fs' ''d'' = None"
proof -
  let ?calls = "single_parts demo_log" and ?opts = "packfileOpts demo_store_opts"
  obtain x y where xy: "demo_log = [x, y]" "length x = 83" "length y = 86"
    using demo_log_lengths by (auto simp: map_eq_Cons_conv)
  have ne: "x \<noteq> []" "y \<noteq> []" using xy(2,3) by auto
  have opts: "optFormat ?opts = Compressed" "items_per_record ?opts = 2"
    by (simp_all add: packfileOpts_def demo_store_opts_def items_per_record_def)
  have session: "session_ok no_faults store_zstd (\<lambda>_. None) ''f'' ?opts ?calls []"
    by (auto simp: session_ok_def store_zstd_contract packfileOpts_def demo_store_opts_def xy
        no_faults_def write_ok_def known_format_def)
  have fits: "session_fits ?opts ?calls"
    using ne by (simp add: session_fits_simps packfileOpts_def demo_store_opts_def xy items_per_record_def chunks.simps)
  have "EncodeGroup [83, 86] = Inr [12, 2, 83, 0, 0, 0]" by code_simp
  then have "length (item_index (items_per_record ?opts) (map concat ?calls)) < 2 ^ 16"
    by (simp add: opts xy item_index_def item_sizes_def Let_def)
  moreover have "chunks (items_per_record ?opts) (map concat ?calls) = [map concat ?calls]"
    by (simp add: chunks.simps opts xy)
  moreover have "length (concat (map concat ?calls)) < 2 ^ 16" "length ?calls \<le> 10 ^ 9" by (simp_all add: xy)
  ultimately obtain fs' contents where w: "write_file no_faults store_zstd (\<lambda>_. None) ''f'' ?opts ?calls [] = (None, fs')"
    "fs' ''f'' = Some contents" "length contents < 2 ^ 63"
    using demo_single_record [OF session opts(1)] by metis
  have "fs' ''d'' = None" using write_file_frame [OF w(1)] by (simp add: other_files_def)
  with w show "store_accepts no_faults store_zstd ''f'' demo_store_opts (\<lambda>_. None) demo_log"
    "\<exists>fs'. write_store no_faults store_zstd (\<lambda>_. None) ''f'' demo_store_opts demo_log = (None, fs') \<and> fs' ''d'' = None"
    using session fits by (simp_all add: store_accepts_def write_store_file no_faults_ok os_contents_def)
qed

lemma demo_encodable: "\<forall>ev \<in> set [demo_first, demo_second]. encodable ev \<and> well_addressed ev"
  by (simp add: encodable_def well_addressed_def demo_first_def demo_second_def demo_ledger_event_def demo_contract_def)

section \<open>A chunk and a ledger\<close>

definition demo_ledgers :: "bytes list" where "demo_ledgers = [[1, 2], [4]]"

definition demo_frames :: "bytes list" where
  "demo_frames = map (\<lambda>ledger. case Compressor_Encode store_zstd default_compressor ledger of Inl e \<Rightarrow> [] | Inr f \<Rightarrow> f) demo_ledgers"

definition demo_chunk_index :: bytes where
  "demo_chunk_index = chunk_index 4 (replicate 6 0) (record_offsets 0 demo_frames)"

definition demo_chunk_data :: bytes where "demo_chunk_data = concat demo_frames"

lemma demo_chunk_frames:
  "list_all2 (\<lambda>ledger frame. Compressor_Encode store_zstd default_compressor ledger = Inr frame) demo_ledgers demo_frames"
  by (simp add: demo_frames_def demo_ledgers_def Compressor_Encode_def default_compressor_def store_zstd_def Let_def)

lemma demo_frame_lengths: "length (concat demo_frames) = 21"
  by (simp add: demo_frames_def demo_ledgers_def Compressor_Encode_def default_compressor_def store_zstd_def Let_def)

text \<open>An SDK that delivers one transaction: a diagnostic and a contract event of its own, and one of its second operation.\<close>

definition demo_xdr :: "int \<Rightarrow> bytes ContractEvent" where
  "demo_xdr typ = \<lparr>ceType = typ, ceContractId = None, ceBodyV = 0, ceV0 = Some ([[7]], [8])\<rparr>"

definition demo_tx :: "bytes TransactionEvents" where
  "demo_tx = \<lparr>teTransactionEvents = [demo_xdr 2, demo_xdr 1], teOperationEvents = [[], [demo_xdr 1, demo_xdr 2]]\<rparr>"

definition demo_sdk :: "(bytes, nat, bytes TransactionEvents, bytes) stellar_sdk" where
  "demo_sdk = \<lparr>LedgerUnmarshal = Inr, CountTransactions = (\<lambda>meta. 1), LcmSequence = (\<lambda>meta. 6), LedgerCloseTime = (\<lambda>meta. 100),
    NewTransactionReader = (\<lambda>phrase meta. Inr 0),
    ReadTransaction = (\<lambda>n. (if n = 0 then ReadTx demo_tx else ReadEOF, n + 1)),
    TxSuccessful = (\<lambda>tx. True), HashOfTx = (\<lambda>tx. replicate 32 9), TxIndex = (\<lambda>tx. 1),
    GetTransactionEvents = Inr, ScMarshal = Inr\<rparr>"

end
