(* ===== verification/Pipeline_Failure.thy ===== *)
theory Pipeline_Failure
  imports Pipeline
begin

text \<open>
  The pipeline of packfile/writer.go when no block can be processed: a blockWorker that
  fails reports its error and returns, so every worker takes at most one block. The
  caller learns of the error only from Finish or Close, and goes on sending blocks until
  \<open>workCh\<close> is full. With \<open>n\<close> workers and \<open>n\<close> slots that is after \<open>2 * n\<close> blocks, under
  every schedule.
\<close>

definition unprocessable :: "pipe_env \<Rightarrow> RecordFormat \<Rightarrow> blockResult list \<Rightarrow> bool" where
  "unprocessable E fmt jobs \<longleftrightarrow> (\<forall>j \<in> set jobs. \<exists>e. blockWorker (pipeZstd E) fmt j = Inl e \<and> \<not> is_panic e)"

text \<open>A worker that no longer receives has taken one block: so many have been sent.\<close>

fun taken :: "worker \<Rightarrow> nat" where
  "taken Receiving = 0"
| "taken _ = 1"

definition sent :: "pipe_state \<Rightarrow> nat" where
  "sent st = length (pworkCh st) + sum_list (map taken (pworkers st))"

fun doomed_main :: "blockResult list \<Rightarrow> nat \<Rightarrow> submitter \<Rightarrow> bool" where
  "doomed_main jobs s (Checking js) \<longleftrightarrow> js = drop s jobs"
| "doomed_main jobs s (Submitting j js) \<longleftrightarrow> j # js = drop s jobs"
| "doomed_main jobs s (Closing fin) \<longleftrightarrow> \<not> fin"
| "doomed_main jobs s (Waiting fin) \<longleftrightarrow> \<not> fin"
| "doomed_main jobs s (Got fin err) \<longleftrightarrow> \<not> fin"

definition doomed_worker :: "worker \<Rightarrow> bool" where
  "doomed_worker x \<longleftrightarrow> x = Receiving \<or> x = Exited \<or> (\<exists>e. x = Sending (Inl e))"

definition doomed :: "pipe_env \<Rightarrow> Writer \<Rightarrow> blockResult list \<Rightarrow> pipe_state \<Rightarrow> bool" where
  "doomed E w jobs st \<longleftrightarrow> pwriter st = w \<and> pcollector st \<noteq> Writing \<and>
    (\<forall>r \<in> set (presultCh st). \<exists>e. r = Inl e) \<and> (\<forall>x \<in> set (pworkers st). doomed_worker x) \<and>
    length (pworkCh st) \<le> pipeConc E \<and> doomed_main jobs (sent st) (pmain st)"

lemma doomed_start: "doomed E w jobs (pipe_start E fs w jobs)"
  by (simp add: doomed_def pipe_start_def sent_def doomed_worker_def sum_list_replicate)

lemma doomed_not_crashed: "doomed E w jobs st \<Longrightarrow> \<not> pipe_crashed st"
  by (auto simp: doomed_def pipe_crashed_def doomed_worker_def split: worker.splits dest!: bspec)

lemma sum_taken_le: "sum_list (map taken ws) \<le> length ws"
proof (induction ws)
  case (Cons x ws)
  then show ?case by (cases x) auto
qed simp

lemma sent_le:
  assumes "doomed E w jobs st" "pipe_shape E fmt js st"
  shows "sent st \<le> pipeConc E + pipeConc E"
  using assms sum_taken_le [of "pworkers st"] by (simp add: sent_def doomed_def pipe_shape_def)

text \<open>The caller only leaves the loop over the blocks by giving up.\<close>

lemma submit_doomed:
  assumes "submit_step E st = Some st'" "doomed E w jobs st" "pipe_shape E fmt js st"
    and "werr w = None" "2 * pipeConc E < length jobs"
  shows "doomed E w jobs st'" "pending_jobs (pmain st) \<noteq> [] \<Longrightarrow> pending_jobs (pmain st') \<noteq> []"
proof -
  note d = assms(2) [unfolded doomed_def] and s = sent_le [OF assms(2,3)]
  have "doomed E w jobs st' \<and> (pending_jobs (pmain st) \<noteq> [] \<longrightarrow> pending_jobs (pmain st') \<noteq> [])"
  proof (cases "pmain st")
    case (Checking rs)
    then have "rs = drop (sent st) jobs" "rs \<noteq> []" using d s assms(5) by auto
    from this(2) obtain j rs' where "rs = j # rs'" by (meson list.exhaust)
    then have "st' = st\<lparr>pmain := Submitting j rs'\<rparr>"
      using assms(1,4) d Checking by (auto simp: submit_step_def)
    then show ?thesis using d Checking \<open>rs = j # rs'\<close> by (simp add: doomed_def sent_def)
  next
    case (Submitting j rs)
    then have rs: "j # rs = drop (sent st) jobs" and len: "length (pworkCh st) < pipeConc E"
      using d assms(1) by (auto simp: submit_step_def split: if_splits)
    have "sum_list (map taken (pworkers st)) \<le> pipeConc E"
      using sum_taken_le [of "pworkers st"] assms(3) by (simp add: pipe_shape_def)
    then have lt: "Suc (sent st) < length jobs" using len assms(5) by (simp add: sent_def)
    then have tail: "rs = drop (Suc (sent st)) jobs" "rs \<noteq> []"
      using drop_Cons [OF rs] by auto
    then have st': "st' = st\<lparr>pworkCh := pworkCh st @ [j], pmain := Checking rs\<rparr>"
      using assms(1) Submitting len by (simp add: submit_step_def)
    then have "sent st' = Suc (sent st)" by (simp add: sent_def)
    then show ?thesis using d tail len by (simp add: st' doomed_def)
  next
    case (Closing fin)
    then show ?thesis using assms(1) d by (auto simp: submit_step_def doomed_def sent_def)
  next
    case (Waiting fin)
    then show ?thesis
      using assms(1) d by (auto simp: submit_step_def doomed_def sent_def split: option.splits if_splits)
  qed (use assms(1) in \<open>simp add: submit_step_def\<close>)
  then show "doomed E w jobs st'" "pending_jobs (pmain st) \<noteq> [] \<Longrightarrow> pending_jobs (pmain st') \<noteq> []" by auto
qed

lemma work_doomed:
  assumes "block_worker_step E st i = Some st'" "i < length (pworkers st)" "doomed E w jobs st"
    "pipe_shape E (wformat w) jobs st" "unprocessable E (wformat w) jobs"
  shows "doomed E w jobs st' \<and> pmain st' = pmain st"
proof -
  note d = assms(3) [unfolded doomed_def]
  have sum: "sum_list (map taken ((pworkers st)[i := y])) + taken (pworkers st ! i) =
      sum_list (map taken (pworkers st)) + taken y" for y
    using sum_list_map_update [OF assms(2), of taken y] .
  have ws: "\<forall>x \<in> set ((pworkers st)[i := y]). doomed_worker x" if "doomed_worker y" for y
    using that d set_update_subset_insert [of "pworkers st" i y] by auto
  have at: "doomed_worker (pworkers st ! i)" using d assms(2) by simp
  show ?thesis
  proof (cases "pworkers st ! i")
    case Receiving
    show ?thesis
    proof (cases "pworkCh st")
      case (Cons j q)
      then have "j \<in> set jobs" using assms(4) by (simp add: pipe_shape_def)
      with assms(5) obtain e where "blockWorker (pipeZstd E) (wformat w) j = Inl e" "\<not> is_panic e"
        by (auto simp: unprocessable_def)
      then have st': "st' = st\<lparr>pworkCh := q, pworkers := (pworkers st)[i := Sending (Inl e)]\<rparr>"
        using assms(1) Receiving Cons d by (simp add: block_worker_step_def)
      have "sent st' = sent st" using sum [of "Sending (Inl e)"] Receiving Cons by (simp add: st' sent_def)
      then show ?thesis using d ws [of "Sending (Inl e)"] Cons by (simp add: doomed_def st' doomed_worker_def)
    next
      case Nil
      then have st': "st' = st\<lparr>pworkers := (pworkers st)[i := Exited]\<rparr>" "pworkClosed st"
        using assms(1) Receiving by (auto simp: block_worker_step_def split: if_splits)
      then have "submitted (pmain st)" using assms(4) by (simp add: pipe_shape_def)
      then have "doomed_main jobs s (pmain st)" for s using d by (cases "pmain st") (simp_all add: submitted_def)
      then show ?thesis using d ws [of Exited] by (simp add: doomed_def st' doomed_worker_def)
    qed
  next
    case (Sending r)
    then obtain e where r: "r = Inl e" using at by (auto simp: doomed_worker_def)
    then have st': "st' = st\<lparr>presultCh := presultCh st @ [r], pworkers := (pworkers st)[i := Exited]\<rparr>"
      using assms(1) Sending by (auto simp: block_worker_step_def split: if_splits)
    have "sent st' = sent st" using sum [of Exited] Sending by (simp add: st' sent_def)
    then show ?thesis using d ws [of Exited] r by (simp add: doomed_def st' doomed_worker_def)
  qed (use assms(1) in \<open>simp_all add: block_worker_step_def\<close>)
qed

lemma collect_doomed:
  assumes "collector_step E st = Some st'" "doomed E w jobs st"
  shows "doomed E w jobs st' \<and> pmain st' = pmain st"
  using assms
  by (auto simp: collector_step_def doomed_def sent_def
      split: collector.splits list.splits sum.splits if_splits)

lemma step_doomed:
  assumes "pipe_step E st st'" "doomed E w jobs st" "pipe_shape E (wformat w) jobs st"
    "unprocessable E (wformat w) jobs" "werr w = None" "2 * pipeConc E < length jobs"
  shows "doomed E w jobs st'"
  using assms(1)
proof (cases rule: pipe_step.cases)
  case submit
  then show ?thesis using submit_doomed(1) assms by blast
next
  case (give_up js)
  then show ?thesis using assms(2) by (simp add: doomed_def sent_def)
next
  case (work i)
  then show ?thesis using work_doomed assms by blast
next
  case collect
  then show ?thesis using collect_doomed assms by blast
qed

lemma reachable_doomed:
  assumes "pipe_reachable E (pipe_start E fs w jobs) st" "unprocessable E (wformat w) jobs"
    "werr w = None" "2 * pipeConc E < length jobs"
  shows "doomed E w jobs st"
proof -
  have "pipe_shape E (wformat w) jobs st \<and> doomed E w jobs st"
    using assms(1)
  proof (induction rule: pipe_reachable_induct)
    case start
    then show ?case by (simp add: pipe_start_shape doomed_start)
  next
    case (step s s')
    then show ?case using pipe_shape_step step_doomed assms(2-4) by blast
  qed
  then show ?thesis ..
qed

text \<open>The state in which nothing moves: the caller blocks on block number \<open>2 * n\<close>.\<close>

definition blocked_submit :: "nat \<Rightarrow> blockResult list \<Rightarrow> submitter" where
  "blocked_submit n jobs = Submitting (jobs ! (2 * n)) (drop (2 * n + 1) jobs)"

lemma doomed_stuck:
  assumes "doomed E w jobs st" "pipe_shape E (wformat w) jobs st" "0 < pipeConc E"
    and "\<And>st'. \<not> pipe_step E st st'"
  shows "(\<exists>err. pmain st = Got False err) \<or> pmain st = blocked_submit (pipeConc E) jobs"
proof (cases "\<exists>fin err. pmain st = Got fin err")
  case True
  then show ?thesis using assms(1) by (auto simp: doomed_def)
next
  case False
  have nc: "\<not> pipe_crashed st" using doomed_not_crashed [OF assms(1)] .
  from pipe_progress [OF assms(2,3) nc] False assms(4)
  obtain j js where st: "pmain st = Submitting j js" "results_closed st" by (auto simp: pipe_stuck_def)
  have "submit_step E st = None" using assms(4) nc pipe_step.submit by (metis not_Some_eq)
  then have "length (pworkCh st) = pipeConc E"
    using st(1) assms(1) by (auto simp: submit_step_def doomed_def split: if_splits)
  moreover have "sum_list (map taken (pworkers st)) = pipeConc E"
  proof -
    have "map taken (pworkers st) = map (\<lambda>_. 1) (pworkers st)"
      by (rule map_cong [OF refl]) (use st(2) in \<open>auto simp: results_closed_def\<close>)
    then show ?thesis using assms(2) by (simp add: pipe_shape_def map_replicate_const sum_list_replicate)
  qed
  ultimately have "sent st = 2 * pipeConc E" by (simp add: sent_def)
  then have "j # js = drop (2 * pipeConc E) jobs" using assms(1) st(1) by (simp add: doomed_def)
  from drop_Cons [OF this] st(1) show ?thesis by (simp add: blocked_submit_def)
qed

text \<open>As long as the caller appends, every schedule can only be continued to that state.\<close>

lemma doomed_blocks:
  assumes "doomed E w jobs st" "pipe_shape E (wformat w) jobs st" "unprocessable E (wformat w) jobs"
    and "werr w = None" "0 < pipeConc E" "2 * pipeConc E < length jobs" "pending_jobs (pmain st) \<noteq> []"
  shows "\<exists>st'. pipe_reachable E st st' \<and> pmain st' = blocked_submit (pipeConc E) jobs \<and> (\<forall>st''. \<not> pipe_step E st' st'')"
  using assms(1,2,7)
proof (induction "pipe_measure st" arbitrary: st rule: less_induct)
  case less
  show ?case
  proof (cases "\<exists>st1. pipe_step E st st1 \<and> pending_jobs (pmain st1) \<noteq> []")
    case True
    then obtain st1 where st1: "pipe_step E st st1" "pending_jobs (pmain st1) \<noteq> []" by blast
    have "\<exists>st'. pipe_reachable E st1 st' \<and> pmain st' = blocked_submit (pipeConc E) jobs \<and> (\<forall>st''. \<not> pipe_step E st' st'')"
      using less.hyps [OF pipe_step_measure [OF st1(1) less.prems(2)]]
        step_doomed [OF st1(1) less.prems(1,2) assms(3,4,6)] pipe_shape_step [OF st1(1) less.prems(2)] st1(2) by blast
    then show ?thesis using st1(1) unfolding pipe_reachable_def by (meson converse_rtranclp_into_rtranclp)
  next
    case False
    have nc: "\<not> pipe_crashed st" using doomed_not_crashed [OF less.prems(1)] .
    have sub: "submit_step E st = None"
    proof (rule ccontr)
      assume "submit_step E st \<noteq> None"
      then obtain st1 where "submit_step E st = Some st1" by blast
      with submit_doomed(2) [OF this less.prems(1,2) assms(4,6) less.prems(3)] False nc show False
        using pipe_step.submit by blast
    qed
    then have "pmain st \<noteq> Checking js" for js
      by (auto simp: submit_step_def split: option.splits)
    then have main: "\<exists>j js. pmain st = Submitting j js" using less.prems(3) by (cases "pmain st") auto
    have stuck: "\<not> pipe_step E st st1" for st1
    proof
      assume "pipe_step E st st1"
      then show False
      proof (cases rule: pipe_step.cases)
        case (work i)
        then show False
          using work_doomed [OF work(3,2) less.prems(1,2) assms(3)] False less.prems(3) \<open>pipe_step E st st1\<close> by auto
      next
        case collect
        then show False
          using collect_doomed [OF collect(2) less.prems(1)] False less.prems(3) \<open>pipe_step E st st1\<close> by auto
      qed (use sub main in auto)
    qed
    from doomed_stuck [OF less.prems(1,2) assms(5) this] main
    have "pmain st = blocked_submit (pipeConc E) jobs" by auto
    with stuck show ?thesis by (auto simp: pipe_reachable_def)
  qed
qed

end
