(* ===== verification/Corruption.thy ===== *)
theory Corruption
  imports Round_Trip
begin

text \<open>
  What the checksums catch. A string that ends in the CRC32C of the rest stops
  being one when any single byte of it changes; the trailer, the index and the
  payload of an \<open>Uncompressed\<close> record are such strings.
\<close>

definition crc_framed :: "bytes \<Rightarrow> bool" where
  "crc_framed bs \<longleftrightarrow> 4 \<le> length bs \<and> Uint32 (drop (length bs - 4) bs) = CRC32C (take (length bs - 4) bs)"

lemma crc_framed_append: "crc_framed (bs @ PutUint32 (CRC32C bs))"
  by (simp add: crc_framed_def)

lemma Uint32_inject: "length xs = 4 \<Longrightarrow> length ys = 4 \<Longrightarrow> Uint32 xs = Uint32 ys \<longleftrightarrow> xs = ys"
  by (metis PutUint32_Uint32)

lemma crc_framed_update:
  assumes "crc_framed bs" "p < length bs" "b \<noteq> bs ! p"
  shows "\<not> crc_framed (bs[p := b])"
proof -
  let ?n = "length bs - 4"
  have len: "4 \<le> length bs" using assms(1) by (simp add: crc_framed_def)
  have neq: "bs[p := b] \<noteq> bs" using assms(2,3) by (metis nth_list_update_eq)
  show ?thesis
  proof (cases "p < ?n")
    case True
    then have "CRC32C ((take ?n bs)[p := b]) \<noteq> CRC32C (take ?n bs)"
      using len assms(3) by (intro CRC32C_single_byte) simp_all
    then have "CRC32C (take ?n (bs[p := b])) \<noteq> CRC32C (take ?n bs)"
      by (simp add: take_update_swap)
    then show ?thesis
      using assms(1) True by (auto simp: crc_framed_def)
  next
    case False
    then have "take ?n (bs[p := b]) = take ?n bs" by simp
    moreover have "drop ?n (bs[p := b]) \<noteq> drop ?n bs"
      using neq calculation by (metis append_take_drop_id)
    then have "Uint32 (drop ?n (bs[p := b])) \<noteq> Uint32 (drop ?n bs)"
      using len by (subst Uint32_inject) auto
    ultimately show ?thesis using assms(1) by (simp add: crc_framed_def)
  qed
qed

section \<open>The trailer and the index\<close>

lemma parse_trailer_Checksum: "parse_trailer tb = Inr t \<Longrightarrow> Checksum t = Uint32 (drop 60 tb)"
  by (auto simp: parse_trailer_def Let_def split: if_splits)

lemma decodeIndex_framed:
  "decodeIndex buf n (length buf) base = Inr offs \<Longrightarrow> crc_framed buf"
  by (auto simp: decodeIndex_def Let_def crc_framed_def split: if_splits)

lemma open_checked_framed:
  assumes "open_checked contents t o'"
  shows "crc_framed (drop (length contents - trailerSize) contents)"
    "crc_framed (slice contents (length contents - trailerSize - unat (AppDataSize t) - unat (IndexSize t))
      (length contents - trailerSize - unat (AppDataSize t)))"
    "unat (IndexSize t) + unat (AppDataSize t) + trailerSize \<le> length contents"
    "parse_trailer (drop (length contents - trailerSize) contents) = Inr t"
proof -
  let ?b = "length contents - trailerSize - unat (AppDataSize t) - unat (IndexSize t)"
  let ?tb = "drop (length contents - trailerSize) contents"
  show le: "unat (IndexSize t) + unat (AppDataSize t) + trailerSize \<le> length contents"
    and p: "parse_trailer ?tb = Inr t"
    using assms unfolding open_checked_def Let_def by blast+
  have crc: "CRC32C (take 60 ?tb) = Checksum t"
    and dec: "decodeIndex (slice contents ?b (?b + unat (IndexSize t))) (unat (RecordCount t))
      (unat (IndexSize t)) (int ?b) = Inr (ooffsets o')"
    using assms unfolding open_checked_def Let_def by blast+
  have len: "length ?tb = 64" using le by (simp add: trailerSize_def)
  then show "crc_framed ?tb"
    using crc parse_trailer_Checksum [OF p] by (simp add: crc_framed_def)
  have "length (slice contents ?b (?b + unat (IndexSize t))) = unat (IndexSize t)"
    using le by (simp add: length_slice)
  then have "crc_framed (slice contents ?b (?b + unat (IndexSize t)))"
    using dec decodeIndex_framed by metis
  moreover have "?b + unat (IndexSize t) = length contents - trailerSize - unat (AppDataSize t)"
    using le by simp
  ultimately show "crc_framed (slice contents ?b (length contents - trailerSize - unat (AppDataSize t)))"
    by simp
qed

lemma drop_update: "m \<le> p \<Longrightarrow> drop m (xs[p := x]) = (drop m xs)[p - m := x]"
  by (simp add: drop_update_swap)

lemma slice_update:
  "slice (xs[p := x]) a b = (if a \<le> p \<and> p < b then (slice xs a b)[p - a := x] else slice xs a b)"
proof (cases "a \<le> p")
  case True
  then show ?thesis
    by (cases "p < b")
      (simp_all add: slice_def drop_update_swap take_update_swap list_update_beyond)
next
  case False
  then show ?thesis by (simp add: slice_def)
qed

text \<open>
  The metadata of a file that opens: its last 64 bytes, and the index, which lies
  before the application data.
\<close>

definition metadata_byte :: "bytes \<Rightarrow> nat \<Rightarrow> bool" where
  "metadata_byte contents p \<longleftrightarrow> p < length contents \<and>
    (length contents - trailerSize \<le> p \<or>
     (case parse_trailer (drop (length contents - trailerSize) contents) of
        Inl e \<Rightarrow> False
      | Inr t \<Rightarrow>
          length contents - trailerSize - unat (AppDataSize t) - unat (IndexSize t) \<le> p \<and>
          p < length contents - trailerSize - unat (AppDataSize t)))"

lemma metadata_change_detected:
  assumes opened: "doOpen env fs path = Inr o'" "fs path = Some contents"
    and p: "metadata_byte contents p" "b \<noteq> contents ! p"
    and fs': "fs' path = Some (contents[p := b])"
  shows "\<exists>e. doOpen env' fs' path = Inl e"
proof (rule ccontr)
  assume "\<not> ?thesis"
  then obtain o'' where o'': "doOpen env' fs' path = Inr o''" by (cases "doOpen env' fs' path") auto
  let ?c = "contents[p := b]"
  obtain t where t: "open_checked contents t o'" using doOpen_Inr [OF opened(1)] opened(2) by auto
  obtain t' where t': "open_checked ?c t' o''" using doOpen_Inr [OF o''] fs' by auto
  note a = open_checked_framed [OF t] and a' = open_checked_framed [OF t']
  have p1: "p < length contents" using p(1) by (simp add: metadata_byte_def)
  show False
  proof (cases "length contents - trailerSize \<le> p")
    case True
    have "drop (length ?c - trailerSize) ?c =
        (drop (length contents - trailerSize) contents)[p - (length contents - trailerSize) := b]"
      using True by (simp add: drop_update)
    moreover have "drop (length contents - trailerSize) contents ! (p - (length contents - trailerSize)) = contents ! p"
      using True by simp
    ultimately show False
      using crc_framed_update [OF a(1), of "p - (length contents - trailerSize)" b] a'(1) True p1 p(2) by simp
  next
    case False
    let ?lo = "length contents - trailerSize - unat (AppDataSize t) - unat (IndexSize t)"
    let ?hi = "length contents - trailerSize - unat (AppDataSize t)"
    have "drop (length ?c - trailerSize) ?c = drop (length contents - trailerSize) contents"
      using False by simp
    then have tt: "t' = t" using a(4) a'(4) by simp
    have lh: "?lo \<le> p" "p < ?hi" using p(1) False a(4) by (simp_all add: metadata_byte_def)
    have "slice ?c ?lo ?hi = (slice contents ?lo ?hi)[p - ?lo := b]"
      using lh by (simp add: slice_update)
    moreover have "slice contents ?lo ?hi ! (p - ?lo) = contents ! p" "p - ?lo < length (slice contents ?lo ?hi)"
      using lh by (auto simp: slice_def)
    ultimately show False
      using crc_framed_update [OF a(2), of "p - ?lo" b] a'(2) p(2) tt by simp
  qed
qed

section \<open>Uncompressed records\<close>

lemma Decode_uncompressed_single:
  assumes rd: "dformat rd = Uncompressed" "ditemsPerRecord rd = 1" "r < dtotalItems rd"
    and data: "5 \<le> length data" "\<not> crc_framed data"
  shows "Decode z rd data r = (Some ErrChecksum, rd)"
  using rd data itemsInRecord_chunk [of 1 r "replicate (dtotalItems rd) (0::nat)"]
  by (simp add: Decode_def decode_payload_crc crc_framed_def Let_def)

lemma record_change_detected:
  assumes rd: "dformat rd = Uncompressed" "ditemsPerRecord rd = 1" "r < dtotalItems rd"
    and block: "block_of z Uncompressed 1 [item] = Inr data" "item \<noteq> []"
    and p: "p < length data" "b \<noteq> data ! p"
  shows "Decode z rd (data[p := b]) r = (Some ErrChecksum, rd)"
proof -
  have d: "data = item @ PutUint32 (CRC32C item)"
    using block(1) by (simp add: block_of_def item_index_def)
  have "5 \<le> length data" using block(2) by (cases item) (simp_all add: d)
  moreover have "\<not> crc_framed (data[p := b])"
    using crc_framed_update [OF _ p] crc_framed_append [of item] by (simp add: d)
  ultimately show ?thesis using Decode_uncompressed_single [OF rd] by simp
qed

end
