(* ===== verification/Spec2Isabelle.thy ===== *)
theory Spec2Isabelle
  imports Examples Rocks_Store Pipeline_Failure Read_Items_Correct Corruption Event
begin

text \<open>
  A verification library for events-analysis: the packfile storage engine and the
  components around it. Every definition is a translation of the Go source under
  src/; the theorems C1 to C40 below are the properties of the program.

  How the program is put together. An event (event/event.go) is marshalled to bytes.
  The packfile writer (packfile/writer.go) collects items into records, encodes the
  sizes of a record's items with intpack (intpack/intpack.go), compresses or
  checksums the payload (zstd/zstd.go, CRC32C), appends the record to the file and
  finally the offset index (packfile/index.go), the application data and a 64-byte
  trailer. The reader (packfile/reader.go) opens the file from its tail, checks it,
  and reads items singly, by range, or scattered in parallel; records are decoded by
  packfile/decoder.go. A content hash over all items (packfile/contenthash.go) is
  stored in the trailer. With more than one compression worker the writer is a
  pipeline of goroutines over bounded channels. The event stores (eventstore/ and
  eventstore/rocksdb/) offer one interface over a packfile and over RocksDB, the latter
  through rocksdbutil/. The bitmap indexes (bitmapindex/ and bitmapindex/rocksdb/) map a
  field and value of an event to the ids of the events that have it: one is a minimal
  perfect hash function and a packfile of serialized bitmaps in rank order, the other a
  RocksDB database. Events come from ledgers: reader.go reads compressed ledgers from a
  chunk, extractor.go takes the events out of a ledger.

  Theories, in the order of the code's layers:

  \<^item> Prelude, Binary, Sha256: bytes and slices, encoding/binary, SHA-256. Index and slice
    expressions that panic are \<open>go_index\<close>, \<open>go_slice\<close>, \<open>go_update\<close> and the \<open>go_\<close> variants of
    encoding/binary in Binary: their value None stands for the panic.
  \<^item> Crc32c: CRC32C bit by bit, and its linearity: bursts up to 32 bits are detected
    at every bit offset.
  \<^item> Intpack: EncodeGroup, DecodeGroup, rangeWidth, packResiduals, unpackResiduals.
  \<^item> Packfile: constants, RecordFormat, Trailer, errors of packfile/packfile.go.
  \<^item> Index: encodeIndex, decodeIndex over the interface \<open>tail_codec\<close> that
    Intpack implements.
  \<^item> Zstd, Content_Hash, Decoder: the wrapper, the hasher and the record decoder.
  \<^item> Os: files as a map from paths to bytes, with the faults of an \<open>os_env\<close>.
  \<^item> Writer: Create, AppendItem, flush, Finish, Close. The processing of the queued
    blocks by blockWorker and runWriter is \<open>drain\<close>, run when the queue is closed.
  \<^item> Image, Write_File: the declarative layout of a file (\<open>file_image\<close>) and the
    refinement: what a session of the writer leaves is that image.
  \<^item> Record_Codec, Reader, Read_File, Read_Back: opening, ReadItem, ReadRange and
    Verify, and their correctness on a file that holds the image.
  \<^item> Read_Items, Read_Items_Correct: ReadItems as a transition system whose steps are
    the atomic actions of the workers; invariant, safety and termination.
  \<^item> Round_Trip, Corruption: writer and reader together; damaged files.
  \<^item> Pipeline: the writer with concurrent workers as a transition system of the
    caller, the block workers and runWriter: its runs end, and a successful one leaves
    what \<open>drain\<close> leaves. Pipeline_Failure: when no block can be processed, a caller that
    goes on appending is blocked for ever after \<open>2 * n\<close> blocks, under every schedule.
  \<^item> Store_Interface: eventstore/iface.go as the locales \<open>event_reader\<close> and
    \<open>event_log\<close>. Event_Store interprets them for the packfile store, Rocks_Store for
    the RocksDB store; both refine the list of appended events.
  \<^item> Filepath, Rocksdb: Go's path functions; rocksdbutil over the binding grocksdb.
  \<^item> Event: the event codec.
  \<^item> Write_Frame: the packfile writer changes no other file.
  \<^item> Bitmap_Index: fields and keys, the parameters streamhash and roaring, and the
    interface of bitmapindex.go as the locales \<open>bitmap_index\<close> and \<open>exact_index\<close>.
  \<^item> Bitmap_Writer, Bitmap_Reader, Bitmap_Correct: bitmapindex/writer.go and reader.go;
    LookupKeys is a transition system (\<open>lookup_step\<close>): the unstable sort, then the steps of
    ReadItems, then the answer. What a session of the writer leaves is an index of the
    hashed keys (\<open>keyed\<close>).
  \<^item> Rocks_Bitmap: bitmapindex/rocksdb, which interprets \<open>exact_index\<close>: an index of the
    keys themselves (\<open>ids_with\<close>).
  \<^item> Query: store, index and codec together.
  \<^item> Chunk_Reader: reader.go. Extractor: extractor.go over the Stellar SDK.
  \<^item> Examples: small sessions, runs, stores, indexes and ledgers the witnesses use.

  Conventions. Go's fixed-width integers are words; int values are \<open>int\<close> or \<open>nat\<close>,
  wrapped with \<open>int64\<close> where a sum may overflow. An error is a value of an error
  datatype, a panic the error \<open>Panic\<close>. Callbacks act on a state of the caller's own.
  Slices are their contents; capacities and buffer reuse are not modelled except
  where a pooled decoder is passed on. The accesses to a record's bytes in intpack and in
  the decoder panic out of range as Go's do (IndexPanic, \<open>index_panic\<close>, \<open>slice_panic\<close>), so that
  a missing guard is a panic of the model. The offsets and sizes are 32-bit counts times
  widths up to 32, so the bit positions of intpack do not wrap.

  Parameters. libzstd is the record \<open>libzstd\<close>, with its documented behaviour in
  \<open>zstd_contract\<close>; the operating system's faults are the record \<open>os_env\<close>; RocksDB is
  the record \<open>grocksdb\<close> with its documented behaviour in \<open>rocks_contract\<close>; the hash
  function is \<open>streamhash\<close> with \<open>streamhash_contract\<close>, the bitmaps are \<open>roaring\<close> with
  \<open>roaring_contract\<close>, the Stellar SDK is \<open>stellar_sdk\<close>. They are instantiated
  (\<open>store_zstd\<close>, \<open>no_faults\<close>, \<open>list_rocks\<close>, \<open>list_streamhash\<close>, \<open>list_roaring\<close>, \<open>demo_sdk\<close>)
  in the witnesses.

  Bounds. All recursions are structural or have a measure, so no fuel is used, except the
  loop over the transactions of a ledger, which ends only if the SDK's reader does: it is
  a partial function whose value None stands for not ending. The
  steps of ReadItems strictly decrease \<open>items_measure\<close>, those of the pipeline
  \<open>pipe_measure\<close>. The round trips ask that
  counts fit the trailer's 32-bit fields and the file is shorter than 2^63 bytes.

  Go's make panics on more than 2^48 bytes: this is modelled where the size comes from the
  input and is not bounded by the file (the content size of a zstd frame, the record
  size of a chunk), and compressed items stay below 2^46 bytes so that writing them never
  meets it. Not modelled: sync_file_range hints, other allocations and buffer capacities,
  panics inside the libraries, and the contexts of calls that do not look at them.
\<close>

section \<open>Writing and reading a packfile\<close>

text \<open>
  C1. A session of the writer (Create, AppendItem for every item, Finish) that
  succeeds leaves a file from which ReadItem returns every item at its position,
  for every record format, record size, concurrency and choice of options, and
  whatever decoder the pool hands out.
\<close>

theorem write_then_ReadItem:
  assumes "session_ok env z fs path opts calls appData" and "session_fits opts calls"
    and "read_ok env" and "write_file env z fs path opts calls appData = (None, fs')"
    and "length (os_contents fs' path) < 2 ^ 63" and "pool_ok pool" and "pos < length calls"
  shows "\<exists>pool'. ReadItem env z pool (Open env fs' path conc) (int pos) fn s =
      (fst (fn (concat (calls ! pos)) s), pool', snd (fn (concat (calls ! pos)) s)) \<and> pool_ok pool'"
proof -
  obtain blocks index where
    "readable env z (Open env fs' path conc) (session_result opts calls appData blocks index) (map concat calls)"
    using session_readable [OF assms(1-5)] by blast
  from ReadItem_stored [OF this assms(6), of pos fn s] show ?thesis using assms(7) by simp
qed

theorem write_then_ReadItem_witness:
  "\<exists>fs' pool'. write_file no_faults store_zstd (\<lambda>_. None) ''f'' demo_opts demo_calls [9] = (None, fs') \<and>
    ReadItem no_faults store_zstd None (Open no_faults fs' ''f'' None) (int 1) (\<lambda>item s. (None, item # s)) []
      = (None, pool', [[4]])"
proof (rule demo_written)
  fix fs' contents
  assume w: "write_file no_faults store_zstd (\<lambda>_. None) ''f'' demo_opts demo_calls [9] = (None, fs')"
    "fs' ''f'' = Some contents" "length contents < 2 ^ 63"
  then have "length (os_contents fs' ''f'') < 2 ^ 63" "1 < length demo_calls"
    by (simp_all add: os_contents_def demo_calls_def)
  from write_then_ReadItem [where conc = None and fn = "\<lambda>item s. (None, item # s)" and s = "[]",
      OF demo_session demo_fits no_faults_ok(2) w(1) this(1) pool_ok_None this(2)]
  show ?thesis using w(1) by (auto simp: demo_calls_def)
qed

text \<open>
  C2. ReadRange over a written file feeds the consumer exactly the items of the
  range, in order, until it stops, however the records fall into the 1 MB read
  batches.
\<close>

theorem write_then_ReadRange:
  assumes "session_ok env z fs path opts calls appData" and "session_fits opts calls"
    and "read_ok env" and "write_file env z fs path opts calls appData = (None, fs')"
    and "length (os_contents fs' path) < 2 ^ 63" and "pool_ok pool" and "start + cnt \<le> length calls"
  shows "\<exists>pool'. ReadRange env z pool (Open env fs' path conc) (int start) (int cnt) yield s =
      (None, pool', snd (feed yield (slice (map concat calls) start (start + cnt)) s)) \<and> pool_ok pool'"
proof -
  obtain blocks index where
    "readable env z (Open env fs' path conc) (session_result opts calls appData blocks index) (map concat calls)"
    using session_readable [OF assms(1-5)] by blast
  from ReadRange_stored [OF this assms(6), of start cnt yield s] show ?thesis using assms(7) by simp
qed

theorem write_then_ReadRange_witness:
  "\<exists>fs' pool'. write_file no_faults store_zstd (\<lambda>_. None) ''f'' demo_opts demo_calls [9] = (None, fs') \<and>
    ReadRange no_faults store_zstd None (Open no_faults fs' ''f'' None) (int 1) (int 2)
      (\<lambda>item s. (True, s @ [item])) [] = (None, pool', [Inr [4], Inr [5, 6]])"
proof (rule demo_written)
  fix fs' contents
  assume w: "write_file no_faults store_zstd (\<lambda>_. None) ''f'' demo_opts demo_calls [9] = (None, fs')"
    "fs' ''f'' = Some contents" "length contents < 2 ^ 63"
  then have "length (os_contents fs' ''f'') < 2 ^ 63" "1 + 2 \<le> length demo_calls"
    by (simp_all add: os_contents_def demo_calls_def)
  from write_then_ReadRange [where conc = None and yield = "\<lambda>item s. (True, s @ [item])" and s = "[]",
      OF demo_session demo_fits no_faults_ok(2) w(1) this(1) pool_ok_None this(2)]
  show ?thesis using w(1) by (auto simp: slice_def)
qed

text \<open>
  C3. Verify accepts every file that a session of the writer within the sizes of the
  format has left. Without a content hash there is nothing to compare. With one,
  every item is read back and hashed, so in the format Uncompressed no record may
  consist of empty items only: that is the record Decode rejects (C28).
\<close>

theorem write_then_Verify:
  assumes "session_ok env z fs path opts calls appData" and "session_sized opts calls"
    and "read_ok env" and "write_file env z fs path opts calls appData = (None, fs')"
    and "length (os_contents fs' path) < 2 ^ 63" and "pool_ok pool"
    and "optContentHash opts \<Longrightarrow> optFormat opts = Uncompressed \<Longrightarrow> records_filled opts calls"
  shows "\<exists>pool'. Verify env z pool (Open env fs' path conc) (\<lambda>_. None) = (None, pool') \<and> pool_ok pool'"
proof (cases "optContentHash opts")
  case True
  then have "session_fits opts calls" using assms(2,7) by (simp add: session_fits_def)
  then obtain blocks index where
    r: "readable env z (Open env fs' path conc) (session_result opts calls appData blocks index) (map concat calls)"
    using session_readable [OF assms(1) _ assms(3-5)] by blast
  have "HasContentHash (otrailer (session_result opts calls appData blocks index))"
    using True by (simp add: session_result_def image_result_def image_Trailer_def)
  from Verify_stored [OF r assms(6) refl this] show ?thesis
    using True by (auto simp: session_result_def image_result_def image_Trailer_def)
next
  case False
  from session_opens [OF assms(1-5), of conc] obtain blocks index where
    "rresult (Open env fs' path conc) = Inr (session_result opts calls appData blocks index)" by blast
  with False assms(6) show ?thesis
    by (simp add: Verify_def session_result_def image_result_def image_Trailer_def)
qed

theorem write_then_Verify_witness:
  "\<exists>fs' pool'. write_file no_faults store_zstd (\<lambda>_. None) ''f'' demo_opts demo_calls [9] = (None, fs') \<and>
    Verify no_faults store_zstd None (Open no_faults fs' ''f'' None) (\<lambda>_. None) = (None, pool')"
proof (rule demo_written)
  fix fs' contents
  assume w: "write_file no_faults store_zstd (\<lambda>_. None) ''f'' demo_opts demo_calls [9] = (None, fs')"
    "fs' ''f'' = Some contents" "length contents < 2 ^ 63"
  then have "length (os_contents fs' ''f'') < 2 ^ 63" by (simp add: os_contents_def)
  moreover have "session_sized demo_opts demo_calls" using demo_fits by (simp add: session_fits_def)
  moreover have "optFormat demo_opts \<noteq> Uncompressed" by (simp add: demo_opts_def)
  ultimately show ?thesis
    using write_then_Verify [where conc = None, OF demo_session _ no_faults_ok(2) w(1) _ pool_ok_None] w(1) by blast
qed

text \<open>
  C5. The pipeline is invisible in the file: two sessions that differ only in
  Concurrency and BytesPerSync return the same error, and when they succeed
  they leave the same bytes.
\<close>

theorem concurrency_invisible:
  assumes "session_ok env z fs path opts calls appData"
    and "opts' = opts\<lparr>optConcurrency := n, optBytesPerSync := m\<rparr>"
  shows "fst (write_file env z fs path opts' calls appData) = fst (write_file env z fs path opts calls appData) \<and>
    (fst (write_file env z fs path opts calls appData) = None \<longrightarrow>
      os_contents (snd (write_file env z fs path opts' calls appData)) path =
      os_contents (snd (write_file env z fs path opts calls appData)) path)"
proof -
  have ok': "session_ok env z fs path opts' calls appData" using assms by (simp add: session_ok_def)
  have same: "items_per_record opts' = items_per_record opts" "optFormat opts' = optFormat opts"
    "optContentHash opts' = optContentHash opts"
    using assms(2) by (simp_all add: items_per_record_def)
  obtain bs where bs: "image_blocks z (optFormat opts) (items_per_record opts) (map concat calls) bs"
    "\<And>index. encodeIndex (block_offsets bs) = Inr index \<Longrightarrow> \<exists>fs'. write_file env z fs path opts calls appData = (None, fs') \<and>
        fs' path = Some (file_image (optFormat opts) (optContentHash opts) (items_per_record opts)
          (map concat calls) bs index appData)"
    "\<And>e. encodeIndex (block_offsets bs) = Inl e \<Longrightarrow> \<exists>fs'. write_file env z fs path opts calls appData = (Some e, fs')"
    using write_file_image [OF assms(1)] by blast
  obtain bs' where bs': "image_blocks z (optFormat opts) (items_per_record opts) (map concat calls) bs'"
    "\<And>index. encodeIndex (block_offsets bs') = Inr index \<Longrightarrow> \<exists>fs'. write_file env z fs path opts' calls appData = (None, fs') \<and>
        fs' path = Some (file_image (optFormat opts) (optContentHash opts) (items_per_record opts)
          (map concat calls) bs' index appData)"
    "\<And>e. encodeIndex (block_offsets bs') = Inl e \<Longrightarrow> \<exists>fs'. write_file env z fs path opts' calls appData = (Some e, fs')"
    using write_file_image [OF ok'] unfolding same by blast
  have eq: "bs' = bs" by (rule image_blocks_unique [OF bs'(1) bs(1)])
  show ?thesis
  proof (cases "encodeIndex (block_offsets bs)")
    case (Inl e)
    then show ?thesis using bs(3) bs'(3) eq by fastforce
  next
    case (Inr index)
    then show ?thesis using bs(2) bs'(2) eq by (fastforce simp: os_contents_def)
  qed
qed

theorem concurrency_invisible_witness:
  "os_contents (snd (write_file no_faults store_zstd (\<lambda>_. None) ''f''
      (demo_opts\<lparr>optConcurrency := 1, optBytesPerSync := 7\<rparr>) demo_calls [9])) ''f'' =
   os_contents (snd (write_file no_faults store_zstd (\<lambda>_. None) ''f'' demo_opts demo_calls [9])) ''f''"
proof (rule demo_written)
  fix fs' contents
  assume "write_file no_faults store_zstd (\<lambda>_. None) ''f'' demo_opts demo_calls [9] = (None, fs')"
  then have "fst (write_file no_faults store_zstd (\<lambda>_. None) ''f'' demo_opts demo_calls [9]) = None" by simp
  with concurrency_invisible [OF demo_session refl, of 7 1] show ?thesis by simp
qed

text \<open>
  C9. What is on disk: a session that gets past the index leaves exactly the
  documented layout, the records of the items one after the other, the index, the
  application data and the trailer with its checksum.
\<close>

theorem write_file_layout:
  assumes "session_ok env z fs path opts calls appData"
    and "image_blocks z (optFormat opts) (items_per_record opts) (map concat calls) blocks"
    and "encodeIndex (block_offsets blocks) = Inr index"
  shows "\<exists>fs'. write_file env z fs path opts calls appData = (None, fs') \<and>
    fs' path = Some (file_image (optFormat opts) (optContentHash opts) (items_per_record opts)
      (map concat calls) blocks index appData)"
proof -
  obtain bs where bs: "image_blocks z (optFormat opts) (items_per_record opts) (map concat calls) bs"
    "\<And>index. encodeIndex (block_offsets bs) = Inr index \<Longrightarrow> \<exists>fs'. write_file env z fs path opts calls appData = (None, fs') \<and>
        fs' path = Some (file_image (optFormat opts) (optContentHash opts) (items_per_record opts)
          (map concat calls) bs index appData)"
    using write_file_image [OF assms(1)] by blast
  have "bs = blocks" by (rule image_blocks_unique [OF bs(1) assms(2)])
  then show ?thesis using bs(2) assms(3) by blast
qed

theorem write_file_layout_witness:
  "\<exists>fs' index. encodeIndex (block_offsets demo_blocks) = Inr index \<and>
    write_file no_faults store_zstd (\<lambda>_. None) ''f'' demo_opts demo_calls [9] = (None, fs') \<and>
    fs' ''f'' = Some (file_image Compressed True 2 (map concat demo_calls) demo_blocks index [9])"
proof (rule demo_index)
  fix index assume index: "encodeIndex (block_offsets demo_blocks) = Inr index"
  have "image_blocks store_zstd (optFormat demo_opts) (items_per_record demo_opts) (map concat demo_calls) demo_blocks"
    using demo_image_blocks by (simp add: demo_opts_def items_per_record_def)
  from write_file_layout [OF demo_session this index] index show ?thesis
    by (auto simp: demo_opts_def items_per_record_def)
qed

text \<open>
  C10. ReadItems passes every requested position to fn, with its item, at most once
  under every schedule of its workers and every cancellation of the context; no
  worker panics; and if all workers have returned and no error is reported, every
  position has been passed exactly once and no call of fn has failed.
\<close>

theorem ReadItems_exactly_once:
  assumes "readable env z r o' items" and "1 \<le> rconcurrency r"
    and "ps \<noteq> []" and "sorted_wrt (<) ps" and "\<forall>p \<in> set ps. 0 \<le> p \<and> p < int (length items)"
  shows "\<exists>E st0. ReadItems_start env z r None ps fn = Inr (E, st0) \<and>
    (\<forall>st. items_reachable E polls st0 st \<longrightarrow>
      distinct (map fst (fnCalls st)) \<and>
      (\<forall>(k, data) \<in> set (fnCalls st). k < length ps \<and> data = items ! nat (ps ! k)) \<and>
      \<not> items_crashed st \<and>
      (items_done st \<longrightarrow> firstErr st = None \<longrightarrow>
        fst ` set (fnCalls st) = {..<length ps} \<and> (\<forall>(k, data) \<in> set (fnCalls st). fn k data = None)))"
proof -
  obtain E st0 blocks where E: "ReadItems_start env z r None ps fn = Inr (E, st0)"
    "items_setup E items blocks" "items_inv E items blocks polls st0" "workers st0 \<noteq> []"
    "ipositions E = ps" "ifn E = fn"
    using ReadItems_start_ok [OF assms] by blast
  have cover: "batches_ok (ooffsets (iopen E)) (oitemsPerRecord (iopen E)) (ipositions E) (ibatches E)"
    using E(2) by (simp add: items_setup_def)
  have "distinct (map fst (fnCalls st)) \<and>
      (\<forall>(k, data) \<in> set (fnCalls st). k < length ps \<and> data = items ! nat (ps ! k)) \<and>
      \<not> items_crashed st \<and>
      (items_done st \<longrightarrow> firstErr st = None \<longrightarrow>
        fst ` set (fnCalls st) = {..<length ps} \<and> (\<forall>(k, data) \<in> set (fnCalls st). fn k data = None))"
    if "items_reachable E polls st0 st" for st
  proof -
    have inv: "items_inv E items blocks polls st" by (rule items_reachable_inv [OF E(2) that E(3)])
    have ne: "workers st \<noteq> []" using items_reachable_workers [OF that] E(4) by auto
    have "distinct (map fst (fnCalls st))"
      "\<forall>(k, data) \<in> set (fnCalls st). k < length ps \<and> data = items ! nat (ps ! k)"
      using inv E(5) unfolding items_inv_def item_at_def by blast+
    moreover have "fst ` set (fnCalls st) = {..<length ps} \<and> (\<forall>(k, data) \<in> set (fnCalls st). fn k data = None)"
      if "items_done st" "firstErr st = None"
      using items_complete [OF inv cover that(1) ne that(2)] E(5,6) by (simp add: image_image)
    ultimately show ?thesis using items_inv_not_crashed [OF inv] by blast
  qed
  then show ?thesis using E(1) by blast
qed

theorem ReadItems_exactly_once_witness:
  "\<exists>r E st0. ReadItems_start no_faults store_zstd r None [0, 2] (\<lambda>k data. None) = Inr (E, st0) \<and>
    (\<forall>st. items_reachable E {None} st0 st \<longrightarrow> items_done st \<longrightarrow> firstErr st = None \<longrightarrow>
      fst ` set (fnCalls st) = {0, 1})"
proof (rule demo_readable)
  fix r o' assume r: "readable no_faults store_zstd r o' (map concat demo_calls)" "rconcurrency r = 8"
  then have "1 \<le> rconcurrency r" "[0, 2] \<noteq> ([] :: int list)" "sorted_wrt (<) [0, 2 :: int]"
    "\<forall>p \<in> set [0, 2]. 0 \<le> p \<and> p < int (length (map concat demo_calls))"
    by simp_all
  from ReadItems_exactly_once [OF r(1) this, of "\<lambda>k data. None" "{None}"]
  have "\<exists>E st0. ReadItems_start no_faults store_zstd r None [0, 2] (\<lambda>k data. None) = Inr (E, st0) \<and>
    (\<forall>st. items_reachable E {None} st0 st \<longrightarrow> items_done st \<longrightarrow> firstErr st = None \<longrightarrow>
      fst ` set (fnCalls st) = {..<length [0, 2 :: int]})"
    by blast
  then show ?thesis by (auto simp: lessThan_Suc insert_commute)
qed

text \<open>
  C11. ReadItems returns: from its start no schedule of the workers makes more than
  items_measure steps, and as long as a worker has not returned a step is possible.
\<close>

theorem ReadItems_returns:
  assumes "readable env z r o' items" and "1 \<le> rconcurrency r"
    and "ps \<noteq> []" and "sorted_wrt (<) ps" and "\<forall>p \<in> set ps. 0 \<le> p \<and> p < int (length items)"
    and "polls \<noteq> {}"
  shows "\<exists>E st0. ReadItems_start env z r None ps fn = Inr (E, st0) \<and>
    (\<forall>n st. (items_step E polls ^^ n) st0 st \<longrightarrow>
      n \<le> items_measure E st0 \<and> (\<not> items_done st \<longrightarrow> (\<exists>st'. items_step E polls st st')))"
proof -
  obtain E st0 blocks where E: "ReadItems_start env z r None ps fn = Inr (E, st0)"
    "items_setup E items blocks" "items_inv E items blocks polls st0"
    using ReadItems_start_ok [OF assms(1-5)] by blast
  have "n \<le> items_measure E st0 \<and> (\<not> items_done st \<longrightarrow> (\<exists>st'. items_step E polls st st'))"
    if run: "(items_step E polls ^^ n) st0 st" for n st
  proof -
    have "items_reachable E polls st0 st"
      using run unfolding items_reachable_def by (rule relpowp_imp_rtranclp)
    then have "items_inv E items blocks polls st" by (rule items_reachable_inv [OF E(2) _ E(3)])
    from items_progress [OF this assms(6)] items_run_bounded [OF run] show ?thesis by auto
  qed
  then show ?thesis using E(1) by blast
qed

theorem ReadItems_returns_witness:
  "\<exists>r E st0. ReadItems_start no_faults store_zstd r None [0, 2] (\<lambda>k data. None) = Inr (E, st0) \<and>
    (\<forall>n st. (items_step E {None, Some (ErrIO ''deadline'')} ^^ n) st0 st \<longrightarrow> n \<le> items_measure E st0)"
proof (rule demo_readable)
  fix r o' assume r: "readable no_faults store_zstd r o' (map concat demo_calls)" "rconcurrency r = 8"
  then have "1 \<le> rconcurrency r" "[0, 2] \<noteq> ([] :: int list)" "sorted_wrt (<) [0, 2 :: int]"
    "\<forall>p \<in> set [0, 2]. 0 \<le> p \<and> p < int (length (map concat demo_calls))"
    "{None, Some (ErrIO ''deadline'')} \<noteq> {}"
    by simp_all
  from ReadItems_returns [OF r(1) this, of "\<lambda>k data. None"] show ?thesis by blast
qed

section \<open>Damaged and crafted files\<close>

text \<open>
  C23. A file that opens, with any one byte of its trailer or its index changed, no
  longer opens.
\<close>

theorem damaged_metadata_detected:
  assumes "doOpen env fs path = Inr o'" and "fs path = Some contents"
    and "metadata_byte contents p" and "b \<noteq> contents ! p" and "fs' path = Some (contents[p := b])"
  shows "\<exists>e. doOpen env' fs' path = Inl e"
  by (rule metadata_change_detected [where fs' = fs' and path = path, OF assms])

theorem damaged_metadata_detected_witness:
  "\<exists>contents o' e. doOpen no_faults [''f'' \<mapsto> contents] ''f'' = Inr o' \<and>
    doOpen no_faults [''f'' \<mapsto> contents[length contents - 1 := contents ! (length contents - 1) + 1]] ''f'' = Inl e"
proof (rule demo_opens)
  fix contents o' t assume o': "doOpen no_faults [''f'' \<mapsto> contents] ''f'' = Inr o'" "0 < length contents"
  let ?p = "length contents - 1"
  have p: "metadata_byte contents ?p" using o'(2) by (auto simp: metadata_byte_def trailerSize_def)
  have b: "contents ! ?p + 1 \<noteq> contents ! ?p" by simp
  have fs: "[''f'' \<mapsto> contents] ''f'' = Some contents"
    "[''f'' \<mapsto> contents[?p := contents ! ?p + 1]] ''f'' = Some (contents[?p := contents ! ?p + 1])"
    by simp_all
  from damaged_metadata_detected [where path = "''f''" and env' = no_faults
      and fs' = "[''f'' \<mapsto> contents[?p := contents ! ?p + 1]]", OF o'(1) fs(1) p b fs(2)] o'(1) show ?thesis by blast
qed

text \<open>
  C24. A one-item record of the Uncompressed format with any one byte of its payload
  or checksum changed is reported as ErrChecksum, never decoded.
\<close>

theorem damaged_record_detected:
  assumes "dformat rd = Uncompressed" and "ditemsPerRecord rd = 1" and "r < dtotalItems rd"
    and "block_of z Uncompressed 1 [item] = Inr data" and "item \<noteq> []"
    and "p < length data" and "b \<noteq> data ! p"
  shows "Decode z rd (data[p := b]) r = (Some ErrChecksum, rd)"
  by (rule record_change_detected [OF assms])

definition demo_decoder :: decoder where
  "demo_decoder = \<lparr>dformat = Uncompressed, dtotalItems = 1, ditemsPerRecord = 1, scratch = [],
    decompressed = [], sizes = [], item_offsets = [], decompressor = Some \<lparr>dctx = True\<rparr>\<rparr>"

theorem damaged_record_detected_witness:
  "Decode store_zstd demo_decoder (([1, 2] @ PutUint32 (CRC32C [1, 2]))[1 := 3]) 0 = (Some ErrChecksum, demo_decoder)"
  by (rule damaged_record_detected [where item = "[1, 2]"])
    (simp_all add: demo_decoder_def block_of_def item_index_def)

text \<open>
  C25. Reading does not panic on bad data: whatever the bytes of the file, if it opens
  and its trailer's ItemsPerRecord is not zero, ReadItem returns an error value or
  calls fn, and leaves an open decoder for the pool. The one panic left is that of a
  record of the format Compressed whose frame claims a content too large to allocate.
\<close>

theorem ReadItem_never_panics:
  assumes "fs path = Some contents" and "doOpen env0 fs path = Inr o'" and "rresult r = Inr o'"
    and "parse_trailer (drop (length contents - trailerSize) contents) = Inr t" and "ItemsPerRecord t \<noteq> 0"
    and "createDCtx z" and "pool_ok pool"
    and "\<And>item s e. fst (fn item s) = Some e \<Longrightarrow> \<not> is_panic e"
  shows "case ReadItem env z pool r pos fn s of
    (err, pool', s') \<Rightarrow> (case err of None \<Rightarrow> True | Some e \<Rightarrow> harmless (Format (otrailer o')) e) \<and> pool_ok pool'"
proof -
  obtain t' where t': "open_checked contents t' o'" using doOpen_Inr [OF assms(2)] assms(1) by auto
  then have "t' = t" using assms(4) open_checked_framed(4) [OF t'] by simp
  obtain err pool' s' where run: "ReadItem env z pool r pos fn s = (err, pool', s')"
    by (cases "ReadItem env z pool r pos fn s") auto
  from ReadItem_robust [OF assms(3) t' _ assms(6-8) run] show ?thesis
    using run assms(5) \<open>t' = t\<close> by (auto split: option.splits)
qed

theorem ReadItem_never_panics_witness:
  "\<exists>contents o'. doOpen no_faults [''f'' \<mapsto> contents] ''f'' = Inr o' \<and>
    (case ReadItem no_faults store_zstd None \<lparr>rresult = Inr o', rconcurrency = 8, rclosed = None\<rparr> 2
        (\<lambda>item s. (None, s)) () of
      (err, pool', s') \<Rightarrow> (case err of None \<Rightarrow> True | Some e \<Rightarrow> harmless (Format (otrailer o')) e) \<and> pool_ok pool')"
proof (rule demo_opens)
  fix contents o' t
  assume o': "doOpen no_faults [''f'' \<mapsto> contents] ''f'' = Inr o'"
    "parse_trailer (drop (length contents - trailerSize) contents) = Inr t" "ItemsPerRecord t \<noteq> 0"
  let ?r = "\<lparr>rresult = Inr o', rconcurrency = 8, rclosed = None\<rparr>"
  have "[''f'' \<mapsto> contents] ''f'' = Some contents" "rresult ?r = Inr o'" "createDCtx store_zstd"
    by (simp_all add: store_zstd_def)
  then have "case ReadItem no_faults store_zstd None ?r 2 (\<lambda>item s. (None, s)) () of
      (err, pool', s') \<Rightarrow> (case err of None \<Rightarrow> True | Some e \<Rightarrow> harmless (Format (otrailer o')) e) \<and> pool_ok pool'"
    by (rule ReadItem_never_panics [where path = "''f''", OF _ o'(1) _ o'(2,3) _ pool_ok_None]) simp
  with o'(1) show ?thesis by (intro exI [of _ contents] exI [of _ o'] conjI)
qed

text \<open>
  C26. The exception is real: a trailer with ItemsPerRecord zero, no records and a
  non-zero item count passes every check of Open, and ReadItem then indexes past
  the offset table and panics.
\<close>

theorem crafted_trailer_panics:
  "\<exists>contents. let r = Open no_faults [''f'' \<mapsto> contents] ''f'' None in
    Reader_TotalItems r = Inr 5 \<and>
    (\<exists>pool'. ReadItem no_faults store_zstd None r 0 (\<lambda>item s. (None, s)) () =
      (Some (Panic ''index out of range''), pool', ()))"
proof -
  define body where "body = image_trailer Raw False 0 (replicate 5 []) 0 4 0"
  define index where "index = PutUint32 (CRC32C [])"
  define contents where "contents = [] @ index @ [] @ body @ PutUint32 (CRC32C body)"
  let ?t = "image_Trailer Raw False 0 (replicate 5 []) 0 4 0 (CRC32C body)"
  have disk: "[''f'' \<mapsto> contents] ''f'' = Some contents" by simp
  have t: "parse_trailer (body @ PutUint32 (CRC32C body)) = Inr ?t"
    unfolding body_def by (rule parse_trailer_image) (simp add: known_format_def)
  have dec: "decodeIndex index 0 (length index) (int (length ([] :: bytes))) = Inr [0]"
    by (simp add: index_def decodeIndex_def group_count_def groupSize_def)
  have "doOpen no_faults [''f'' \<mapsto> contents] ''f'' = Inr
      \<lparr>ofile = contents, otrailer = ?t\<lparr>ItemsPerRecord := 1\<rparr>, ooffsets = [0], oappData = [],
        ototalItems = 5, oitemsPerRecord = 1\<rparr>"
    using doOpen_parts [where fs = "[''f'' \<mapsto> contents]" and path = "''f''",
        OF no_faults_ok(2) disk contents_def _ t] dec
    by (simp add: body_def image_Trailer_def index_def check_records_def)
  then have "rresult (Open no_faults [''f'' \<mapsto> contents] ''f'' None) = Inr
      \<lparr>ofile = contents, otrailer = ?t\<lparr>ItemsPerRecord := 1\<rparr>, ooffsets = [0], oappData = [],
        ototalItems = 5, oitemsPerRecord = 1\<rparr>"
    by (simp add: Open_def recover_open_def)
  then show ?thesis
    by (intro exI [of _ contents])
      (simp add: Reader_TotalItems_def ReadItem_def reader_getDecoder_def newDecoder_def
        NewDecompressor_def store_zstd_def span_def Let_def)
qed

section \<open>Records and the index\<close>

text \<open>
  C27. The record round trip. When a writer that has buffered the items of a record
  builds the block and a worker processes it, Decode of that block, with any decoder
  configured for the file, succeeds and leaves exactly those items for Item, in every
  format and with or without an item index. The one exception is the Uncompressed
  record whose items are all empty, which Decode refuses.
\<close>

theorem Decode_written_record:
  assumes "zstd_contract z" and "open_decoder rd" and "known_format (dformat rd)"
    and "0 < ditemsPerRecord rd" and "r * ditemsPerRecord rd < length items"
    and "dtotalItems rd = length items" and "c = chunks (ditemsPerRecord rd) items ! r"
    and "length (concat c) < 2 ^ 46" and "\<forall>item \<in> set c. length item < 2 ^ 32"
    and "witemsPerRecord w = ditemsPerRecord rd" and "wbuf w = concat c" and "wsizes w = item_sizes c"
    and "buildBlock w = Inr ((bdata job, bforIndex job), w')" and "blockWorker z (dformat rd) job = Inr br"
  shows "if dformat rd = Uncompressed \<and> concat c = []
    then Decode z rd (bdata br) r = (Some (ErrPlain ''too short for CRC32C''), rd)
    else \<exists>rd'. Decode z rd (bdata br) r = (None, rd') \<and> length (sizes rd') = length c \<and>
      (\<forall>i < length c. Item rd' (int i) = Inr (c ! i))"
  using Decode_built [OF assms] Item_holds length_sizes_holds by (fastforce split: if_splits)

theorem Decode_written_record_witness:
  "\<exists>b w' br rd'. buildBlock demo_buffered = Inr ((b, bforIndex (demo_built b)), w') \<and>
    blockWorker store_zstd Uncompressed (demo_built b) = Inr br \<and>
    Decode store_zstd demo_pair_decoder (bdata br) 0 = (None, rd') \<and> Item rd' 0 = Inr [1, 2] \<and> Item rd' 1 = Inr [3]"
proof -
  let ?c = "[[1, 2], [3 :: byte]]" and ?job = "demo_built [1, 2, 3]"
  obtain w' where w': "buildBlock demo_buffered = Inr ((bdata ?job, bforIndex ?job), w')"
    using demo_buffered_block by blast
  obtain br where br: "blockWorker store_zstd (dformat demo_pair_decoder) ?job = Inr br"
    using demo_built_processed by blast
  have "open_decoder demo_pair_decoder" "known_format (dformat demo_pair_decoder)" "0 < ditemsPerRecord demo_pair_decoder"
    "0 * ditemsPerRecord demo_pair_decoder < length ?c" "dtotalItems demo_pair_decoder = length ?c"
    "?c = chunks (ditemsPerRecord demo_pair_decoder) ?c ! 0" "length (concat ?c) < 2 ^ 46" "\<forall>item \<in> set ?c. length item < 2 ^ 32"
    "witemsPerRecord demo_buffered = ditemsPerRecord demo_pair_decoder" "wbuf demo_buffered = concat ?c"
    "wsizes demo_buffered = item_sizes ?c"
    by (simp_all add: demo_pair_decoder_def demo_buffered_def demo_writer_def open_decoder_def known_format_def
        chunks.simps item_sizes_def)
  from Decode_written_record [OF store_zstd_contract this w' br] obtain rd' where
    "Decode store_zstd demo_pair_decoder (bdata br) 0 = (None, rd')" "\<forall>i < 2. Item rd' (int i) = Inr (?c ! i)"
    by (auto simp: demo_pair_decoder_def)
  moreover from this(2) have "Item rd' 0 = Inr [1, 2]" "Item rd' 1 = Inr [3]"
    by (auto dest: spec [where x = 0] spec [where x = 1])
  moreover have "bdata ?job = [1, 2, 3]" "dformat demo_pair_decoder = Uncompressed"
    by (simp_all add: demo_built_def demo_pair_decoder_def)
  ultimately show ?thesis using w' br by metis
qed



text \<open>
  C29. The index round trip: an encoded offset table decodes to itself, whatever
  follows the index in the buffer.
\<close>

theorem index_round_trip:
  assumes "offset_table offs" and "encodeIndex offs = Inr buf"
  shows "decodeIndex (buf @ rest) (length offs - 1) (length buf) (last offs) = Inr offs"
  by (rule decodeIndex_encodeIndex [OF assms])

theorem index_round_trip_witness:
  "\<exists>buf. encodeIndex [0, 10, 10, 300] = Inr buf \<and> decodeIndex buf 3 (length buf) 300 = Inr [0, 10, 10, 300]"
proof -
  have t: "offset_table [0, 10, 10, 300]"
    by (simp add: offset_table_def All_less_Suc)
  then obtain es where "encodeIndex [0, 10, 10, 300] = Inr (concat es @ PutUint32 (CRC32C (concat es)))"
    using encodeIndex_groups by metis
  with index_round_trip [OF t this, of "[]"] show ?thesis by (auto simp: numeral_3_eq_3)
qed

text \<open>
  C30. Whatever bytes an index is made of: if decodeIndex succeeds, it returns one
  offset per record and the base, starting at 0, ending at the base and monotone,
  although the prefix sum runs in wrapping 64-bit arithmetic.
\<close>

theorem decodeIndex_monotone:
  assumes "decodeIndex buf n sz base = Inr offs" and "n < 2 ^ 32" and "0 \<le> base"
  shows "length offs = n + 1 \<and> hd offs = 0 \<and> last offs = base \<and>
    (\<forall>i j. i \<le> j \<longrightarrow> j \<le> n \<longrightarrow> 0 \<le> offs ! i \<and> offs ! i \<le> offs ! j \<and> offs ! j \<le> base)"
proof -
  note t = decodeIndex_table [OF assms]
  show ?thesis
    using t(2,3) offset_table_mono [OF t(1)] offset_table_nonneg [OF t(1)] offset_table_le_last [OF t(1)]
      t(1) [unfolded offset_table_def, THEN conjunct2, THEN conjunct1] by simp
qed

theorem decodeIndex_monotone_witness:
  "decodeIndex (PutUint32 (CRC32C [])) 0 4 0 = Inr [0] \<and> last [0 :: int] = 0"
proof -
  have "decodeIndex (PutUint32 (CRC32C [])) 0 4 0 = Inr [0]"
    by (simp add: decodeIndex_def group_count_def groupSize_def)
  from this decodeIndex_monotone [OF this] show ?thesis by simp
qed

section \<open>Frame-of-reference groups\<close>

text \<open>
  C31. The group round trip: DecodeGroup finds an encoded group at the end of any
  buffer, returns its values and reports its length, whatever the destination held.
\<close>

theorem group_round_trip:
  assumes "EncodeGroup vs = Inr g"
  shows "DecodeGroup (pre @ g) (int (length vs)) dst = Inr (vs, length g)"
  by (rule DecodeGroup_EncodeGroup [OF assms])

theorem group_round_trip_witness:
  "DecodeGroup ([0xFF] @ [2, 2, 1, 0, 0, 0]) (int (length [3, 1 :: uint32])) [7] = Inr ([3, 1], length [2, 2, 1, 0, 0, 0 :: byte])"
  by (rule group_round_trip) code_simp

text \<open>
  C32. EncodeGroup is total on non-empty groups and as small as its layout allows:
  every value minus the group's minimum fits the stored width, no smaller width of
  at least 1 does, and the length is the packed size plus 5 bytes.
\<close>

theorem EncodeGroup_smallest:
  assumes "vs \<noteq> []"
  shows "\<exists>p w m. EncodeGroup vs = Inr (p @ [w] @ PutUint32 m) \<and> length p = (unat w * length vs + 7) div 8 \<and>
    1 \<le> unat w \<and> unat w \<le> 32 \<and> m \<in> set vs \<and> (\<forall>v \<in> set vs. m \<le> v \<and> unat (v - m) < 2 ^ unat w) \<and>
    (\<forall>k. 1 \<le> k \<longrightarrow> (\<forall>v \<in> set vs. unat (v - m) < 2 ^ k) \<longrightarrow> unat w \<le> k)"
proof (rule EncodeGroup_shape [OF assms])
  fix p m w
  assume "EncodeGroup vs = Inr (p @ [w] @ PutUint32 m)" "packed_as p vs m (unat w)" "1 \<le> unat w"
    "unat w \<le> 32" "m \<in> set vs" "\<forall>v \<in> set vs. m \<le> v" "\<And>k. fits vs m k \<Longrightarrow> 1 \<le> k \<Longrightarrow> unat w \<le> k"
  then show ?thesis
    by (intro exI [of _ p] exI [of _ w] exI [of _ m]) (auto simp: packed_as_def fits_def)
qed

theorem EncodeGroup_smallest_witness: "\<exists>p w m. EncodeGroup [3, 1] = Inr (p @ [w] @ PutUint32 m) \<and> m \<in> {1, 3}"
  using EncodeGroup_smallest [of "[3, 1]"] by auto

text \<open>
  C33. Unpacking is one function whatever path the loads take: for any buffer, width and
  number of values, unpackResiduals returns without a panic, and each value is the one
  that the byte-by-byte loop reads at its place. In particular the 8-byte load is only
  made where eight bytes are left.
\<close>

theorem unpack_paths_agree:
  assumes "length values = n"
  shows "unpackResiduals packed n w groupMin values =
      Some (map (\<lambda>j. groupMin + ucast (drop_bit (j * w mod 8) (slow_read packed (j * w div 8) 0 0) AND (push_bit w 1 - 1))) [0..<n]) \<and>
    (\<forall>bytePos. read_raw packed bytePos = Some (slow_read packed bytePos 0 0))"
  using unpackResiduals_map [OF assms, of packed w groupMin] read_raw_slow [of packed]
  by (simp add: residual_at_def [abs_def])

theorem unpack_paths_agree_witness:
  "unpackResiduals [9, 1, 2, 3, 4, 5, 6, 7, 8] 2 5 100 [0, 0] = Some [109, 108] \<and>
    read_raw [9, 1, 2, 3, 4, 5, 6, 7, 8] 2 = Some (slow_read [9, 1, 2, 3, 4, 5, 6, 7, 8] 2 0 0)"
proof
  have eq: "unpackResiduals [9, 1, 2, 3, 4, 5, 6, 7, 8] 2 5 100 [0, 0] = Some (map (\<lambda>j. 100 +
      ucast (drop_bit (j * 5 mod 8) (slow_read [9, 1, 2, 3, 4, 5, 6, 7, 8] (j * 5 div 8) 0 0) AND (push_bit 5 1 - 1))) [0..<2])"
    using unpack_paths_agree [of "[0, 0]" 2 "[9, 1, 2, 3, 4, 5, 6, 7, 8]" 5 100] by simp
  show "unpackResiduals [9, 1, 2, 3, 4, 5, 6, 7, 8] 2 5 100 [0, 0] = Some [109, 108]"
    unfolding eq by code_simp
  show "read_raw [9, 1, 2, 3, 4, 5, 6, 7, 8] 2 = Some (slow_read [9, 1, 2, 3, 4, 5, 6, 7, 8] 2 0 0)"
    using unpack_paths_agree [of "[0, 0]" 2 "[9, 1, 2, 3, 4, 5, 6, 7, 8]" 5 100] by simp
qed

section \<open>Checksums, hashes and compression\<close>

text \<open>
  C34. CRC32C detects every error burst of up to 32 bits: of two different byte strings of
  the same length that differ only within 32 consecutive bits, at any bit offset, the
  checksums differ. Bits are counted as CRC32C takes them in, within a byte from the
  least significant one.
\<close>

theorem CRC32C_detects_bursts:
  assumes "length as = length bs" and "\<And>i. bitat as i \<noteq> bitat bs i \<Longrightarrow> p \<le> i \<and> i < p + 32" and "as \<noteq> bs"
  shows "CRC32C as \<noteq> CRC32C bs"
  using CRC32C_burst32 [OF assms(1,2)] assms(3) by blast

theorem CRC32C_detects_bursts_witness: "CRC32C [7, 1, 2, 3, 4, 5] \<noteq> CRC32C [7, 17, 2, 3, 4, 13]"
proof (rule CRC32C_detects_bursts [where p = 12])
  have one: "bit a j \<noteq> bit b j \<Longrightarrow> j = n" if "a XOR b = 2 ^ n" for a b :: byte and j n
    using arg_cong [OF that, of "\<lambda>x. bit x j"] by (simp add: bit_xor_iff bit_exp_iff)
  fix i :: nat
  assume "bitat [7, 1, 2, 3, 4, 5] i \<noteq> bitat [7, 17, 2, 3, 4, 13] i"
  then have "\<not> i < 8 \<and> bit (1 :: byte) (i - 8) \<noteq> bit (17 :: byte) (i - 8) \<or>
      \<not> i < 40 \<and> bit (5 :: byte) (i - 40) \<noteq> bit (13 :: byte) (i - 40)"
    unfolding bitat_differ by (auto simp only: diff_diff_left split: if_splits) simp_all
  moreover have "(1 :: byte) XOR 17 = 2 ^ 4" "(5 :: byte) XOR 13 = 2 ^ 3" by simp_all
  ultimately have "\<not> i < 8 \<and> i - 8 = 4 \<or> \<not> i < 40 \<and> i - 40 = 3" using one by blast
  then show "12 \<le> i \<and> i < 12 + 32" by auto
qed simp_all

text \<open>
  C35. The streaming content hasher computes the documented content hash: the
  SHA-256 of the concatenated digests of the chunks of itemsPerRecord items, each
  item framed by its length, however the items are split into parts.
\<close>

theorem content_hash_streaming:
  assumes "0 < k" and "newContentHasher (int k) = Inr h"
  shows "fst (hasher_Sum (foldl hasher_Add h calls)) = content_hash k (map concat calls)"
  by (rule hasher_stream [OF assms])

theorem content_hash_streaming_witness:
  "\<exists>h. newContentHasher (int 2) = Inr h \<and>
    fst (hasher_Sum (foldl hasher_Add h [[[1], [2]], [[3]], [[]]])) = content_hash 2 [[1, 2], [3], []]"
proof -
  obtain h where h: "newContentHasher (int 2) = Inr h" using hasher_inv_new [of 2] by auto
  from content_hash_streaming [OF _ this, of "[[[1], [2]], [[3]], [[]]]"] h show ?thesis by simp
qed

text \<open>
  C36. The content hash determines the items and their boundaries: if the hasher ends
  with the same hash after two sequences of AppendItem calls, the items are the same, or
  two different byte strings among those hashed for them have the same SHA-256. Moving
  bytes from one item to the next, or from one chunk to the next, changes what is hashed.
\<close>

theorem content_hash_determines_items:
  assumes "0 < k" and "newContentHasher (int k) = Inr h"
    and "\<forall>x \<in> set (map concat as) \<union> set (map concat bs). length x < 2 ^ 32"
    and "fst (hasher_Sum (foldl hasher_Add h as)) = fst (hasher_Sum (foldl hasher_Add h bs))"
  shows "map concat as = map concat bs \<or>
    sha_collision (hash_inputs k (map concat as)) (hash_inputs k (map concat bs))"
  using content_hash_binding [OF assms(1,3)] hasher_stream [OF assms(1,2)] assms(4) by simp

theorem content_hash_determines_items_witness:
  "\<exists>h. newContentHasher (int 2) = Inr h \<and>
    (map concat [[[1], [2]], [[3]]] = map concat [[[1, 2]], [[], [3 :: byte]]] \<or>
      sha_collision (hash_inputs 2 (map concat [[[1], [2]], [[3]]])) (hash_inputs 2 (map concat [[[1, 2]], [[], [3]]])))"
proof -
  obtain h where h: "newContentHasher (int 2) = Inr h" using hasher_inv_new [of 2] by auto
  have "fst (hasher_Sum (foldl hasher_Add h [[[1], [2]], [[3]]])) = fst (hasher_Sum (foldl hasher_Add h [[[1, 2]], [[], [3]]]))"
    using hasher_stream [OF _ h, of "[[[1], [2]], [[3]]]"] hasher_stream [OF _ h, of "[[[1, 2]], [[], [3]]]"] by simp
  from content_hash_determines_items [OF _ h _ this] h show ?thesis by simp
qed

text \<open>
  C37. The zstd wrapper restores what it compressed, empty input included, for any
  open compressor and decompressor.
\<close>

theorem zstd_wrapper_round_trip:
  assumes "zstd_contract z" and "cctx c" and "dctx d" and "length data < 2 ^ 46"
  shows "\<exists>frame. Compressor_Encode z c data = Inr frame \<and> (frame = [] \<longleftrightarrow> data = []) \<and>
    Decompressor_Decode z d frame = Inr data"
  by (rule zstd_round_trip [OF assms])

theorem zstd_wrapper_round_trip_witness:
  "\<exists>frame. Compressor_Encode store_zstd \<lparr>cctx = True, clevel = 3, cchecksum = True\<rparr> [1, 2, 3] = Inr frame \<and>
    Decompressor_Decode store_zstd \<lparr>dctx = True\<rparr> frame = Inr [1, 2, 3]"
  using zstd_wrapper_round_trip [OF store_zstd_contract,
      of "\<lparr>cctx = True, clevel = 3, cchecksum = True\<rparr>" "\<lparr>dctx = True\<rparr>" "[1, 2, 3]"] by auto

section \<open>The writer's state\<close>

text \<open>
  C38. Closing a writer that was not finished removes the file and ends the writer:
  a second Close does nothing, and AppendItem and Finish only return errors.
\<close>

theorem Close_removes_unfinished:
  assumes "\<not> wclosed w" and "fs (wpath w) \<noteq> None" and "\<not> remove_fails env"
  shows "case Close env z fs w of (errs, fs', w') \<Rightarrow>
    fs' (wpath w) = None \<and> wclosed w' \<and>
    (\<forall>fs''. Close env z fs'' w' = ([], fs'', w')) \<and>
    (\<forall>fs'' parts. \<exists>e. AppendItem env z fs'' w' parts = (Some e, fs'', w')) \<and>
    (\<forall>fs'' appData. \<exists>e. Finish env z fs'' w' appData = (Some e, fs'', w'))"
proof -
  obtain errs fs' w' where c: "Close env z fs w = (errs, fs', w')" by (cases "Close env z fs w") auto
  have gone: "fs' (wpath w) = None" and closed: "wclosed w'"
    using Close_unfinished [OF c assms] by blast+
  have "Close env z fs'' w' = ([], fs'', w')" for fs''
    using closed by (simp add: Close_def)
  moreover have "\<exists>e. AppendItem env z fs'' w' parts = (Some e, fs'', w')" for fs'' parts
    using closed by (cases "werr w'") (auto simp: AppendItem_def)
  moreover have "\<exists>e. Finish env z fs'' w' appData = (Some e, fs'', w')" for fs'' appData
    using closed by (cases "werr w'") (auto simp: Finish_def)
  ultimately show ?thesis
    using gone closed unfolding c by simp
qed

theorem Close_removes_unfinished_witness:
  "\<exists>fs w errs fs' w'. Create no_faults (\<lambda>_. None) ''f'' demo_opts = Inr (fs, w) \<and> fs ''f'' \<noteq> None \<and>
    Close no_faults store_zstd fs w = (errs, fs', w') \<and> fs' ''f'' = None"
proof -
  have "\<not> open_fails no_faults ''f''" "optOverwrite demo_opts \<or> (\<lambda>_. None :: bytes option) ''f'' = None" "0 \<le> optItemsPerRecord demo_opts"
    by (simp_all add: no_faults_def demo_opts_def)
  from Create_inv [OF this, of store_zstd] obtain fs w where
    cr: "Create no_faults (\<lambda>_. None) ''f'' demo_opts = Inr (fs, w)" "wpath w = ''f''"
    "serial_inv store_zstd fs w [] \<or> conc_inv store_zstd fs w []"
    by auto
  then have w: "\<not> wclosed w" "fs ''f'' \<noteq> None" by (auto simp: serial_inv_def conc_inv_def live_def written_def chunked_def)
  have "\<not> remove_fails no_faults" by (simp add: no_faults_def)
  with Close_removes_unfinished [of w fs no_faults store_zstd] w cr(1,2) show ?thesis
    by (cases "Close no_faults store_zstd fs w") auto
qed

section \<open>The writer's pipeline\<close>

text \<open>
  C6. Every interleaving of the caller, the block workers and runWriter that reports
  success from Finish has written exactly what processing the blocks one after the
  other in block order writes, with the same offsets and digests.
\<close>

theorem pipeline_schedule_independent:
  assumes "job_ids jobs" and "0 < pipeConc E" and "pipe_reachable E (pipe_start E fs w jobs) st"
    and "\<not> pipe_crashed st" and "pmain st = Got True None"
  shows "drain (pipeOs E) (pipeZstd E) fs w jobs = (None, pfs st, pwriter st)"
  by (rule pipe_success [OF assms(3,1,2,5,4)])

theorem pipeline_schedule_independent_witness:
  "\<exists>st. pipe_reachable (demo_pipe store_zstd)
      (pipe_start (demo_pipe store_zstd) [''f'' \<mapsto> []] demo_writer (demo_jobs 2)) st \<and>
    drain no_faults store_zstd [''f'' \<mapsto> []] demo_writer (demo_jobs 2) = (None, pfs st, pwriter st)"
proof (rule demo_overtaking)
  fix st
  assume st: "pipe_reachable (demo_pipe store_zstd)
      (pipe_start (demo_pipe store_zstd) [''f'' \<mapsto> []] demo_writer (demo_jobs 2)) st"
    "\<not> pipe_crashed st" "pmain st = Got True None"
  have "job_ids (demo_jobs 2)" "0 < pipeConc (demo_pipe store_zstd)"
    by (rule demo_job_ids, simp_all add: demo_pipe_def)
  from pipeline_schedule_independent [OF this st] st(1) show ?thesis by (auto simp: demo_pipe_def)
qed

text \<open>
  C7. The pipeline cannot deadlock or run on when no block fails: from every reachable
  state at most \<open>pipe_measure\<close> steps remain, and where no goroutine can move the caller
  has its answer, which is not an error.
\<close>

theorem pipeline_returns:
  assumes "processable E (wformat w) jobs" and "write_ok (pipeOs E)" and "0 < pipeConc E"
    and "pipe_reachable E (pipe_start E fs w jobs) st"
  shows "((pipe_step E ^^ n) st st' \<longrightarrow> n \<le> pipe_measure st) \<and>
    ((\<forall>st'. \<not> pipe_step E st st') \<longrightarrow> (\<exists>fin. pmain st = Got fin None))"
proof -
  have "\<exists>fin. pmain st = Got fin None" if "\<forall>st'. \<not> pipe_step E st st'"
    using pipe_no_deadlock [OF assms(4,1,3)] that pipe_reachable_no_error [OF assms(4,1,2)]
    by (metis no_error_def option.exhaust)
  with pipe_run_bounded [OF assms(4)] show ?thesis by blast
qed

theorem pipeline_returns_witness:
  "\<not> (\<exists>st'. (pipe_step (demo_pipe store_zstd) ^^ 30)
      (pipe_start (demo_pipe store_zstd) [''f'' \<mapsto> []] demo_writer (demo_jobs 2)) st')"
proof
  let ?start = "pipe_start (demo_pipe store_zstd) [''f'' \<mapsto> []] demo_writer (demo_jobs 2)"
  assume "\<exists>st'. (pipe_step (demo_pipe store_zstd) ^^ 30) ?start st'"
  then obtain st' where run: "(pipe_step (demo_pipe store_zstd) ^^ 30) ?start st'" ..
  have "write_ok (pipeOs (demo_pipe store_zstd))" "0 < pipeConc (demo_pipe store_zstd)"
    "pipe_reachable (demo_pipe store_zstd) ?start ?start"
    by (simp_all add: demo_pipe_def no_faults_ok pipe_reachable_def)
  from pipeline_returns [OF demo_processable this, of 30 st'] run have "30 \<le> pipe_measure ?start" by blast
  then show False by (simp add: pipe_measure_def pipe_start_def demo_jobs_def demo_pipe_def sum_list_replicate)
qed

text \<open>
  C8. When no block can be processed, a caller that goes on appending is blocked for ever.
  With n workers and more than 2n blocks, under every schedule: Finish is never reached;
  no run is infinite, and it can only stop where Close has returned, because the caller
  gave up before, or where the caller, after 2n blocks, is sending the next one; and as
  long as it has not given up the run can be continued to that state, from which nothing
  leads on.
\<close>

theorem pipeline_deadlock:
  assumes "unprocessable E (wformat w) jobs" and "0 < pipeConc E" and "2 * pipeConc E < length jobs"
    and "werr w = None" and "pipe_reachable E (pipe_start E fs w jobs) st"
  shows "(\<forall>err. pmain st \<noteq> Got True err) \<and>
    ((pipe_step E ^^ n) st st'' \<longrightarrow> n \<le> pipe_measure st) \<and>
    ((\<forall>st'. \<not> pipe_step E st st') \<longrightarrow>
      (\<exists>err. pmain st = Got False err) \<or> pmain st = blocked_submit (pipeConc E) jobs) \<and>
    (pending_jobs (pmain st) \<noteq> [] \<longrightarrow>
      (\<exists>st'. pipe_reachable E st st' \<and> pmain st' = blocked_submit (pipeConc E) jobs \<and> (\<forall>st''. \<not> pipe_step E st' st'')))"
proof -
  note doomed = reachable_doomed [OF assms(5,1,4,3)] and shape = pipe_reachable_shape [OF assms(5)]
  have "pmain st \<noteq> Got True err" for err using doomed by (auto simp: doomed_def)
  then show ?thesis
    using pipe_run_bounded [OF assms(5)] doomed_stuck [OF doomed shape assms(2)]
      doomed_blocks [OF doomed shape assms(1,4,2,3)] by blast
qed

theorem pipeline_deadlock_witness:
  "\<exists>st. pipe_reachable (demo_pipe failing_zstd) (pipe_start (demo_pipe failing_zstd) [''f'' \<mapsto> []] demo_writer (demo_jobs 5)) st \<and>
    pmain st = Submitting (demo_block 4) [] \<and> (\<forall>st'. \<not> pipe_step (demo_pipe failing_zstd) st st')"
proof -
  let ?start = "pipe_start (demo_pipe failing_zstd) [''f'' \<mapsto> []] demo_writer (demo_jobs 5)"
  have "unprocessable (demo_pipe failing_zstd) (wformat demo_writer) (demo_jobs 5)"
    by (simp add: unprocessable_def demo_jobs_def demo_pipe_simps)
  moreover have "0 < pipeConc (demo_pipe failing_zstd)" "2 * pipeConc (demo_pipe failing_zstd) < length (demo_jobs 5)"
    "werr demo_writer = None" "pipe_reachable (demo_pipe failing_zstd) ?start ?start"
    by (simp_all add: demo_pipe_def demo_jobs_def demo_writer_def pipe_reachable_def)
  ultimately have "pending_jobs (pmain ?start) \<noteq> [] \<longrightarrow> (\<exists>st. pipe_reachable (demo_pipe failing_zstd) ?start st \<and>
      pmain st = blocked_submit (pipeConc (demo_pipe failing_zstd)) (demo_jobs 5) \<and>
      (\<forall>st'. \<not> pipe_step (demo_pipe failing_zstd) st st'))"
    using pipeline_deadlock [of "demo_pipe failing_zstd" demo_writer "demo_jobs 5" "[''f'' \<mapsto> []]" ?start] by blast
  moreover have "pending_jobs (pmain ?start) \<noteq> []" by (simp add: pipe_start_def demo_jobs_def)
  moreover have "blocked_submit (pipeConc (demo_pipe failing_zstd)) (demo_jobs 5) = Submitting (demo_block 4) []"
    by (simp add: blocked_submit_def demo_pipe_def demo_jobs_def)
  ultimately show ?thesis by simp
qed

section \<open>The event stores\<close>

text \<open>
  C12. The packfile event store keeps its contract: after a successful session every
  read of the reopened store answers from the list of appended events. EventCount is
  its length, ReadEvent its element (ErrPositionOutOfRange outside), ReadEvents passes
  the range to the consumer in order, and ReadPositions, whatever the interleaving of
  its workers, comes to an end and passes the events of the positions in order.
\<close>

theorem event_store_round_trip:
  fixes conc :: "int list"
  assumes "store_accepts env z path opts fs events" and "write_store env z fs path opts events = (None, fs')"
    and "start + n \<le> length events" and "sorted_wrt (<) ps" and "\<forall>p \<in> set ps. 0 \<le> p \<and> p < int (length events)"
  defines "r \<equiv> Store_Open env fs' path conc"
  shows "EventCount r = Inr (length events) \<and>
    (fst (ReadEvent env z None r i) = (if 0 \<le> i \<and> i < int (length events) then Inr (events ! nat i) else Inl ErrPositionOutOfRange)) \<and>
    (\<exists>pool'. ReadEvents env z None r (int start) (int n) yield s = (None, pool', snd (feed yield (slice events start (start + n)) s))) \<and>
    (ReadPositions env z r None {None} ps yield s s' \<longleftrightarrow> s' = snd (feed yield (map (\<lambda>p. events ! nat p) ps) s))"
proof (intro conjI)
  have holds: "store_holds env z (None, r) events"
    unfolding r_def by (rule pf_log.written_holds [OF assms(1,2)])
  show "EventCount r = Inr (length events)"
    using pf_reader.count_holds [OF holds] by simp
  show "fst (ReadEvent env z None r i) =
      (if 0 \<le> i \<and> i < int (length events) then Inr (events ! nat i) else Inl ErrPositionOutOfRange)"
    using pf_reader.read_holds [OF holds, of i] pf_reader.read_outside [OF holds, of i] by auto
  show "\<exists>pool'. ReadEvents env z None r (int start) (int n) yield s =
      (None, pool', snd (feed yield (slice events start (start + n)) s))"
    using ReadEvents_holds [OF holds assms(3), of yield s] by blast
  let ?s' = "snd (feed yield (map (\<lambda>p. events ! nat p) ps) s)"
  have only: "s' = ?s'" if "ReadPositions env z r None {None} ps yield s s'" for s'
    using pf_reader.positions_holds [OF holds assms(4,5)] that by simp
  obtain t where "ReadPositions env z r None {None} ps yield s t"
    using ReadPositions_returns [OF holds assms(4,5), where polls = "{None}" and yield = yield and s = s] by auto
  with only [of t] have run: "ReadPositions env z r None {None} ps yield s ?s'" by simp
  show "ReadPositions env z r None {None} ps yield s s' \<longleftrightarrow> s' = ?s'"
  proof
    assume "s' = ?s'"
    then show "ReadPositions env z r None {None} ps yield s s'" using run by simp
  qed (rule only)
qed

theorem event_store_round_trip_witness:
  "\<exists>fs'. write_store no_faults store_zstd (\<lambda>_. None) ''f'' demo_store_opts demo_events = (None, fs') \<and>
    fst (ReadEvent no_faults store_zstd None (Store_Open no_faults fs' ''f'' []) 1) = Inr [4] \<and>
    ReadPositions no_faults store_zstd (Store_Open no_faults fs' ''f'' []) None {None} [0, 2]
      (\<lambda>item s. (True, item # s)) [] [Inr [5, 6], Inr [1, 2, 3]]"
proof -
  obtain fs' where w: "write_store no_faults store_zstd (\<lambda>_. None) ''f'' demo_store_opts demo_events = (None, fs')"
    using demo_store_accepts(2) by blast
  have "sorted_wrt (<) [0, 2 :: int]" "\<forall>p \<in> set [0, 2]. 0 \<le> p \<and> p < int (length demo_events)"
    by (simp_all add: demo_events_def)
  from event_store_round_trip [where i = 1 and start = 0 and n = 0 and conc = "[]" and yield = "\<lambda>item s. (True, item # s)"
      and s = "[] :: (pf_error + bytes) list" and s' = "[Inr [5, 6], Inr [1, 2, 3]]",
      OF demo_store_accepts(1) w _ this] w
  show ?thesis by (simp add: demo_events_def)
qed

text \<open>
  C13. The RocksDB event store keeps the same contract over any library that behaves as
  documented, for every order in which the workers of ReadPositions return.
\<close>

theorem rocks_store_round_trip:
  assumes "rocks_accepts R V dbPath world events" and "write_rocks R dbPath opts world events = (None, world')"
    and "start + n \<le> length events" and "sorted_wrt (<) ps" and "\<forall>p \<in> set ps. 0 \<le> p \<and> p < int (length events)"
    and "possible_order (Rocks_Open R world' dbPath conc) ps order"
  defines "r \<equiv> Rocks_Open R world' dbPath conc"
  shows "Rocks_EventCount R r = Inr (length events) \<and>
    (Rocks_ReadEvent R r i = (if 0 \<le> i \<and> i < int (length events) then Inr (events ! nat i) else Inl ErrPositionOutOfRange)) \<and>
    Rocks_ReadEvents R r (int start) (int n) yield s = (None, snd (feed yield (slice events start (start + n)) s)) \<and>
    Rocks_ReadPositions R r (\<lambda>_. None) order ps yield s = (None, snd (feed yield (map (\<lambda>p. events ! nat p) ps) s))"
proof (intro conjI)
  have holds: "rocks_holds R V r events"
    unfolding r_def by (rule rocks_log.written_holds [OF assms(1,2)])
  show "Rocks_EventCount R r = Inr (length events)" by (rule rocks_reader.count_holds [OF holds])
  show "Rocks_ReadEvent R r i =
      (if 0 \<le> i \<and> i < int (length events) then Inr (events ! nat i) else Inl ErrPositionOutOfRange)"
    using rocks_reader.read_holds [OF holds, of i] rocks_reader.read_outside [OF holds, of i] by auto
  show "Rocks_ReadEvents R r (int start) (int n) yield s =
      (None, snd (feed yield (slice events start (start + n)) s))"
    by (rule rocks_reader.events_holds [OF holds assms(3)])
  show "Rocks_ReadPositions R r (\<lambda>_. None) order ps yield s =
      (None, snd (feed yield (map (\<lambda>p. events ! nat p) ps) s))"
    by (rule Rocks_ReadPositions_holds [OF holds assms(4,5)]) (simp add: assms(6) r_def)
qed

theorem rocks_store_round_trip_witness:
  "\<exists>world'. write_rocks list_rocks ''db'' demo_rocks_opts (\<lambda>_. None, \<lambda>_. None) demo_events = (None, world') \<and>
    Rocks_ReadPositions list_rocks (Rocks_Open list_rocks world' ''db'' [2]) (\<lambda>_. None) [(1, 2), (0, 1)] [0, 2]
      (\<lambda>item s. (True, item # s)) [] = (None, [Inr [5, 6], Inr [1, 2, 3]])"
proof -
  obtain world' where w: "write_rocks list_rocks ''db'' demo_rocks_opts (\<lambda>_. None, \<lambda>_. None) demo_events = (None, world')"
    using demo_rocks_accepts(2) by blast
  have "possible_order (Rocks_Open list_rocks world' ''db'' [2]) [0, 2] [(1, 2), (0, 1)]"
    by (simp add: possible_order_def Rocks_Open_def worker_ranges_def Let_def upt_conv_Cons)
  from rocks_store_round_trip [where yield = "\<lambda>item s. (True, item # s)" and s = "[]", OF demo_rocks_accepts(1) w _ _ _ this, of 0 0] w
  show ?thesis by (simp add: demo_events_def)
qed

text \<open>
  C14. The two stores are interchangeable: written with the same events, they answer
  every read of the interface StoreReader alike.
\<close>

theorem stores_agree:
  assumes "store_accepts env z path opts fs events" and "write_store env z fs path opts events = (None, fs')"
    and "rocks_accepts R V dbPath world events" and "write_rocks R dbPath ropts world events = (None, world')"
    and "start + n \<le> length events" and "sorted_wrt (<) ps" and "\<forall>p \<in> set ps. 0 \<le> p \<and> p < int (length events)"
    and "ReadPositions env z (Store_Open env fs' path conc) None {None} ps yield s s'"
    and "possible_order (Rocks_Open R world' dbPath rconc) ps order"
  defines "p \<equiv> Store_Open env fs' path conc" and "r \<equiv> Rocks_Open R world' dbPath rconc"
  shows "EventCount p = Rocks_EventCount R r \<and>
    fst (ReadEvent env z None p i) = Rocks_ReadEvent R r i \<and>
    (\<exists>pool'. ReadEvents env z None p (int start) (int n) yield s = (None, pool', snd (Rocks_ReadEvents R r (int start) (int n) yield s))) \<and>
    Rocks_ReadPositions R r (\<lambda>_. None) order ps yield s = (None, s')"
proof (intro conjI)
  have p: "store_holds env z (None, p) events" and r: "rocks_holds R V r events"
    unfolding p_def r_def by (rule pf_log.written_holds [OF assms(1,2)], rule rocks_log.written_holds [OF assms(3,4)])
  show "EventCount p = Rocks_EventCount R r"
    using pf_reader.count_holds [OF p] rocks_reader.count_holds [OF r] by simp
  show "fst (ReadEvent env z None p i) = Rocks_ReadEvent R r i"
    using pf_reader.read_holds [OF p, of i] pf_reader.read_outside [OF p, of i]
      rocks_reader.read_holds [OF r, of i] rocks_reader.read_outside [OF r, of i] by force
  show "\<exists>pool'. ReadEvents env z None p (int start) (int n) yield s =
      (None, pool', snd (Rocks_ReadEvents R r (int start) (int n) yield s))"
    using ReadEvents_holds [OF p assms(5), of yield s] rocks_reader.events_holds [OF r assms(5), of yield s] by auto
  have "s' = snd (feed yield (map (\<lambda>p. events ! nat p) ps) s)"
    using pf_reader.positions_holds [OF p assms(6,7)] assms(8) by (simp add: p_def)
  then show "Rocks_ReadPositions R r (\<lambda>_. None) order ps yield s = (None, s')"
    using Rocks_ReadPositions_holds [OF r assms(6,7)] assms(9) by (simp add: r_def)
qed

theorem stores_agree_witness:
  "\<exists>fs' world'. write_store no_faults store_zstd (\<lambda>_. None) ''f'' demo_store_opts demo_events = (None, fs') \<and>
    write_rocks list_rocks ''db'' demo_rocks_opts (\<lambda>_. None, \<lambda>_. None) demo_events = (None, world') \<and>
    fst (ReadEvent no_faults store_zstd None (Store_Open no_faults fs' ''f'' []) 2) =
      Rocks_ReadEvent list_rocks (Rocks_Open list_rocks world' ''db'' []) 2"
proof -
  obtain fs' world' where w: "write_store no_faults store_zstd (\<lambda>_. None) ''f'' demo_store_opts demo_events = (None, fs')"
    "write_rocks list_rocks ''db'' demo_rocks_opts (\<lambda>_. None, \<lambda>_. None) demo_events = (None, world')"
    using demo_store_accepts(2) demo_rocks_accepts(2) by blast
  have "possible_order (Rocks_Open list_rocks world' ''db'' []) [] []"
    by (simp add: possible_order_def worker_ranges_def)
  from stores_agree [where i = 2 and start = 0 and n = 0 and yield = "\<lambda>item s. (True, item # s)"
      and s = "[] :: (pf_error + bytes) list", OF demo_store_accepts(1) w(1) demo_rocks_accepts(1) w(2)
      _ _ _ ReadPositions.nothing this] w
  show ?thesis by simp
qed

section \<open>The bitmap indexes\<close>

text \<open>
  C15. A lookup in the index a writer left finds every indexed key: the bitmap holds
  the ids of all events that have the field with this value. It holds exactly the ids of
  the events with the same 128-bit hash, so exactly those of the key when no other
  indexed key has its hash.
\<close>

theorem bitmap_index_complete:
  fixes ropts :: "reader_option list"
  assumes "index_accepts env z S V B members mphfPath dataPath opts fs evs"
    and "write_index env z S B mphfPath dataPath opts fs evs = (None, fs')"
    and "length (os_contents fs' dataPath) < 2 ^ 63" and "ids_with evs f key \<noteq> {}"
  defines "r \<equiv> Bitmap_Open env S fs' mphfPath dataPath ropts"
  shows "\<exists>bm. fst (Lookup env z S B None r f key) = Inr (Some bm) \<and> ids_with evs f key \<subseteq> members bm \<and>
    members bm = keyed (hash_key S) evs (hash_key S f key) \<and>
    (unambiguous (hash_key S) evs f key \<longrightarrow> members bm = ids_with evs f key)"
proof -
  note holds = write_index_holds [OF assms(1-3), of ropts, folded r_def]
  have "keyed (hash_key S) evs (hash_key S f key) \<noteq> {}" using assms(4) ids_with_keyed [of evs f key "hash_key S"] by auto
  from mphf.lookup_indexed [OF holds this] ids_with_keyed keyed_unambiguous show ?thesis by fastforce
qed

theorem bitmap_index_complete_witness:
  "\<exists>fs' bm. write_index no_faults store_zstd list_streamhash list_roaring ''m'' ''d'' demo_ix_opts (\<lambda>_. None) demo_indexed = (None, fs') \<and>
    fst (Lookup no_faults store_zstd list_streamhash list_roaring None
      (Bitmap_Open no_faults list_streamhash fs' ''m'' ''d'' []) FieldTopic0 [1]) = Inr (Some bm) \<and> {0, 1} \<subseteq> set bm"
proof (rule demo_index_written)
  fix fs'
  assume w: "write_index no_faults store_zstd list_streamhash list_roaring ''m'' ''d'' demo_ix_opts (\<lambda>_. None) demo_indexed = (None, fs')"
    and size: "length (os_contents fs' ''d'') < 2 ^ 63"
  from bitmap_index_complete [OF demo_index_accepts w size, of FieldTopic0 "[1]" "[]"] demo_ids w
  show ?thesis by auto
qed

text \<open>
  C16. A lookup of any key ends with ErrKeyNotFound or with the bitmap of an indexed key
  whose hash starts with the same four bytes: a key that is not in the index is told from
  the indexed ones by 32 bits of its hash, and no other error occurs.
\<close>

theorem bitmap_index_lookup:
  fixes ropts :: "reader_option list"
  assumes "index_accepts env z S V B members mphfPath dataPath opts fs evs"
    and "write_index env z S B mphfPath dataPath opts fs evs = (None, fs')"
    and "length (os_contents fs' dataPath) < 2 ^ 63"
  defines "r \<equiv> Bitmap_Open env S fs' mphfPath dataPath ropts"
  shows "fst (Lookup env z S B None r f key) = Inl (IxErr ErrKeyNotFound) \<or>
    (\<exists>bm ev x f' k'. fst (Lookup env z S B None r f key) = Inr (Some bm) \<and> (ev, x) \<in> set evs \<and>
      (f', k') \<in> set (event_fields ev) \<and> fingerprint S f' k' = fingerprint S f key \<and>
      members bm = keyed (hash_key S) evs (hash_key S f' k'))"
  by (rule Lookup_keyed) (rule write_index_holds [OF assms(1-3), of ropts, folded r_def])

theorem bitmap_index_lookup_witness:
  "\<exists>fs'. write_index no_faults store_zstd list_streamhash list_roaring ''m'' ''d'' demo_ix_opts (\<lambda>_. None) demo_indexed = (None, fs') \<and>
    fst (Lookup no_faults store_zstd list_streamhash list_roaring None
      (Bitmap_Open no_faults list_streamhash fs' ''m'' ''d'' []) FieldTopic0 [9]) = Inl (IxErr ErrKeyNotFound)"
proof (rule demo_index_written)
  fix fs'
  assume w: "write_index no_faults store_zstd list_streamhash list_roaring ''m'' ''d'' demo_ix_opts (\<lambda>_. None) demo_indexed = (None, fs')"
    and size: "length (os_contents fs' ''d'') < 2 ^ 63"
  from bitmap_index_lookup [OF demo_index_accepts w size, of "[]" FieldTopic0 "[9]"] demo_absent w
  show ?thesis by blast
qed

text \<open>
  C17. LookupKeys agrees with Lookup key by key, and always ends: whatever the order of
  its sort and the interleaving of the parallel reads, no run is infinite, a call is only
  ever without a next step when it has answered, and its one answer is the bitmaps that
  Lookup finds, in the order of the keys and with nil for the others.
\<close>

theorem bitmap_LookupKeys_pointwise:
  fixes ropts :: "reader_option list" and keys :: "FieldKey list"
  assumes "index_accepts env z S V B members mphfPath dataPath opts fs evs"
    and "write_index env z S B mphfPath dataPath opts fs evs = (None, fs')"
    and "length (os_contents fs' dataPath) < 2 ^ 63"
  defines "r \<equiv> Bitmap_Open env S fs' mphfPath dataPath ropts"
  defines "answer \<equiv> Inr (map (\<lambda>k. case fst (Lookup env z S B None r (fkField k) (fkKey k)) of
      Inl e \<Rightarrow> None | Inr bm \<Rightarrow> bm) keys)"
  shows "(\<nexists>run. run 0 = LookupKeys_begin S r keys \<and> (\<forall>i. lookup_step env z B r None {None} keys (run i) (run (Suc i)))) \<and>
    (\<forall>s. lookup_reachable env z S B r None {None} keys s \<longrightarrow>
      s = Answered answer \<or> (\<exists>s'. lookup_step env z B r None {None} keys s s')) \<and>
    (LookupKeys env z S B r None {None} keys res \<longleftrightarrow> res = answer)"
proof -
  have holds: "index_holds env z S B members (None, r) (\<lambda>f k. keyed (hash_key S) evs (hash_key S f k))"
    unfolding r_def by (rule write_index_holds [OF assms(1-3)])
  show ?thesis
    using lookup_no_infinite_run [of "LookupKeys_begin S r keys" env z B r None "{None}" keys]
      LookupKeys_progress_holds [OF holds, of keys] LookupKeys_iff [OF holds, of keys res]
    unfolding answer_def by blast
qed

theorem bitmap_LookupKeys_pointwise_witness:
  "\<exists>fs'. write_index no_faults store_zstd list_streamhash list_roaring ''m'' ''d'' demo_ix_opts (\<lambda>_. None) demo_indexed = (None, fs') \<and>
    (\<exists>bm. LookupKeys no_faults store_zstd list_streamhash list_roaring (Bitmap_Open no_faults list_streamhash fs' ''m'' ''d'' [])
      None {None} [\<lparr>fkField = FieldTopic0, fkKey = [1]\<rparr>, \<lparr>fkField = FieldTopic0, fkKey = [9]\<rparr>] (Inr [Some bm, None]))"
proof (rule demo_index_written)
  fix fs'
  assume w: "write_index no_faults store_zstd list_streamhash list_roaring ''m'' ''d'' demo_ix_opts (\<lambda>_. None) demo_indexed = (None, fs')"
    and size: "length (os_contents fs' ''d'') < 2 ^ 63"
  note holds = write_index_holds [OF demo_index_accepts w size, of "[]"]
  from mphf.lookup_indexed [OF holds, of FieldTopic0 "[1]"] demo_ids ids_with_keyed [of demo_indexed FieldTopic0 "[1]" "hash_key list_streamhash"]
  obtain bm where "fst (Lookup no_faults store_zstd list_streamhash list_roaring None
      (Bitmap_Open no_faults list_streamhash fs' ''m'' ''d'' []) FieldTopic0 [1]) = Inr (Some bm)" by auto
  moreover from Lookup_keyed [OF holds, of FieldTopic0 "[9]"] demo_absent
  have "fst (Lookup no_faults store_zstd list_streamhash list_roaring None
      (Bitmap_Open no_faults list_streamhash fs' ''m'' ''d'' []) FieldTopic0 [9]) = Inl (IxErr ErrKeyNotFound)" by blast
  ultimately show ?thesis
    using bitmap_LookupKeys_pointwise [OF demo_index_accepts w size, of "[]"] w by auto
qed

text \<open>
  C18. The RocksDB index is exact: Lookup returns the bitmap of exactly the ids of the
  events with this field and value and ErrKeyNotFound when there is none, and LookupKeys
  says the same of every key of a batch, for every order its sort may leave and every
  order in which its workers run.
\<close>

theorem rocks_bitmap_exact:
  assumes "rocks_index_accepts R V B members dbPath world" and "write_rocks_index R B dbPath world evs = (None, world')"
    and "possible_sort keys indexed" and "possible_workers (RocksBitmap_Open R world' dbPath conc) keys order"
  defines "r \<equiv> RocksBitmap_Open R world' dbPath conc"
  shows "(if ids_with evs f key = {} then RocksBitmap_Lookup R B r f key = Inl (IxErr ErrKeyNotFound)
      else \<exists>bm. RocksBitmap_Lookup R B r f key = Inr (Some bm) \<and> members bm = ids_with evs f key) \<and>
    (\<exists>bms. RocksBitmap_LookupKeys R B r indexed order keys = Inr bms \<and>
      map (map_option members) bms = map (\<lambda>k. found_ids (ids_with evs (fkField k) (fkKey k))) keys)"
proof -
  have holds: "rocks_index_holds R V B members r (ids_with evs)"
    unfolding r_def by (rule write_rocks_index_holds [OF assms(1,2)])
  show ?thesis
    using rocks_bitmap.lookup_indexed [OF holds, of f key] rocks_bitmap.lookup_absent [OF holds, of f key]
      RocksBitmap_LookupKeys_found [OF holds assms(3)] assms(4) by (simp add: r_def)
qed

theorem rocks_bitmap_exact_witness:
  "\<exists>world' bm. write_rocks_index list_rocks list_roaring ''db'' (\<lambda>_. None, \<lambda>_. None) demo_indexed = (None, world') \<and>
    RocksBitmap_Lookup list_rocks list_roaring (RocksBitmap_Open list_rocks world' ''db'' []) FieldTopic0 [1] = Inr (Some bm) \<and>
    set bm = {0, 1}"
proof -
  obtain world' where w: "write_rocks_index list_rocks list_roaring ''db'' (\<lambda>_. None, \<lambda>_. None) demo_indexed = (None, world')"
    using demo_rocks_index_written by blast
  have "possible_sort [] []" "possible_workers (RocksBitmap_Open list_rocks world' ''db'' []) [] []"
    by (simp_all add: possible_sort_def possible_workers_def indexed_keys_def worker_ranges_def)
  from rocks_bitmap_exact [OF demo_rocks_index_accepts w this, of FieldTopic0 "[1]"] demo_ids w show ?thesis by auto
qed

text \<open>
  C19. The two indexes are interchangeable on keys whose fingerprint no other indexed key
  has: built from the same events, they answer a batch of such keys, indexed or not,
  with bitmaps of the same ids in the same places.
\<close>

theorem bitmap_indexes_agree:
  assumes "index_accepts env z S V B members mphfPath dataPath opts fs evs"
    and "write_index env z S B mphfPath dataPath opts fs evs = (None, fs')"
    and "length (os_contents fs' dataPath) < 2 ^ 63"
    and "rocks_index_accepts R W B members dbPath world" and "write_rocks_index R B dbPath world evs = (None, world')"
    and "\<forall>k \<in> set keys. unambiguous (fingerprint S) evs (fkField k) (fkKey k)"
    and "LookupKeys env z S B (Bitmap_Open env S fs' mphfPath dataPath ropts) None {None} keys res"
    and "possible_sort keys indexed" and "possible_workers (RocksBitmap_Open R world' dbPath conc) keys order"
  shows "\<exists>bms bms'. res = Inr bms \<and>
    RocksBitmap_LookupKeys R B (RocksBitmap_Open R world' dbPath conc) indexed order keys = Inr bms' \<and>
    map (map_option members) bms = map (map_option members) bms'"
proof -
  note holds = write_index_holds [OF assms(1-3), of ropts] and rocks = write_rocks_index_holds [OF assms(4,5), of conc]
  have "map (map_option members) (map (\<lambda>k. case fst (Lookup env z S B None (Bitmap_Open env S fs' mphfPath dataPath ropts)
      (fkField k) (fkKey k)) of Inl e \<Rightarrow> None | Inr bm \<Rightarrow> bm) keys) =
    map (\<lambda>k. found_ids (ids_with evs (fkField k) (fkKey k))) keys"
    using Lookup_unambiguous [OF holds] assms(6) by simp
  with LookupKeys_holds [OF holds assms(7)] RocksBitmap_LookupKeys_found [OF rocks assms(8,9)] show ?thesis by auto
qed

theorem bitmap_indexes_agree_witness:
  "\<exists>fs' world' bm bm'. write_index no_faults store_zstd list_streamhash list_roaring ''m'' ''d'' demo_ix_opts (\<lambda>_. None) demo_indexed = (None, fs') \<and>
    write_rocks_index list_rocks list_roaring ''db'' (\<lambda>_. None, \<lambda>_. None) demo_indexed = (None, world') \<and>
    LookupKeys no_faults store_zstd list_streamhash list_roaring (Bitmap_Open no_faults list_streamhash fs' ''m'' ''d'' [])
      None {None} [\<lparr>fkField = FieldTopic0, fkKey = [1]\<rparr>] (Inr [Some bm]) \<and>
    RocksBitmap_LookupKeys list_rocks list_roaring (RocksBitmap_Open list_rocks world' ''db'' []) [(0, [2, 1])] [(0, 1)]
      [\<lparr>fkField = FieldTopic0, fkKey = [1]\<rparr>] = Inr [Some bm'] \<and> set bm = set bm'"
proof (rule demo_index_written)
  fix fs'
  assume w: "write_index no_faults store_zstd list_streamhash list_roaring ''m'' ''d'' demo_ix_opts (\<lambda>_. None) demo_indexed = (None, fs')"
    and size: "length (os_contents fs' ''d'') < 2 ^ 63"
  let ?keys = "[\<lparr>fkField = FieldTopic0, fkKey = [1 :: byte]\<rparr>]"
  note holds = write_index_holds [OF demo_index_accepts w size, of "[]"]
  obtain world' where w': "write_rocks_index list_rocks list_roaring ''db'' (\<lambda>_. None, \<lambda>_. None) demo_indexed = (None, world')"
    using demo_rocks_index_written by blast
  obtain res where run: "LookupKeys no_faults store_zstd list_streamhash list_roaring
      (Bitmap_Open no_faults list_streamhash fs' ''m'' ''d'' []) None {None} ?keys res"
    using LookupKeys_returns_holds [OF holds] by blast
  have sched: "\<forall>k \<in> set ?keys. unambiguous (fingerprint list_streamhash) demo_indexed (fkField k) (fkKey k)"
    "possible_sort ?keys [(0, [2, 1])]" "possible_workers (RocksBitmap_Open list_rocks world' ''db'' []) ?keys [(0, 1)]"
    by (simp_all add: demo_unambiguous possible_sort_def possible_workers_def indexed_keys_def demo_composite worker_ranges_def
        RocksBitmap_Open_def Let_def)
  from mphf.lookup_indexed [OF holds, of FieldTopic0 "[1]"] demo_ids ids_with_keyed [of demo_indexed FieldTopic0 "[1]" "hash_key list_streamhash"]
  obtain bm where "fst (Lookup no_faults store_zstd list_streamhash list_roaring None
      (Bitmap_Open no_faults list_streamhash fs' ''m'' ''d'' []) FieldTopic0 [1]) = Inr (Some bm)" by auto
  with LookupKeys_holds [OF holds run] have "res = Inr [Some bm]" by simp
  moreover from this bitmap_indexes_agree [OF demo_index_accepts w size demo_rocks_index_accepts w' sched(1) run sched(2,3)]
  obtain bm' where "RocksBitmap_LookupKeys list_rocks list_roaring (RocksBitmap_Open list_rocks world' ''db'' [])
      [(0, [2, 1])] [(0, 1)] ?keys = Inr [Some bm']" "set bm = set bm'"
    by (auto simp: map_eq_Cons_conv eq_commute [of "Some (set bm)"])
  ultimately show ?thesis
    using w w' run by (intro exI [of _ fs'] exI [of _ world'] exI [of _ bm] exI [of _ bm']) simp
qed

section \<open>Queries\<close>

text \<open>
  C4. A query over store and index is complete and sound: when events are written to an
  event store and indexed under their positions, the bitmap of an indexed key that no
  other indexed key collides with holds exactly the positions of the events with this
  field, and reading and unmarshalling any of these positions gives an event that has it.
\<close>

theorem query_exact:
  fixes ropts :: "reader_option list"
  assumes "store_accepts env z path opts fs (map (Marshal []) evs)"
    and "write_store env z fs path opts (map (Marshal []) evs) = (None, fs1)"
    and "index_accepts env z S V B members mphfPath dataPath iopts fs1 (numbered evs)"
    and "write_index env z S B mphfPath dataPath iopts fs1 (numbered evs) = (None, fs2)"
    and "length (os_contents fs2 dataPath) < 2 ^ 63" and "path \<noteq> mphfPath" and "path \<noteq> dataPath"
    and "length evs \<le> 2 ^ 32" and "\<forall>ev \<in> set evs. encodable ev \<and> well_addressed ev"
    and "ids_with (numbered evs) f key \<noteq> {}" and "unambiguous (hash_key S) (numbered evs) f key"
  shows "\<exists>bm. fst (Lookup env z S B None (Bitmap_Open env S fs2 mphfPath dataPath ropts) f key) = Inr (Some bm) \<and>
    members bm = of_nat ` {i. i < length evs \<and> (f, key) \<in> set (event_fields (evs ! i))} \<and>
    (\<forall>x \<in> members bm. \<exists>raw. fst (ReadEvent env z None (Store_Open env fs2 path conc) (int (unat x))) = Inr raw \<and>
      Unmarshal raw buf = (None, canonical (evs ! unat x)) \<and> (f, key) \<in> set (event_fields (canonical (evs ! unat x))))"
proof -
  note index = write_index_holds [OF assms(3-5), of ropts]
  have key: "keyed (hash_key S) (numbered evs) (hash_key S f key) = ids_with (numbered evs) f key"
    by (rule keyed_unambiguous [OF assms(11)])
  obtain bm where bm: "fst (Lookup env z S B None (Bitmap_Open env S fs2 mphfPath dataPath ropts) f key) = Inr (Some bm)"
    "members bm = ids_with (numbered evs) f key"
    using mphf.lookup_indexed [OF index, of f key] assms(10) by (auto simp: key)
  have "Store_Open env fs2 path conc = Store_Open env fs1 path conc"
    by (rule Store_Open_cong) (rule write_index_frame [OF assms(3,4,6,7)])
  then have "store_holds env z (None, Store_Open env fs2 path conc) (map (Marshal []) evs)"
    using pf_log.written_holds [OF assms(1,2)] by simp
  from read_numbered [OF this assms(8,9), of _ f key buf] bm show ?thesis by (auto simp: ids_with_numbered [symmetric])
qed

theorem query_exact_witness:
  "\<exists>fs1 fs2 bm. write_store no_faults store_zstd (\<lambda>_. None) ''f'' demo_store_opts demo_log = (None, fs1) \<and>
    write_index no_faults store_zstd list_streamhash list_roaring ''m'' ''d'' demo_ix_opts fs1 demo_indexed = (None, fs2) \<and>
    fst (Lookup no_faults store_zstd list_streamhash list_roaring None
      (Bitmap_Open no_faults list_streamhash fs2 ''m'' ''d'' []) FieldTopic0 [1]) = Inr (Some bm) \<and>
    (\<exists>raw. fst (ReadEvent no_faults store_zstd None (Store_Open no_faults fs2 ''f'' []) 1) = Inr raw \<and>
      snd (Unmarshal raw demo_first) = canonical demo_second)"
proof -
  obtain fs1 where s: "write_store no_faults store_zstd (\<lambda>_. None) ''f'' demo_store_opts demo_log = (None, fs1)" "fs1 ''d'' = None"
    using demo_log_store(2) by blast
  obtain fs2 contents where w: "write_index no_faults store_zstd list_streamhash list_roaring ''m'' ''d'' demo_ix_opts fs1 demo_indexed = (None, fs2)"
    "fs2 ''d'' = Some contents" "length contents < 2 ^ 63"
    using demo_index_written_any [where fs = fs1, OF s(2)] by blast
  let ?evs = "[demo_first, demo_second]"
  have size: "length (os_contents fs2 ''d'') < 2 ^ 63" using w by (simp add: os_contents_def)
  have num: "numbered ?evs = demo_indexed" by (simp add: numbered_def demo_indexed_def)
  have ids: "ids_with (numbered ?evs) FieldTopic0 [1] \<noteq> {}" "unambiguous (hash_key list_streamhash) (numbered ?evs) FieldTopic0 [1]"
    using demo_ids unambiguous_hash [OF demo_unambiguous] by (simp_all add: num)
  from query_exact [where evs = ?evs and buf = demo_first and conc = "[]" and ropts = "[]", folded demo_log_def, unfolded num,
      OF demo_log_store(1) s(1) demo_index_accepts_any [where fs = fs1, OF s(2)] w(1) size _ _ _ demo_encodable ids [unfolded num]]
  obtain bm where bm: "fst (Lookup no_faults store_zstd list_streamhash list_roaring None
      (Bitmap_Open no_faults list_streamhash fs2 ''m'' ''d'' []) FieldTopic0 [1]) = Inr (Some bm)"
    "set bm = of_nat ` {i. i < length ?evs \<and> (FieldTopic0, [1]) \<in> set (event_fields (?evs ! i))}"
    "\<forall>x \<in> set bm. \<exists>raw. fst (ReadEvent no_faults store_zstd None (Store_Open no_faults fs2 ''f'' []) (int (unat x))) = Inr raw \<and>
      Unmarshal raw demo_first = (None, canonical (?evs ! unat x)) \<and> (FieldTopic0, [1]) \<in> set (event_fields (canonical (?evs ! unat x)))"
    by auto
  have "1 < length ?evs \<and> (FieldTopic0, [1]) \<in> set (event_fields (?evs ! 1))" by (simp add: demo_fields FieldTopic0_def)
  then have "1 \<in> set bm" unfolding bm(2) by force
  with bm(1,3) s(1) w(1) show ?thesis by fastforce
qed

section \<open>Chunks of ledgers\<close>

text \<open>
  C21. A chunk is read back: from an index file with offsets of four or eight bytes and a
  data file with the compressed ledgers at these offsets, ReadLedger returns every ledger
  by its index and refuses any other index.
\<close>

theorem chunk_read_back:
  assumes "read_ok env" and "zstd_contract z" and "cctx c" and "\<forall>ledger \<in> set ledgers. length ledger < 2 ^ 46"
    and "list_all2 (\<lambda>ledger frame. Compressor_Encode z c ledger = Inr frame) ledgers frames"
    and "offsetSize = 4 \<and> length (before @ concat frames) < 2 ^ 32 \<or> offsetSize = 8" and "length reserved = 6"
    and "fs indexPath = Some (chunk_index offsetSize reserved (record_offsets (length before) frames))"
    and "fs dataPath = Some (before @ concat frames @ rest)" and "length (before @ concat frames @ rest) < 2 ^ 48"
  shows "\<exists>r. NewChunkReader env z fs indexPath dataPath = Inr r \<and> NumLedgers r = int (length ledgers) \<and>
    (\<forall>i. ReadLedger env z r i =
      (if 0 \<le> i \<and> i < int (length ledgers) then Inr (ledgers ! nat i) else Inl (OutOfRange i (int (length ledgers)))))"
  using chunk_opens_reads [OF assms] by blast

theorem chunk_read_back_witness:
  "\<exists>r. NewChunkReader no_faults store_zstd [''i'' \<mapsto> demo_chunk_index, ''d'' \<mapsto> demo_chunk_data] ''i'' ''d'' = Inr r \<and>
    NumLedgers r = 2 \<and> ReadLedger no_faults store_zstd r 1 = Inr [4]"
proof -
  let ?fs = "[''i'' \<mapsto> demo_chunk_index, ''d'' \<mapsto> demo_chunk_data]"
  have c: "cctx default_compressor" by (simp add: default_compressor_def)
  have ledgers: "\<forall>ledger \<in> set demo_ledgers. length ledger < 2 ^ 46" by (simp add: demo_ledgers_def)
  have "\<exists>r. NewChunkReader no_faults store_zstd ?fs ''i'' ''d'' = Inr r \<and> NumLedgers r = int (length demo_ledgers) \<and>
    (\<forall>i. ReadLedger no_faults store_zstd r i =
      (if 0 \<le> i \<and> i < int (length demo_ledgers) then Inr (demo_ledgers ! nat i) else Inl (OutOfRange i (int (length demo_ledgers)))))"
    by (rule chunk_read_back [where offsetSize = 4 and reserved = "replicate 6 0" and before = "[]" and rest = "[]",
        OF no_faults_ok(2) store_zstd_contract c ledgers demo_chunk_frames])
      (simp_all add: demo_chunk_index_def demo_chunk_data_def demo_frame_lengths)
  then show ?thesis by (auto simp: demo_ledgers_def)
qed

text \<open>
  C22. The reader's type invariant: whatever the files hold, a reader that opens has one
  offset more than ledgers and at least -1 ledgers, closing keeps this, and ReadLedger
  never reads outside the offsets: it panics exactly when the record of a ledger in range
  has a negative size, is too large to allocate, or is a frame that claims such a content.
\<close>

theorem chunk_reader_well_formed:
  assumes "NewChunkReader env z fs indexPath dataPath = Inr r0" and "r = r0 \<or> r = Chunk_Close r0"
    and "n = sint (crOffsets r ! (nat i + 1) - crOffsets r ! nat i)"
  shows "int (length (crOffsets r)) = NumLedgers r + 1 \<and>
    ((\<exists>e. ReadLedger env z r i = Inl e \<and> chunk_panic e) \<longleftrightarrow>
      0 \<le> i \<and> i < NumLedgers r \<and> (n < 0 \<or> n > int maxAlloc \<or>
        (\<exists>frame. chunk_ReadAt env r (nat n) (sint (crOffsets r ! nat i)) = Inr frame \<and>
          Decompressor_Decode z (crDecompressor r) frame = Inl makeslice)))"
proof -
  have "chunk_ok r" using NewChunkReader_ok [OF assms(1)] Chunk_Close_ok assms(2) by blast
  then show ?thesis using ReadLedger_panic [OF _ assms(3)] by (simp add: chunk_ok_def NumLedgers_def)
qed

theorem chunk_reader_well_formed_witness:
  "\<exists>r. NewChunkReader no_faults store_zstd [''i'' \<mapsto> chunk_index 8 (replicate 6 0) [5, 3], ''d'' \<mapsto> []] ''i'' ''d'' = Inr r \<and>
    NumLedgers r = 1 \<and> (\<exists>e. ReadLedger no_faults store_zstd r 0 = Inl e \<and> chunk_panic e)"
proof -
  obtain r where r: "NewChunkReader no_faults store_zstd [''i'' \<mapsto> chunk_index 8 (replicate 6 0) [5, 3], ''d'' \<mapsto> []] ''i'' ''d'' = Inr r"
    "crOffsets r = [5, 3]" "crNumLedgers r = 1"
    using NewChunkReader_index [where fs = "[''i'' \<mapsto> chunk_index 8 (replicate 6 0) [5, 3], ''d'' \<mapsto> []]" and indexPath = "''i''"
        and dataPath = "''d''" and offsetSize = 8 and reserved = "replicate 6 0" and offsets = "[5, 3]" and data = "[]",
        OF no_faults_ok(2) store_zstd_contract] by simp
  have size: "-2 = sint (crOffsets r ! (nat 0 + 1) - crOffsets r ! nat 0)" by (simp add: r(2))
  have "r = r \<or> r = Chunk_Close r" by simp
  from chunk_reader_well_formed [OF r(1) this size] r show ?thesis by (simp add: NumLedgers_def)
qed

section \<open>Extraction\<close>

text \<open>
  C20. Extraction is exact: from a ledger whose transactions the SDK delivers with their
  events, ExtractEvents ends and returns every event that is not diagnostic, in the order
  of the ledger, the transaction-level events of a transaction before those of its
  operations; and when the counts fit their 16 bits, no two of them have the same position.
\<close>

theorem extract_events_exact:
  assumes "LedgerUnmarshal L ledgerXDR = Inr meta" and "CountTransactions L meta = length txs"
    and "NewTransactionReader L MainnetPassphrase meta = Inr rd" and "delivers L rd txs" and "\<forall>tx \<in> set txs. sound_tx L tx"
  shows "ExtractEvents L ledgerXDR events = Some (None, ledger_events L meta txs) \<and>
    (distinct (map (TxIndex L) txs) \<and> (\<forall>tx \<in> set txs. countable_events (transaction_events L tx)) \<longrightarrow>
      distinct (map position (ledger_events L meta txs)))"
  using ExtractEvents_sound [OF assms, of events] ledger_positions [of L txs meta] by blast

theorem extract_events_exact_witness:
  "\<exists>e1 e2. ExtractEvents demo_sdk [0] [demo_first] = Some (None, [e1, e2]) \<and>
    position e1 = (1, 0xFFFF, 1) \<and> position e2 = (1, 1, 0) \<and> DataBytes e2 = [8]"
proof -
  have "\<forall>tx \<in> set [demo_tx]. sound_tx demo_sdk tx"
    by (simp add: sound_tx_def sound_event_def demo_sdk_def demo_tx_def demo_xdr_def)
  from extract_events_exact [where L = demo_sdk and txs = "[demo_tx]" and ledgerXDR = "[0]" and events = "[demo_first]", OF _ _ _ _ this]
  show ?thesis
    by (simp add: demo_sdk_def demo_tx_def demo_xdr_def ledger_events_def transaction_events_def kept_events_def kept_def
        extracted_def marshalled_def position_def ContractEventTypeDiagnostic_def)
qed

section \<open>Events\<close>

text \<open>
  C39. The event codec: Unmarshal applied to a marshalled event, followed by any
  bytes and into any event, succeeds and gives the event back, with the fields the
  encoding does not carry cleared.
\<close>

theorem event_round_trip:
  assumes "encodable ev"
  shows "Marshal dst ev = dst @ Marshal [] ev \<and> Unmarshal (Marshal [] ev @ rest) ev0 = (None, canonical ev)"
  using Marshal_append Unmarshal_Marshal [OF assms] by blast

definition demo_event :: Event where
  "demo_event = \<lparr>ContractID = Some (replicate 32 7), Topics = [[1, 2], []], TxHash = replicate 32 9,
    EventType = TypeContract, DataBytes = [5, 6, 7], LedgerClosedAt = \<lparr>unixSec = - 5, nanos = 12\<rparr>,
    Successful = True, LedgerSequence = 4, TransactionIndex = 3, OperationIndex = 2, EventIndex = 1\<rparr>"

theorem event_round_trip_witness: "Unmarshal (Marshal [] demo_event @ [0, 0]) demo_event = (None, canonical demo_event)"
  using event_round_trip [of demo_event "[]" "[0, 0]" demo_event] by (simp add: encodable_def demo_event_def)



end
